(* ===== verification/Prelude.thy ===== *)
theory Prelude
  imports Main "HOL-Library.Multiset"
begin

text \<open>
  Shared material of the development: the named collections the component theories feed,
  the standard-library functions of Rust that several components call, and generic facts on
  lists, prefixes and sorted association lists.
\<close>

named_theorems slice_simps \<open>reads and writes of a slice at an index\<close>
named_theorems weight_simps \<open>how an operation changes the weight of a key\<close>
named_theorems leaf_inv_intros \<open>operations keep the invariant of a sorted layer\<close>

text \<open>
  \<open>Iterator::position\<close>: the index of the first element that satisfies the predicate.
  \<open>Option::unwrap_or\<close>: the value, or the given default.
\<close>

fun position :: "('a \<Rightarrow> bool) \<Rightarrow> 'a list \<Rightarrow> nat option" where
  "position p [] = None"
| "position p (x # xs) = (if p x then Some 0 else map_option Suc (position p xs))"

fun unwrap_or :: "'a option \<Rightarrow> 'a \<Rightarrow> 'a" where
  "unwrap_or None d = d"
| "unwrap_or (Some x) d = x"

text \<open>\<open>std::cmp::Ordering\<close>, and \<open>Ord::cmp\<close> of a linear order.\<close>

datatype ordering = Less | Equal | Greater

definition ord_cmp :: "('a::linorder) \<Rightarrow> 'a \<Rightarrow> ordering" where
  "ord_cmp a b = (if a < b then Less else if a = b then Equal else Greater)"

lemma ord_cmp_iff:
  "ord_cmp a b = Less \<longleftrightarrow> a < b" "ord_cmp a b = Equal \<longleftrightarrow> a = b" "ord_cmp a b = Greater \<longleftrightarrow> b < a"
  by (auto simp: ord_cmp_def)

text \<open>\<open>slice[i]\<close>, which panics out of range, and \<open>std::cmp::Reverse\<close>, the opposite of an order.\<close>

definition nth_opt :: "'a list \<Rightarrow> nat \<Rightarrow> 'a option" where
  "nth_opt xs i = (if i < length xs then Some (xs ! i) else None)"

datatype 'a reversed = Reversed (unreversed: 'a)

instantiation reversed :: (linorder) linorder
begin

definition less_eq_reversed :: "'a reversed \<Rightarrow> 'a reversed \<Rightarrow> bool" where
  "less_eq_reversed a b \<longleftrightarrow> unreversed b \<le> unreversed a"

definition less_reversed :: "'a reversed \<Rightarrow> 'a reversed \<Rightarrow> bool" where
  "less_reversed a b \<longleftrightarrow> unreversed b < unreversed a"

instance
  by standard (auto simp: less_eq_reversed_def less_reversed_def reversed.expand)

end

lemma ord_cmp_reversed: "ord_cmp (Reversed a) (Reversed b) = ord_cmp b a"
  by (auto simp: ord_cmp_def less_reversed_def)

text \<open>
  \<open>slice[lo..hi]\<close>: the elements from index \<open>lo\<close> to index \<open>hi\<close>, the last excluded. Indexing out of
  range is a panic of the program; the callers of this function establish that it does not occur.
\<close>

definition subslice :: "'a list \<Rightarrow> nat \<Rightarrow> nat \<Rightarrow> 'a list" where
  "subslice xs lo hi = take (hi - lo) (drop lo xs)"

section \<open>Prefixes of a slice\<close>

text \<open>The predicate stays false once it becomes false along the slice.\<close>

definition prefix_closed :: "('a \<Rightarrow> bool) \<Rightarrow> 'a list \<Rightarrow> bool" where
  "prefix_closed f xs \<longleftrightarrow> (\<forall>i j. i \<le> j \<and> j < length xs \<and> f (xs ! j) \<longrightarrow> f (xs ! i))"

lemma prefix_closedD:
  "prefix_closed f xs \<Longrightarrow> i \<le> j \<Longrightarrow> j < length xs \<Longrightarrow> f (xs ! j) \<Longrightarrow> f (xs ! i)"
  unfolding prefix_closed_def by blast

lemma length_takeWhile_eqI:
  assumes "n \<le> length xs" and "\<And>i. i < n \<Longrightarrow> f (xs ! i)"
    and "n < length xs \<Longrightarrow> \<not> f (xs ! n)"
  shows "length (takeWhile f xs) = n"
proof -
  have "takeWhile f xs = take n xs"
    using assms by (intro takeWhile_eq_take_P_nth) auto
  with assms(1) show ?thesis by simp
qed

lemma prefix_closed_boundary:
  assumes "prefix_closed f xs" and "n \<le> length xs" and "0 < n \<Longrightarrow> f (xs ! (n - 1))"
    and "n < length xs \<Longrightarrow> \<not> f (xs ! n)"
  shows "length (takeWhile f xs) = n"
proof (rule length_takeWhile_eqI)
  fix i assume "i < n"
  with assms(1-3) show "f (xs ! i)"
    by (intro prefix_closedD [OF assms(1), of i "n - 1"]) auto
qed (use assms in auto)

lemma position_unwrap_or:
  "unwrap_or (position (\<lambda>x. \<not> f x) xs) (length xs) = length (takeWhile f xs)"
proof (induction xs)
  case (Cons x xs)
  then show ?case by (cases "position (\<lambda>x. \<not> f x) xs") auto
qed simp

lemma position_take_unwrap_or:
  "n \<le> length xs \<Longrightarrow>
    unwrap_or (position (\<lambda>x. \<not> f x) (take n xs)) n = length (takeWhile f (take n xs))"
  using position_unwrap_or [of f "take n xs"] by (simp add: min_absorb2)

lemma takeWhile_take_boundary:
  assumes "m < length xs \<Longrightarrow> \<not> f (xs ! m)"
  shows "takeWhile f (take m xs) = takeWhile f xs"
proof (cases "m < length xs")
  case m: True
  show ?thesis
  proof (cases "\<forall>x \<in> set (take m xs). f x")
    case True
    then have "takeWhile f xs = take m xs @ takeWhile f (drop m xs)"
      by (metis append_take_drop_id takeWhile_append2)
    moreover have "takeWhile f (drop m xs) = []"
      using assms m by (simp add: Cons_nth_drop_Suc [symmetric])
    ultimately show ?thesis using True by simp
  next
    case False
    then obtain x where "x \<in> set (take m xs)" "\<not> f x" by blast
    then have "takeWhile f (take m xs @ drop m xs) = takeWhile f (take m xs)"
      by (rule takeWhile_append1)
    then show ?thesis by simp
  qed
qed simp

end
