(* ===== verification/Slice_Search.thy ===== *)
theory Slice_Search
  imports Prelude
begin

text \<open>
  Exponential search in slices: \<open>crates/dbsp/src/utils/advance_retreat.rs\<close>.
  \<open>advance\<close> counts the elements of a prefix on which a predicate holds and \<open>retreat\<close> those of a
  suffix, each in a typed and a type-erased variant. The four functions share two loops, one
  that doubles its step and one that halves it; here the loops are written once over the
  length of the slice and a predicate on indices.
\<close>

section \<open>Definitions\<close>

definition DEFAULT_SMALL_LIMIT :: nat where
  "DEFAULT_SMALL_LIMIT = 8"

text \<open>
  The loop that advances in exponentially growing steps. The source starts it with \<open>step = 1\<close>, so
  the step is never 0; the first conjunct of the guard only makes the function total.
\<close>

function grow_steps :: "nat \<Rightarrow> (nat \<Rightarrow> bool) \<Rightarrow> nat \<Rightarrow> nat \<Rightarrow> nat \<times> nat" where
  "grow_steps len holds index step =
     (if 0 < step \<and> index + step < len \<and> holds (index + step)
      then grow_steps len holds (index + step) (step * 2)
      else (index, step))"
  by pat_completeness auto
termination
  by (relation "measure (\<lambda>(len, holds, index, step). len - index)") auto

text \<open>The loop that advances in exponentially shrinking steps.\<close>

fun shrink_steps :: "nat \<Rightarrow> (nat \<Rightarrow> bool) \<Rightarrow> nat \<Rightarrow> nat \<Rightarrow> nat" where
  "shrink_steps len holds index step =
     (if step > 0
      then shrink_steps len holds
             (if index + step < len \<and> holds (index + step) then index + step else index)
             (step div 2)
      else index)"

declare grow_steps.simps [simp del] shrink_steps.simps [simp del]

text \<open>The block both loops stand in: it runs when the element at \<open>small_limit\<close> satisfies the predicate.\<close>

definition exp_search :: "nat \<Rightarrow> (nat \<Rightarrow> bool) \<Rightarrow> nat \<Rightarrow> nat" where
  "exp_search len holds small_limit =
     (let index = small_limit + 1
      in if index < len \<and> holds index
         then (let (index, step) = grow_steps len holds index 1;
                   index = shrink_steps len holds index (step div 2)
               in index + 1)
         else index)"

definition advance_raw :: "nat \<Rightarrow> 'a list \<Rightarrow> ('a \<Rightarrow> bool) \<Rightarrow> nat" where
  "advance_raw small_limit slice f =
     (if length slice > small_limit \<and> f (slice ! small_limit)
      then exp_search (length slice) (\<lambda>i. f (slice ! i)) small_limit
      else (let limit = min (length slice) small_limit
            in unwrap_or (position (\<lambda>x. \<not> f x) (take limit slice)) limit))"

definition advance :: "'a list \<Rightarrow> ('a \<Rightarrow> bool) \<Rightarrow> nat" where
  "advance slice f = advance_raw DEFAULT_SMALL_LIMIT slice f"

definition retreat_raw :: "nat \<Rightarrow> 'a list \<Rightarrow> ('a \<Rightarrow> bool) \<Rightarrow> nat" where
  "retreat_raw small_limit slice f =
     (if slice = [] then 0
      else (let last_index = length slice - 1
            in if length slice > small_limit \<and> f (slice ! (last_index - small_limit))
               then exp_search (length slice) (\<lambda>i. f (slice ! (last_index - i))) small_limit
               else (let limit = min last_index small_limit
                     in unwrap_or (position (\<lambda>x. \<not> f x) (rev (drop (last_index - limit) slice)))
                          (limit + 1))))"

definition retreat :: "'a list \<Rightarrow> ('a \<Rightarrow> bool) \<Rightarrow> nat" where
  "retreat slice f = retreat_raw DEFAULT_SMALL_LIMIT slice f"

text \<open>
  The type-erased variants. \<open>bytes_of\<close> turns a slice of \<open>n\<close> elements of \<open>size\<close> bytes into
  \<open>n * size\<close> bytes, and \<open>SlicePtr::new\<close> divides that length by the element size again.
\<close>

record 'a slice_ptr =
  sp_ptr :: "'a list"
  sp_elements :: nat
  sp_element_size :: nat

definition slice_ptr_new :: "'a list \<Rightarrow> nat \<Rightarrow> 'a slice_ptr" where
  "slice_ptr_new slice sz =
     \<lparr>sp_ptr = slice, sp_elements = (length slice * sz) div sz, sp_element_size = sz\<rparr>"

definition get_unchecked :: "'a slice_ptr \<Rightarrow> nat \<Rightarrow> 'a" where
  "get_unchecked s idx = sp_ptr s ! idx"

text \<open>\<open>for offset in lo..hi { if !holds(offset) { return offset; } }\<close>, then the end of the range.\<close>

function first_failure :: "(nat \<Rightarrow> bool) \<Rightarrow> nat \<Rightarrow> nat \<Rightarrow> nat" where
  "first_failure holds offset hi =
     (if offset < hi then (if \<not> holds offset then offset else first_failure holds (offset + 1) hi)
      else hi)"
  by pat_completeness auto
termination
  by (relation "measure (\<lambda>(holds, offset, hi). hi - offset)") auto

declare first_failure.simps [simp del]

definition advance_erased :: "'a list \<Rightarrow> nat \<Rightarrow> ('a \<Rightarrow> bool) \<Rightarrow> nat" where
  "advance_erased bytes sz f =
     (if sz = 0 then 0
      else (let slice = slice_ptr_new bytes sz
            in if sp_elements slice > DEFAULT_SMALL_LIMIT \<and> f (get_unchecked slice DEFAULT_SMALL_LIMIT)
               then exp_search (sp_elements slice) (\<lambda>i. f (get_unchecked slice i)) DEFAULT_SMALL_LIMIT
               else (let limit = min (sp_elements slice) DEFAULT_SMALL_LIMIT
                     in first_failure (\<lambda>i. f (get_unchecked slice i)) 0 limit)))"

definition dyn_advance :: "nat \<Rightarrow> 'a list \<Rightarrow> ('a \<Rightarrow> bool) \<Rightarrow> nat" where
  "dyn_advance size_of slice f = advance_erased slice size_of f"

definition retreat_erased :: "'a list \<Rightarrow> nat \<Rightarrow> ('a \<Rightarrow> bool) \<Rightarrow> nat" where
  "retreat_erased bytes sz f =
     (if sz = 0 then 0
      else if bytes = [] then 0
      else (let slice = slice_ptr_new bytes sz;
                last_index = sp_elements slice - 1
            in if sp_elements slice > DEFAULT_SMALL_LIMIT
                  \<and> f (get_unchecked slice (last_index - DEFAULT_SMALL_LIMIT))
               then exp_search (sp_elements slice) (\<lambda>i. f (get_unchecked slice (last_index - i)))
                      DEFAULT_SMALL_LIMIT
               else (let limit = min last_index DEFAULT_SMALL_LIMIT
                     in first_failure (\<lambda>i. f (get_unchecked slice (last_index - i))) 0 (limit + 1))))"

definition dyn_retreat :: "nat \<Rightarrow> 'a list \<Rightarrow> ('a \<Rightarrow> bool) \<Rightarrow> nat" where
  "dyn_retreat size_of slice f = retreat_erased slice size_of f"

section \<open>The two loops\<close>

lemma grow_steps_spec:
  assumes "grow_steps len holds index step = (i, s)" and "index < len" and "holds index"
    and "step = 2 ^ k"
  shows "i < len \<and> holds i \<and> (\<exists>m. s = 2 ^ m) \<and> \<not> (i + s < len \<and> holds (i + s))"
  using assms
proof (induction len holds index step arbitrary: k rule: grow_steps.induct)
  case (1 len holds index step)
  show ?case
  proof (cases "0 < step \<and> index + step < len \<and> holds (index + step)")
    case True
    then have "grow_steps len holds index step = grow_steps len holds (index + step) (step * 2)"
      by (subst grow_steps.simps) simp
    with "1.prems"(1) have "grow_steps len holds (index + step) (step * 2) = (i, s)"
      by simp
    then show ?thesis
      by (rule "1.IH" [OF True, where k = "Suc k"]) (use True "1.prems" in simp_all)
  next
    case False
    then have "grow_steps len holds index step = (index, step)"
      by (subst grow_steps.simps) auto
    with "1.prems" False show ?thesis by auto
  qed
qed

lemma shrink_steps_pow2:
  assumes "index < len" and "holds index" and "\<not> (index + 2 ^ Suc k < len \<and> holds (index + 2 ^ Suc k))"
  shows "shrink_steps len holds index (2 ^ k) < len \<and> holds (shrink_steps len holds index (2 ^ k))
    \<and> \<not> (shrink_steps len holds index (2 ^ k) + 1 < len \<and> holds (shrink_steps len holds index (2 ^ k) + 1))"
  using assms
proof (induction k arbitrary: index)
  case 0
  then show ?case
    by (auto simp: shrink_steps.simps [of _ _ _ "Suc 0"] shrink_steps.simps [of _ _ _ 0])
next
  case (Suc k)
  let ?next = "if index + 2 ^ Suc k < len \<and> holds (index + 2 ^ Suc k) then index + 2 ^ Suc k else index"
  have step: "shrink_steps len holds index (2 ^ Suc k) = shrink_steps len holds ?next (2 ^ k)"
    by (subst shrink_steps.simps) simp
  have "?next < len" "holds ?next" "\<not> (?next + 2 ^ Suc k < len \<and> holds (?next + 2 ^ Suc k))"
    using Suc.prems by (auto simp: algebra_simps)
  then show ?case
    unfolding step by (rule Suc.IH)
qed

lemma exp_search_boundary:
  assumes "small_limit < len" and "holds small_limit"
  shows "let n = exp_search len holds small_limit
         in 0 < n \<and> n \<le> len \<and> holds (n - 1) \<and> \<not> (n < len \<and> holds n)"
proof (cases "small_limit + 1 < len \<and> holds (small_limit + 1)")
  case False
  with assms show ?thesis by (auto simp: exp_search_def Let_def)
next
  case True
  obtain i s where g: "grow_steps len holds (small_limit + 1) 1 = (i, s)" by fastforce
  with True grow_steps_spec [of len holds "small_limit + 1" 1 i s 0] obtain m where
    i: "i < len" "holds i" "\<not> (i + s < len \<and> holds (i + s))" and m: "s = 2 ^ m" by auto
  let ?j = "shrink_steps len holds i (s div 2)"
  have "?j < len \<and> holds ?j \<and> \<not> (?j + 1 < len \<and> holds (?j + 1))"
  proof (cases m)
    case 0
    with i m show ?thesis by (simp add: shrink_steps.simps)
  next
    case (Suc k)
    with i m show ?thesis using shrink_steps_pow2 [of i len holds k] by simp
  qed
  with True g show ?thesis by (auto simp: exp_search_def Let_def)
qed

lemma first_failure_spec:
  "lo \<le> hi \<Longrightarrow> lo \<le> first_failure holds lo hi \<and> first_failure holds lo hi \<le> hi
     \<and> (\<forall>i. lo \<le> i \<and> i < first_failure holds lo hi \<longrightarrow> holds i)
     \<and> (first_failure holds lo hi < hi \<longrightarrow> \<not> holds (first_failure holds lo hi))"
proof (induction holds lo hi rule: first_failure.induct)
  case (1 holds lo hi)
  show ?case
  proof (cases "lo < hi \<and> holds lo")
    case True
    with 1 have IH: "lo + 1 \<le> first_failure holds (lo + 1) hi \<and> first_failure holds (lo + 1) hi \<le> hi
      \<and> (\<forall>i. lo + 1 \<le> i \<and> i < first_failure holds (lo + 1) hi \<longrightarrow> holds i)
      \<and> (first_failure holds (lo + 1) hi < hi \<longrightarrow> \<not> holds (first_failure holds (lo + 1) hi))"
      by auto
    have "first_failure holds lo hi = first_failure holds (lo + 1) hi"
      using True by (subst first_failure.simps) simp
    with IH True show ?thesis
      by (metis (no_types, lifting) Suc_eq_plus1 Suc_leD Suc_leI le_neq_implies_less)
  next
    case False
    with 1 show ?thesis by (auto simp: first_failure.simps [of holds lo hi])
  qed
qed

section \<open>The interface of a prefix search\<close>

text \<open>
  What the layers of a trace rely on: on a slice where the predicate stays false once it becomes
  false, the search returns the length of the prefix on which it holds.
\<close>

locale prefix_search =
  fixes search :: "'a list \<Rightarrow> ('a \<Rightarrow> bool) \<Rightarrow> nat"
  assumes search_count: "prefix_closed f xs \<Longrightarrow> search xs f = length (takeWhile f xs)"
begin

lemma search_le_length: "prefix_closed f xs \<Longrightarrow> search xs f \<le> length xs"
  by (simp add: search_count length_takeWhile_le)

lemma search_splits:
  assumes "prefix_closed f xs"
  shows "take (search xs f) xs = takeWhile f xs" and "drop (search xs f) xs = dropWhile f xs"
  using assms by (simp_all add: search_count takeWhile_eq_take [symmetric] dropWhile_eq_drop)

lemma search_all_before:
  "prefix_closed f xs \<Longrightarrow> i < search xs f \<Longrightarrow> f (xs ! i)"
  by (metis nth_mem search_count set_takeWhileD takeWhile_nth)

lemma search_fails_at:
  "prefix_closed f xs \<Longrightarrow> search xs f < length xs \<Longrightarrow> \<not> f (xs ! search xs f)"
  using nth_length_takeWhile by (metis search_count)

end

lemma prefix_closed_sorted_less:
  fixes v :: "'a::linorder"
  shows "sorted xs \<Longrightarrow> prefix_closed (\<lambda>x. x < v) xs"
  unfolding prefix_closed_def by (meson le_less_trans order_trans sorted_iff_nth_mono)

lemma advance_raw_count:
  assumes "prefix_closed f xs"
  shows "advance_raw limit xs f = length (takeWhile f xs)"
proof (cases "length xs > limit \<and> f (xs ! limit)")
  case True
  then have eq: "advance_raw limit xs f = exp_search (length xs) (\<lambda>i. f (xs ! i)) limit"
    by (simp add: advance_raw_def)
  show ?thesis
    unfolding eq using True exp_search_boundary [of limit "length xs" "\<lambda>i. f (xs ! i)"]
    by (intro prefix_closed_boundary [OF assms, symmetric]) (auto simp: Let_def)
next
  case False
  have "unwrap_or (position (\<lambda>x. \<not> f x) (take (min (length xs) limit) xs)) (min (length xs) limit)
      = length (takeWhile f (take (min (length xs) limit) xs))"
    using position_unwrap_or [of f "take (min (length xs) limit) xs"] by simp
  also have "\<dots> = length (takeWhile f xs)"
    using False by (subst takeWhile_take_boundary) (auto simp: min_def split: if_splits)
  finally show ?thesis using False by (auto simp: advance_raw_def Let_def)
qed

lemma rev_drop_last:
  assumes "xs \<noteq> []"
  shows "rev (drop (length xs - 1 - min (length xs - 1) n) xs)
    = take (Suc (min (length xs - 1) n)) (rev xs)"
proof -
  have "length xs - (length xs - 1 - min (length xs - 1) n) = Suc (min (length xs - 1) n)"
    using assms by (cases xs) auto
  then show ?thesis by (simp only: rev_drop)
qed

lemma retreat_raw_count:
  assumes "prefix_closed f (rev xs)"
  shows "retreat_raw limit xs f = length (takeWhile f (rev xs))"
proof (cases "xs = []")
  case True
  then show ?thesis by (simp add: retreat_raw_def)
next
  case False
  let ?last = "length xs - 1"
  have at: "rev xs ! i = xs ! (?last - i)" if "i < length xs" for i
    using that by (simp add: rev_nth)
  show ?thesis
  proof (cases "length xs > limit \<and> f (xs ! (?last - limit))")
    case True
    let ?n = "exp_search (length xs) (\<lambda>i. f (xs ! (?last - i))) limit"
    have "length (takeWhile f (rev xs)) = ?n"
      using True exp_search_boundary [of limit "length xs" "\<lambda>i. f (xs ! (?last - i))"]
      by (intro prefix_closed_boundary [OF assms]) (auto simp: Let_def at)
    with True False show ?thesis by (simp add: retreat_raw_def Let_def)
  next
    case small: False
    let ?m = "Suc (min ?last limit)"
    have tail: "rev (drop (?last - min ?last limit) xs) = take ?m (rev xs)"
      by (rule rev_drop_last [OF False])
    have "unwrap_or (position (\<lambda>x. \<not> f x) (take ?m (rev xs))) ?m
        = length (takeWhile f (take ?m (rev xs)))"
      using False by (intro position_take_unwrap_or) (cases xs; simp)
    also have "\<dots> = length (takeWhile f (rev xs))"
    proof -
      have "\<not> f (rev xs ! ?m)" if "?m < length (rev xs)"
      proof
        assume "f (rev xs ! ?m)"
        with that have "f (rev xs ! limit)"
          using prefix_closedD [OF assms, of limit ?m] by (auto simp: min_def split: if_splits)
        with that small show False by (auto simp: at min_def split: if_splits)
      qed
      then show ?thesis by (subst takeWhile_take_boundary) auto
    qed
    finally have "unwrap_or (position (\<lambda>x. \<not> f x) (rev (drop (?last - min ?last limit) xs))) ?m
        = length (takeWhile f (rev xs))"
      unfolding tail .
    with False small show ?thesis
      unfolding retreat_raw_def Let_def by (simp only: if_False Suc_eq_plus1)
  qed
qed

text \<open>The type-erased searches return what the typed ones do, for every type of nonzero size.\<close>

lemma first_failure_cong:
  "(\<And>i. i < hi \<Longrightarrow> p i = q i) \<Longrightarrow> first_failure p lo hi = first_failure q lo hi"
proof (induction p lo hi rule: first_failure.induct)
  case (1 p lo hi)
  then show ?case
    by (subst (1 2) first_failure.simps) auto
qed

lemma first_failure_takeWhile:
  assumes "n \<le> length xs"
  shows "first_failure (\<lambda>i. f (xs ! i)) 0 n = length (takeWhile f (take n xs))"
proof -
  have "length (takeWhile f (take n xs)) = first_failure (\<lambda>i. f (xs ! i)) 0 n"
    using assms first_failure_spec [of 0 n "\<lambda>i. f (xs ! i)"]
    by (intro length_takeWhile_eqI) auto
  then show ?thesis ..
qed

lemma advance_erased_eq_advance:
  "0 < sz \<Longrightarrow> advance_erased xs sz f = advance xs f"
  by (auto simp: advance_erased_def advance_def advance_raw_def slice_ptr_new_def get_unchecked_def
      Let_def first_failure_takeWhile position_take_unwrap_or)

lemma retreat_erased_eq_retreat:
  assumes "0 < sz"
  shows "retreat_erased xs sz f = retreat xs f"
proof (cases "xs = []")
  case True
  with assms show ?thesis by (simp add: retreat_erased_def retreat_def retreat_raw_def)
next
  case False
  let ?last = "length xs - 1"
  let ?m = "Suc (min ?last DEFAULT_SMALL_LIMIT)"
  have "first_failure (\<lambda>i. f (xs ! (?last - i))) 0 ?m = first_failure (\<lambda>i. f (rev xs ! i)) 0 ?m"
  proof (rule first_failure_cong)
    fix i assume "i < ?m"
    with False have "i < length xs" by (cases xs) auto
    then show "f (xs ! (?last - i)) = f (rev xs ! i)" by (simp add: rev_nth)
  qed
  also have "\<dots> = length (takeWhile f (take ?m (rev xs)))"
    using False by (intro first_failure_takeWhile) (cases xs; simp)
  also have "\<dots> = unwrap_or (position (\<lambda>x. \<not> f x) (take ?m (rev xs))) ?m"
    using False by (intro position_take_unwrap_or [symmetric]) (cases xs; simp)
  also have "take ?m (rev xs) = rev (drop (?last - min ?last DEFAULT_SMALL_LIMIT) xs)"
    by (rule rev_drop_last [OF False, symmetric])
  finally show ?thesis
    using assms False
    by (simp add: retreat_erased_def retreat_def retreat_raw_def slice_ptr_new_def get_unchecked_def
        Let_def)
qed

interpretation adv: prefix_search advance
  by unfold_locales (simp add: advance_def advance_raw_count)

interpretation ret: prefix_search "\<lambda>xs. retreat (rev xs)"
  by unfold_locales (simp add: retreat_def retreat_raw_count)

interpretation dyn_adv: prefix_search "dyn_advance (Suc sz)"
  by unfold_locales (simp add: dyn_advance_def advance_erased_eq_advance adv.search_count)

interpretation dyn_ret: prefix_search "\<lambda>xs. dyn_retreat (Suc sz) (rev xs)"
  by unfold_locales (simp add: dyn_retreat_def retreat_erased_eq_retreat ret.search_count)

section \<open>Properties\<close>

text \<open>
  C21: on a slice whose satisfying elements form a prefix, the exponential search of \<open>advance\<close> returns
  the length of that prefix for every value of the small limit, and the type-erased version returns
  the same for every element type of nonzero size.
\<close>

theorem advance_finds_boundary:
  assumes "prefix_closed f xs" "0 < sz"
  shows "advance_raw limit xs f = length (takeWhile f xs) \<and>
    advance xs f = length (takeWhile f xs) \<and> dyn_advance sz xs f = length (takeWhile f xs)"
  using assms by (simp add: advance_raw_count adv.search_count dyn_advance_def advance_erased_eq_advance)

theorem advance_finds_boundary_witness:
  "advance_raw 2 [1, 2, 3, 5, 8 :: nat] (\<lambda>x. x < 4) = 3 \<and> advance [1, 2, 3, 5, 8 :: nat] (\<lambda>x. x < 4) = 3 \<and>
    dyn_advance 8 [1, 2, 3, 5, 8 :: nat] (\<lambda>x. x < 4) = 3"
proof -
  have "prefix_closed (\<lambda>x. x < 4) [1, 2, 3, 5, 8 :: nat]" by (rule prefix_closed_sorted_less) simp
  from advance_finds_boundary [OF this, of 8 2] show ?thesis by simp
qed

text \<open>
  \<open>retreat\<close> is the mirror image: it returns how many elements at the end of the slice satisfy the
  predicate when those form a suffix, typed and type-erased alike.
\<close>

theorem retreat_finds_boundary:
  assumes "prefix_closed f (rev xs)" "0 < sz"
  shows "retreat_raw limit xs f = length (takeWhile f (rev xs)) \<and>
    retreat xs f = length (takeWhile f (rev xs)) \<and> dyn_retreat sz xs f = length (takeWhile f (rev xs))"
  using assms ret.search_count [of f "rev xs"]
  by (simp add: retreat_raw_count dyn_retreat_def retreat_erased_eq_retreat)

theorem retreat_finds_boundary_witness:
  "retreat_raw 1 [9, 8, 3, 2, 1 :: nat] (\<lambda>x. x < 4) = 3 \<and> retreat [9, 8, 3, 2, 1 :: nat] (\<lambda>x. x < 4) = 3 \<and>
    dyn_retreat 8 [9, 8, 3, 2, 1 :: nat] (\<lambda>x. x < 4) = 3"
proof -
  have "prefix_closed (\<lambda>x. x < 4) (rev [9, 8, 3, 2, 1 :: nat])"
    by (rule prefix_closed_sorted_less) simp
  from retreat_finds_boundary [OF this, of 8 1] show ?thesis by simp
qed

end
