(* ===== verification/Paired_Sorts.thy ===== *)
theory Paired_Sorts
  imports Prelude
begin

text \<open>
  The simple sorts of \<open>crates/dbsp/src/utils/consolidation/quicksort.rs\<close>: \<open>shift_head\<close>, \<open>shift_tail\<close>,
  \<open>insertion_sort\<close>, \<open>partial_insertion_sort\<close> and \<open>heapsort\<close>. The source works on a slice \<open>v\<close> of keys and
  a slice \<open>v2\<close> of payloads of the same length, and does every move on \<open>v\<close> again on \<open>v2\<close> at the same
  indices. Here both are one list of pairs, so one move stands for the two of the source. The
  comparison closure is the one that \<open>quicksort\<close> passes, \<open>k1 < k2\<close> on the keys.
\<close>

section \<open>Definitions\<close>

abbreviation is_less :: "('k::linorder) \<times> 'r \<Rightarrow> 'k \<times> 'r \<Rightarrow> bool" where
  "is_less x y \<equiv> fst x < fst y"

abbreviation key_sorted :: "(('k::linorder) \<times> 'r) list \<Rightarrow> bool" where
  "key_sorted v \<equiv> sorted (map fst v)"

definition swap_at :: "nat \<Rightarrow> nat \<Rightarrow> 'a list \<Rightarrow> 'a list" where
  "swap_at i j v = v[i := v ! j, j := v ! i]"

lemma length_swap_at [simp]: "length (swap_at i j v) = length v"
  by (simp add: swap_at_def)

text \<open>
  The loops of \<open>shift_tail\<close> and \<open>shift_head\<close> move the hole; \<open>hole\<close> is the destination that
  \<open>CopyOnDrop\<close> fills with \<open>tmp\<close> when it goes out of scope.
\<close>

fun shift_tail_loop :: "('k::linorder) \<times> 'r \<Rightarrow> nat \<Rightarrow> ('k \<times> 'r) list \<Rightarrow> ('k \<times> 'r) list" where
  "shift_tail_loop tmp 0 v = v[0 := tmp]"
| "shift_tail_loop tmp (Suc i) v =
     (if \<not> is_less tmp (v ! i) then v[Suc i := tmp]
      else shift_tail_loop tmp i (v[Suc i := v ! i]))"

definition shift_tail :: "(('k::linorder) \<times> 'r) list \<Rightarrow> ('k \<times> 'r) list" where
  "shift_tail v =
     (let len = length v
      in if len \<ge> 2 \<and> is_less (v ! (len - 1)) (v ! (len - 2))
         then (let tmp = v ! (len - 1)
               in shift_tail_loop tmp (len - 2) (v[len - 1 := v ! (len - 2)]))
         else v)"

function shift_head_loop :: "('k::linorder) \<times> 'r \<Rightarrow> nat \<Rightarrow> ('k \<times> 'r) list \<Rightarrow> ('k \<times> 'r) list" where
  "shift_head_loop tmp i v =
     (if i < length v \<and> is_less (v ! i) tmp
      then shift_head_loop tmp (i + 1) (v[i - 1 := v ! i])
      else v[i - 1 := tmp])"
  by pat_completeness auto
termination
  by (relation "measure (\<lambda>(tmp, i, v). length v - i)") auto

declare shift_head_loop.simps [simp del]

definition shift_head :: "(('k::linorder) \<times> 'r) list \<Rightarrow> ('k \<times> 'r) list" where
  "shift_head v =
     (let len = length v
      in if len \<ge> 2 \<and> is_less (v ! 1) (v ! 0)
         then (let tmp = v ! 0 in shift_head_loop tmp 2 (v[0 := v ! 1]))
         else v)"

text \<open>\<open>for i in lo..hi\<close> over a function of the index and the slice.\<close>

fun insertion_sort_loop :: "nat list \<Rightarrow> (('k::linorder) \<times> 'r) list \<Rightarrow> ('k \<times> 'r) list" where
  "insertion_sort_loop [] v = v"
| "insertion_sort_loop (i # is) v =
     insertion_sort_loop is (shift_tail (take (i + 1) v) @ drop (i + 1) v)"

definition insertion_sort :: "(('k::linorder) \<times> 'r) list \<Rightarrow> ('k \<times> 'r) list" where
  "insertion_sort v = insertion_sort_loop [1..<length v] v"

definition MAX_STEPS :: nat where
  "MAX_STEPS = 5"

definition SHORTEST_SHIFTING :: nat where
  "SHORTEST_SHIFTING = 50"

function next_descent :: "nat \<Rightarrow> (('k::linorder) \<times> 'r) list \<Rightarrow> nat" where
  "next_descent i v =
     (if i < length v \<and> \<not> is_less (v ! i) (v ! (i - 1)) then next_descent (i + 1) v else i)"
  by pat_completeness auto
termination
  by (relation "measure (\<lambda>(i, v). length v - i)") auto

declare next_descent.simps [simp del]

fun partial_insertion_loop ::
  "nat \<Rightarrow> nat \<Rightarrow> (('k::linorder) \<times> 'r) list \<Rightarrow> ('k \<times> 'r) list \<times> bool" where
  "partial_insertion_loop 0 i v = (v, False)"
| "partial_insertion_loop (Suc steps) i v =
     (let len = length v; i = next_descent i v
      in if i = len then (v, True)
         else if len < SHORTEST_SHIFTING then (v, False)
         else (let v = swap_at (i - 1) i v;
                   v = shift_tail (take i v) @ drop i v;
                   v = take i v @ shift_head (drop i v)
               in partial_insertion_loop steps i v))"

definition partial_insertion_sort ::
  "(('k::linorder) \<times> 'r) list \<Rightarrow> ('k \<times> 'r) list \<times> bool" where
  "partial_insertion_sort v = partial_insertion_loop MAX_STEPS 1 v"

text \<open>The closure \<open>sift_down\<close> of \<open>heapsort\<close>.\<close>

function heapsort_sift_down :: "(('k::linorder) \<times> 'r) list \<Rightarrow> nat \<Rightarrow> ('k \<times> 'r) list" where
  "heapsort_sift_down v node =
     (let child = 2 * node + 1
      in if child \<ge> length v then v
         else (let child = (if child + 1 < length v \<and> is_less (v ! child) (v ! (child + 1))
                            then child + 1 else child)
               in if \<not> is_less (v ! node) (v ! child) then v
                  else heapsort_sift_down (swap_at node child v) child))"
  by pat_completeness auto
termination
  by (relation "measure (\<lambda>(v, node). length v - node)")
    (auto simp: Let_def split: if_splits)

definition heapsort_build :: "(('k::linorder) \<times> 'r) list \<Rightarrow> ('k \<times> 'r) list" where
  "heapsort_build v = fold (\<lambda>i v. heapsort_sift_down v i) (rev [0..<length v div 2]) v"

definition heapsort_pop :: "nat \<Rightarrow> (('k::linorder) \<times> 'r) list \<Rightarrow> ('k \<times> 'r) list" where
  "heapsort_pop i v =
     (let v = swap_at 0 i v in heapsort_sift_down (take i v) 0 @ drop i v)"

definition heapsort :: "(('k::linorder) \<times> 'r) list \<Rightarrow> ('k \<times> 'r) list" where
  "heapsort v = fold heapsort_pop (rev [1..<length v]) (heapsort_build v)"

declare heapsort_sift_down.simps [simp del]

section \<open>Swaps\<close>

lemma mset_swap_at: "i < length v \<Longrightarrow> j < length v \<Longrightarrow> mset (swap_at i j v) = mset v"
  by (simp add: swap_at_def mset_swap)

lemma nth_swap_at [slice_simps]:
  "i < length v \<Longrightarrow> j < length v \<Longrightarrow> p < length v \<Longrightarrow>
    swap_at i j v ! p = (if p = i then v ! j else if p = j then v ! i else v ! p)"
  by (auto simp: swap_at_def nth_list_update)

section \<open>Shifting one element into a sorted slice\<close>

lemma shift_tail_loop_append:
  "shift_tail_loop tmp (length pre) (pre @ h # post) =
     rev (dropWhile (is_less tmp) (rev pre)) @ tmp # rev (takeWhile (is_less tmp) (rev pre)) @ post"
proof (induction pre arbitrary: h post rule: rev_induct)
  case (snoc x pre)
  show ?case
  proof (cases "is_less tmp x")
    case True
    then have "shift_tail_loop tmp (length (pre @ [x])) ((pre @ [x]) @ h # post)
        = shift_tail_loop tmp (length pre) (pre @ x # x # post)"
      by (simp add: nth_append list_update_append)
    with True snoc.IH [of x "x # post"] show ?thesis by simp
  qed (simp add: nth_append list_update_append)
qed simp

lemma shift_tail_snoc:
  "shift_tail (xs @ [t]) =
     rev (dropWhile (is_less t) (rev xs)) @ t # rev (takeWhile (is_less t) (rev xs))"
proof (cases xs rule: rev_exhaust)
  case Nil
  then show ?thesis by (simp add: shift_tail_def)
next
  case (snoc ys y)
  have upd: "(ys @ [y, t])[Suc (length ys) := y] = ys @ y # [y]"
    by (simp add: list_update_append)
  show ?thesis
    using shift_tail_loop_append [of t ys y "[y]"] snoc upd
    by (simp add: shift_tail_def Let_def nth_append)
qed

lemma mset_shift_tail [simp]: "mset (shift_tail v) = mset v"
proof (cases v rule: rev_exhaust)
  case (snoc xs t)
  have "mset (rev (dropWhile P (rev xs))) + mset (rev (takeWhile P (rev xs))) = mset xs" for P
    by (metis mset_append mset_rev takeWhile_dropWhile_id union_commute)
  with snoc show ?thesis by (simp add: shift_tail_snoc)
qed (simp add: shift_tail_def)

lemma length_shift_tail [simp]: "length (shift_tail v) = length v"
  by (metis mset_shift_tail size_mset)

lemma key_sorted_shift_tail:
  assumes "key_sorted xs"
  shows "key_sorted (shift_tail (xs @ [t]))"
proof -
  let ?front = "rev (dropWhile (is_less t) (rev xs))"
  let ?rest = "rev (takeWhile (is_less t) (rev xs))"
  have xs: "xs = ?front @ ?rest"
    by (metis rev_append rev_rev_ident takeWhile_dropWhile_id)
  have s: "sorted (map fst ?front)" "sorted (map fst ?rest)"
    using assms by (subst (asm) xs, simp add: sorted_append del: rev_append)+
  have behind: "fst t < fst x" if "x \<in> set ?rest" for x
    using that set_takeWhileD by fastforce
  have front: "fst x \<le> fst t" if "x \<in> set ?front" for x
  proof -
    obtain f where f: "dropWhile (is_less t) (rev xs) = f" by blast
    have xf: "x \<in> set f" using that f by simp
    then obtain y ys where y: "f = y # ys" by (cases f) auto
    with f have ny: "\<not> is_less t y" by (metis dropWhile_eq_Cons_conv)
    from s(1) f y have "\<forall>z \<in> set ys. fst z \<le> fst y"
      by (simp add: sorted_append)
    with xf y ny show ?thesis by fastforce
  qed
  show ?thesis
    unfolding shift_tail_snoc using s behind front
    by (auto simp: sorted_append less_imp_le) (meson less_imp_le order_trans)
qed

lemma shift_head_loop_append:
  "shift_head_loop tmp (Suc (length pre)) (pre @ h # post) =
     pre @ takeWhile (\<lambda>x. is_less x tmp) post @ tmp # dropWhile (\<lambda>x. is_less x tmp) post"
proof (induction post arbitrary: pre h)
  case Nil
  show ?case by (subst shift_head_loop.simps) simp
next
  case (Cons x post)
  show ?case
  proof (cases "is_less x tmp")
    case True
    then have "shift_head_loop tmp (Suc (length pre)) (pre @ h # x # post)
        = shift_head_loop tmp (Suc (length (pre @ [x]))) ((pre @ [x]) @ x # post)"
      by (subst shift_head_loop.simps) (simp add: nth_append list_update_append)
    with True Cons.IH [of "pre @ [x]" x] show ?thesis by simp
  next
    case False
    then show ?thesis
      by (subst shift_head_loop.simps) (simp add: nth_append list_update_append)
  qed
qed

lemma shift_head_Cons:
  "shift_head (t # xs) =
     takeWhile (\<lambda>x. is_less x t) xs @ t # dropWhile (\<lambda>x. is_less x t) xs"
proof (cases xs)
  case (Cons y ys)
  then show ?thesis
    using shift_head_loop_append [of t "[y]" y ys]
    by (simp add: shift_head_def numeral_2_eq_2)
qed (simp add: shift_head_def)

lemma mset_shift_head [simp]: "mset (shift_head v) = mset v"
proof (cases v)
  case (Cons t xs)
  have "mset (takeWhile P xs) + mset (dropWhile P xs) = mset xs" for P
    by (metis mset_append takeWhile_dropWhile_id)
  with Cons show ?thesis by (simp add: shift_head_Cons)
qed (simp add: shift_head_def)

lemma length_shift_head [simp]: "length (shift_head v) = length v"
  by (metis mset_shift_head size_mset)

section \<open>Insertion sort\<close>

lemma key_sorted_shift_tail_take:
  assumes "key_sorted (take i v)" "i < length v"
  shows "key_sorted (shift_tail (take (Suc i) v))"
  using assms key_sorted_shift_tail [of "take i v" "v ! i"] by (simp add: take_Suc_conv_app_nth)

lemma mset_append_take_drop [simp]: "mset (take i v) + mset (drop i v) = mset v"
  by (metis append_take_drop_id mset_append)

lemma insertion_sort_loop_sorts:
  "key_sorted (take i v) \<Longrightarrow> i \<le> length v \<Longrightarrow> w = insertion_sort_loop [i..<length v] v \<Longrightarrow>
    key_sorted w \<and> mset w = mset v"
proof (induction "length v - i" arbitrary: i v)
  case 0
  then show ?case by simp
next
  case (Suc n)
  let ?v = "shift_tail (take (Suc i) v) @ drop (Suc i) v"
  have i: "i < length v" and n: "n = length v - Suc i" using Suc.hyps(2) by linarith+
  have len: "length ?v = length v" using i by simp
  have "key_sorted (take (Suc i) ?v)"
    using key_sorted_shift_tail_take [OF Suc.prems(1) i] i by simp
  moreover have "w = insertion_sort_loop [Suc i..<length ?v] ?v"
    using Suc.prems(3) i len by (simp add: upt_conv_Cons)
  moreover have "mset ?v = mset v" by simp
  ultimately show ?case
    using Suc.hyps(1) [of ?v "Suc i"] n i len by simp
qed

lemma insertion_sort_sorts: "key_sorted (insertion_sort v)" "mset (insertion_sort v) = mset v"
proof -
  consider "length v \<le> 1" | "1 \<le> length v" by linarith
  then have "key_sorted (insertion_sort v) \<and> mset (insertion_sort v) = mset v"
  proof cases
    case 1
    then show ?thesis by (cases v) (auto simp: insertion_sort_def)
  next
    case 2
    then have "key_sorted (take 1 v)" by (cases v) auto
    with 2 show ?thesis
      unfolding insertion_sort_def using insertion_sort_loop_sorts [of 1 v] by simp
  qed
  then show "key_sorted (insertion_sort v)" "mset (insertion_sort v) = mset v" by auto
qed

section \<open>Partial insertion sort\<close>

lemma key_sorted_take_Suc:
  assumes "key_sorted (take i v)" "1 \<le> i" "i < length v" "\<not> is_less (v ! i) (v ! (i - 1))"
  shows "key_sorted (take (Suc i) v)"
proof -
  have "take i v = take (i - 1) v @ [v ! (i - 1)]"
    using assms(2,3) take_Suc_conv_app_nth [of "i - 1" v] by simp
  with assms show ?thesis
    by (fastforce simp: take_Suc_conv_app_nth sorted_append)
qed

lemma next_descent_spec:
  assumes "1 \<le> i" "i \<le> length v" "key_sorted (take i v)"
  shows "i \<le> next_descent i v \<and> next_descent i v \<le> length v \<and> key_sorted (take (next_descent i v) v)"
  using assms
proof (induction i v rule: next_descent.induct)
  case (1 i v)
  show ?case
  proof (cases "i < length v \<and> \<not> is_less (v ! i) (v ! (i - 1))")
    case True
    then have "key_sorted (take (i + 1) v)"
      using 1 by (simp add: key_sorted_take_Suc)
    with True 1 have "i + 1 \<le> next_descent (i + 1) v \<and> next_descent (i + 1) v \<le> length v \<and>
        key_sorted (take (next_descent (i + 1) v) v)" by simp
    with True show ?thesis by (subst (1 2 3) next_descent.simps) simp
  next
    case False
    then show ?thesis using 1 by (subst (1 2 3) next_descent.simps) auto
  qed
qed

lemma take_swap_at: "k \<le> i \<Longrightarrow> k \<le> j \<Longrightarrow> take k (swap_at i j v) = take k v"
  by (simp add: swap_at_def)

lemma drop_swap_at: "i < k \<Longrightarrow> j < k \<Longrightarrow> drop k (swap_at i j v) = drop k v"
  by (simp add: swap_at_def)

lemma partial_insertion_loop_spec:
  assumes "1 \<le> i" "i \<le> length v" "key_sorted (take i v)"
    "partial_insertion_loop steps i v = (w, fin)"
  shows "mset w = mset v \<and> (fin \<longrightarrow> key_sorted w)"
  using assms
proof (induction steps arbitrary: i v)
  case (Suc steps)
  define k where "k = next_descent i v"
  have k: "i \<le> k" "k \<le> length v" "key_sorted (take k v)"
    using next_descent_spec [OF Suc.prems(1-3)] by (simp_all add: k_def)
  consider "k = length v" | "k < length v" "length v < SHORTEST_SHIFTING"
    | "k < length v" "\<not> length v < SHORTEST_SHIFTING" using k(2) by linarith
  then show ?case
  proof cases
    case 1
    with Suc.prems(4) k(3) show ?thesis by (simp add: k_def [symmetric] Let_def)
  next
    case 2
    with Suc.prems(4) show ?thesis by (simp add: k_def [symmetric] Let_def)
  next
    case 3
    define u where "u = swap_at (k - 1) k v"
    define x where "x = shift_tail (take k u) @ drop k u"
    define y where "y = take k x @ shift_head (drop k x)"
    have len: "length u = length v" "length x = length v" "length y = length v"
      using 3 by (simp_all add: u_def x_def y_def)
    have "key_sorted (take (k - 1) u)"
      using k(3) by (simp add: u_def take_swap_at)
        (metis diff_le_self min.absorb1 sorted_wrt_take take_map take_take)
    then have "key_sorted (shift_tail (take k u))"
      using key_sorted_shift_tail_take [of "k - 1" u] Suc.prems(1) k(1) 3(1) len by simp
    then have y1: "key_sorted (take k y)"
      using 3(1) len by (simp add: y_def x_def)
    have y2: "mset y = mset v"
      using 3(1) by (simp add: y_def x_def u_def mset_swap_at)
    have y3: "partial_insertion_loop steps k y = (w, fin)"
      using Suc.prems(4) 3 by (simp add: k_def [symmetric] Let_def u_def x_def y_def)
    show ?thesis
      using Suc.IH [OF _ _ y1 y3] Suc.prems(1) k len y2 by simp
  qed
qed simp

lemma partial_insertion_sort_spec:
  assumes "partial_insertion_sort v = (w, fin)"
  shows "mset w = mset v" "fin \<Longrightarrow> key_sorted w"
proof -
  have "mset w = mset v \<and> (fin \<longrightarrow> key_sorted w)"
  proof (cases v)
    case Nil
    have "next_descent 1 ([] :: ('a \<times> 'b) list) = 1" by (subst next_descent.simps) simp
    with Nil assms show ?thesis
      by (auto simp: partial_insertion_sort_def MAX_STEPS_def eval_nat_numeral SHORTEST_SHIFTING_def)
  next
    case (Cons x xs)
    then show ?thesis
      using partial_insertion_loop_spec [of 1 v MAX_STEPS w fin] assms
      by (simp add: partial_insertion_sort_def)
  qed
  then show "mset w = mset v" "fin \<Longrightarrow> key_sorted w" by auto
qed

section \<open>Heapsort\<close>

text \<open>
  \<open>heap_from v k\<close>: every node from \<open>k\<close> on has a key at least as large as its children's.
  \<open>heap_except\<close> allows one violation, at the node being sifted, whose children already are
  below its parent.
\<close>

definition child_of :: "nat \<Rightarrow> nat \<Rightarrow> bool" where
  "child_of j i \<longleftrightarrow> j = 2 * i + 1 \<or> j = 2 * i + 2"

definition heap_from :: "(('k::linorder) \<times> 'r) list \<Rightarrow> nat \<Rightarrow> bool" where
  "heap_from v k \<longleftrightarrow> (\<forall>i j. k \<le> i \<longrightarrow> child_of j i \<longrightarrow> j < length v \<longrightarrow> fst (v ! j) \<le> fst (v ! i))"

definition heap_except :: "(('k::linorder) \<times> 'r) list \<Rightarrow> nat \<Rightarrow> nat \<Rightarrow> bool" where
  "heap_except v k n \<longleftrightarrow>
     (\<forall>i j. k \<le> i \<longrightarrow> i \<noteq> n \<longrightarrow> child_of j i \<longrightarrow> j < length v \<longrightarrow> fst (v ! j) \<le> fst (v ! i)) \<and>
     (\<forall>p j. k \<le> p \<longrightarrow> child_of n p \<longrightarrow> child_of j n \<longrightarrow> j < length v \<longrightarrow> fst (v ! j) \<le> fst (v ! p))"

definition greater_child :: "(('k::linorder) \<times> 'r) list \<Rightarrow> nat \<Rightarrow> nat" where
  "greater_child v n =
     (if 2 * n + 2 < length v \<and> is_less (v ! (2 * n + 1)) (v ! (2 * n + 2))
      then 2 * n + 2 else 2 * n + 1)"

lemma heapsort_sift_down_unfold:
  "heapsort_sift_down v n =
     (if 2 * n + 1 \<ge> length v \<or> \<not> is_less (v ! n) (v ! greater_child v n) then v
      else heapsort_sift_down (swap_at n (greater_child v n) v) (greater_child v n))"
  by (subst heapsort_sift_down.simps) (simp add: Let_def greater_child_def)

lemma greater_child_spec:
  assumes "2 * n + 1 < length v"
  shows "greater_child v n < length v" "child_of (greater_child v n) n"
    "child_of j n \<Longrightarrow> j < length v \<Longrightarrow> fst (v ! j) \<le> fst (v ! greater_child v n)"
  using assms by (auto simp: greater_child_def child_of_def not_less split: if_splits)

lemma heap_except_done:
  assumes "heap_except v k n" "2 * n + 1 \<ge> length v \<or> \<not> is_less (v ! n) (v ! greater_child v n)"
  shows "heap_from v k"
  unfolding heap_from_def
proof (intro allI impI)
  fix i j assume ij: "k \<le> i" "child_of j i" "j < length v"
  show "fst (v ! j) \<le> fst (v ! i)"
  proof (cases "i = n")
    case True
    then have "2 * n + 1 < length v" using ij by (auto simp: child_of_def)
    with assms(2) greater_child_spec(3) [of n v j] ij True show ?thesis by force
  next
    case False
    with assms(1) ij show ?thesis by (simp add: heap_except_def)
  qed
qed

lemma child_of_gt: "child_of j i \<Longrightarrow> i < j"
  by (auto simp: child_of_def)

lemma child_of_unique: "child_of j i \<Longrightarrow> child_of j i' \<Longrightarrow> i = i'"
  unfolding child_of_def by presburger

lemma heap_except_swap:
  assumes he: "heap_except v k n" and n: "2 * n + 1 < length v" "k \<le> n"
    and lt: "is_less (v ! n) (v ! c)" and c: "c = greater_child v n"
  shows "heap_except (swap_at n c v) k c"
proof -
  have cl: "c < length v" and cn: "child_of c n"
    and cmax: "\<And>j. child_of j n \<Longrightarrow> j < length v \<Longrightarrow> fst (v ! j) \<le> fst (v ! c)"
    using greater_child_spec [OF n(1)] c by simp_all
  have nl: "n < length v" and nc: "n < c" using n(1) child_of_gt [OF cn] by simp_all
  note nth = nth_swap_at [OF nl cl]
  have one: "fst (swap_at n c v ! j) \<le> fst (swap_at n c v ! i)"
    if "k \<le> i" "i \<noteq> c" "child_of j i" "j < length v" for i j
  proof (cases "i = n")
    case True
    with that cmax [of j] lt child_of_gt [of j n] nl show ?thesis by (auto simp: nth)
  next
    case False
    have "i < length v" using that child_of_gt [of j i] by simp
    moreover have "j \<noteq> c" using False that(3) cn child_of_unique by blast
    ultimately show ?thesis
      using that False he cn cl by (auto simp: nth heap_except_def)
  qed
  have two: "fst (swap_at n c v ! j) \<le> fst (swap_at n c v ! p)"
    if "k \<le> p" "child_of c p" "child_of j c" "j < length v" for p j
  proof -
    have "p = n" using that(2) cn child_of_unique by blast
    moreover have "c < j" using that(3) by (rule child_of_gt)
    moreover have "fst (v ! j) \<le> fst (v ! c)"
      using he that n(2) nc by (simp add: heap_except_def)
    ultimately show ?thesis using nc nl that(4) by (simp add: nth)
  qed
  from one two show ?thesis by (simp add: heap_except_def)
qed

lemma mset_heapsort_sift_down [simp]: "mset (heapsort_sift_down v n) = mset v"
proof (induction "length v - n" arbitrary: v n rule: less_induct)
  case less
  show ?case
  proof (cases "2 * n + 1 \<ge> length v \<or> \<not> is_less (v ! n) (v ! greater_child v n)")
    case False
    then have n: "2 * n + 1 < length v" by simp
    note g = greater_child_spec(1,2) [OF n]
    have "mset (heapsort_sift_down (swap_at n (greater_child v n) v) (greater_child v n)) = mset v"
      using less [of "swap_at n (greater_child v n) v" "greater_child v n"] g child_of_gt [OF g(2)]
      by (simp add: mset_swap_at)
    with False show ?thesis by (subst heapsort_sift_down_unfold) simp
  qed (subst heapsort_sift_down_unfold, simp)
qed

lemma length_heapsort_sift_down [simp]: "length (heapsort_sift_down v n) = length v"
  by (metis mset_heapsort_sift_down size_mset)

lemma heap_from_sift_down:
  assumes "heap_except v k n" "k \<le> n"
  shows "heap_from (heapsort_sift_down v n) k"
  using assms
proof (induction "length v - n" arbitrary: v n rule: less_induct)
  case less
  show ?case
  proof (cases "2 * n + 1 \<ge> length v \<or> \<not> is_less (v ! n) (v ! greater_child v n)")
    case True
    with less.prems show ?thesis
      by (subst heapsort_sift_down_unfold) (simp add: heap_except_done)
  next
    case False
    then have n: "2 * n + 1 < length v" by simp
    note g = greater_child_spec(1,2) [OF n]
    let ?v = "swap_at n (greater_child v n) v"
    have "heap_except ?v k (greater_child v n)"
      using heap_except_swap [OF less.prems(1) n less.prems(2)] False by simp
    then have "heap_from (heapsort_sift_down ?v (greater_child v n)) k"
      using less g child_of_gt [OF g(2)] by simp
    with False show ?thesis by (subst heapsort_sift_down_unfold) simp
  qed
qed

lemma heapsort_build_step:
  assumes "heap_from v (Suc n)"
  shows "heap_from (heapsort_sift_down v n) n"
proof (rule heap_from_sift_down)
  show "heap_except v n n"
    using assms child_of_gt by (fastforce simp: heap_from_def heap_except_def)
qed simp

lemma heapsort_build_fold:
  "heap_from v n \<Longrightarrow>
    heap_from (fold (\<lambda>i v. heapsort_sift_down v i) (rev [0..<n]) v) 0 \<and>
    mset (fold (\<lambda>i v. heapsort_sift_down v i) (rev [0..<n]) v) = mset v"
  by (induction n arbitrary: v) (simp_all add: heapsort_build_step)

lemma heap_from_half: "heap_from v (length v div 2)"
  by (auto simp: heap_from_def child_of_def)

lemma heapsort_build_heap: "heap_from (heapsort_build v) 0" "mset (heapsort_build v) = mset v"
  using heapsort_build_fold [OF heap_from_half, of v] by (simp_all add: heapsort_build_def)

lemma heap_root_max:
  "heap_from v 0 \<Longrightarrow> i < length v \<Longrightarrow> fst (v ! i) \<le> fst (v ! 0)"
proof (induction i rule: less_induct)
  case (less i)
  show ?case
  proof (cases "i = 0")
    case False
    then have "child_of i ((i - 1) div 2)" "(i - 1) div 2 < i" by (auto simp: child_of_def)
    with less show ?thesis by (fastforce simp: heap_from_def)
  qed simp
qed

text \<open>The state between two pops: a heap on the first \<open>n\<close> elements, sorted above them.\<close>

definition heapsort_split :: "nat \<Rightarrow> (('k::linorder) \<times> 'r) list \<Rightarrow> bool" where
  "heapsort_split n v \<longleftrightarrow> heap_from (take n v) 0 \<and> key_sorted (drop n v) \<and>
     (\<forall>x \<in> set (take n v). \<forall>y \<in> set (drop n v). fst x \<le> fst y)"

lemma heapsort_pop_split:
  assumes hs: "heapsort_split (Suc n) v" and n: "n < length v"
  shows "heapsort_split n (heapsort_pop n v)" "mset (heapsort_pop n v) = mset v"
proof -
  define u where "u = swap_at 0 n v"
  have lu: "length u = length v" by (simp add: u_def)
  have l0: "0 < length v" using n by linarith
  have mset_u: "mset (take n u) + mset (drop n u) = mset v"
    using n mset_swap_at [of 0 v n] by (cases v) (simp_all add: u_def)
  show "mset (heapsort_pop n v) = mset v"
    using mset_u by (simp add: heapsort_pop_def u_def [symmetric] Let_def)
  have heap: "heap_from (take (Suc n) v) 0" using hs by (simp add: heapsort_split_def)
  have un: "u ! n = v ! 0" "\<And>p. 0 < p \<Longrightarrow> p < n \<Longrightarrow> u ! p = v ! p"
    using n by (auto simp: u_def nth_swap_at [OF l0])
  have "heap_except (take n u) 0 0"
    using heap n lu un(2) child_of_gt by (fastforce simp: heap_except_def heap_from_def child_of_def)
  then have h: "heap_from (heapsort_sift_down (take n u) 0) 0" by (rule heap_from_sift_down) simp
  have du: "drop n u = v ! 0 # drop (Suc n) v"
    using n lu un(1) by (simp add: Cons_nth_drop_Suc [symmetric]) (simp add: u_def drop_swap_at)
  have sub: "set (take n u) \<subseteq> set (take (Suc n) v)" and v0: "v ! 0 \<in> set (take (Suc n) v)"
  proof -
    have "take (Suc n) u = swap_at 0 n (take (Suc n) v)"
      using n by (simp add: u_def swap_at_def take_update_swap)
    then have "set (take (Suc n) u) = set (take (Suc n) v)"
      using n by (metis mset_swap_at set_mset_mset length_take min.absorb2 Suc_leI lessI zero_less_Suc)
    then show "set (take n u) \<subseteq> set (take (Suc n) v)"
      using set_take_subset_set_take [of n "Suc n" u] by simp
    show "v ! 0 \<in> set (take (Suc n) v)" using n by (cases v) auto
  qed
  have max: "fst x \<le> fst (v ! 0)" if "x \<in> set (take (Suc n) v)" for x
    using that heap_root_max [OF heap] by (auto simp: in_set_conv_nth)
  have low: "fst x \<le> fst y" if "x \<in> set (take (Suc n) v)" "y \<in> set (drop (Suc n) v)" for x y
    using hs that by (simp add: heapsort_split_def)
  have eq: "take n (heapsort_pop n v) = heapsort_sift_down (take n u) 0"
    "drop n (heapsort_pop n v) = drop n u"
    using n lu by (simp_all add: heapsort_pop_def u_def [symmetric] Let_def)
  have set_eq: "set (heapsort_sift_down (take n u) 0) = set (take n u)"
    by (metis mset_heapsort_sift_down set_mset_mset)
  have "key_sorted (drop n u)"
    using hs low [OF v0] by (simp add: du heapsort_split_def)
  moreover have "\<forall>x \<in> set (take n u). \<forall>y \<in> set (drop n u). fst x \<le> fst y"
    using sub max low by (auto simp: du)
  ultimately show "heapsort_split n (heapsort_pop n v)"
    using h by (simp add: heapsort_split_def eq set_eq)
qed

lemma heapsort_fold:
  "heapsort_split (Suc n) v \<Longrightarrow> n < length v \<Longrightarrow>
    heapsort_split 1 (fold heapsort_pop (rev [1..<Suc n]) v) \<and>
    mset (fold heapsort_pop (rev [1..<Suc n]) v) = mset v"
proof (induction n arbitrary: v)
  case (Suc n)
  have "length (heapsort_pop (Suc n) v) = length v"
    using heapsort_pop_split(2) [OF Suc.prems] by (metis size_mset)
  then show ?case
    using Suc.IH [OF heapsort_pop_split(1) [OF Suc.prems]] heapsort_pop_split(2) [OF Suc.prems]
      Suc.prems(2) by simp
qed simp

lemma heapsort_sorts: "key_sorted (heapsort v)" "mset (heapsort v) = mset v"
proof -
  have "key_sorted (heapsort v) \<and> mset (heapsort v) = mset v"
  proof (cases "length v")
    case 0
    then show ?thesis by (simp add: heapsort_def heapsort_build_def)
  next
    case (Suc n)
    have len: "length (heapsort_build v) = Suc n"
      using heapsort_build_heap(2) Suc by (metis size_mset)
    have "heapsort_split (Suc n) (heapsort_build v)"
      using heapsort_build_heap(1) [of v] len by (simp add: heapsort_split_def)
    with heapsort_fold [of n "heapsort_build v"] len Suc
    have *: "heapsort_split 1 (heapsort v)" "mset (heapsort v) = mset v"
      by (simp_all add: heapsort_def heapsort_build_heap(2))
    then have "key_sorted (take 1 (heapsort v) @ drop 1 (heapsort v))"
      unfolding map_append sorted_append
      by (cases "heapsort v") (auto simp: heapsort_split_def)
    with * show ?thesis by simp
  qed
  then show "key_sorted (heapsort v)" "mset (heapsort v) = mset v" by auto
qed

end
