(* ===== verification/Block_Partition.thy ===== *)
theory Block_Partition
  imports Paired_Sorts
begin

text \<open>
  \<open>partition_in_blocks\<close> of \<open>crates/dbsp/src/utils/consolidation/quicksort.rs\<close>: the branchless
  partition of a slice around a pivot key. Pointers into \<open>v\<close> are indices. The arrays
  \<open>offsets_l\<close> and \<open>offsets_r\<close> with their \<open>start\<close> and \<open>end\<close> pointers are the lists of the offsets
  between the two pointers; an offset is below \<open>BLOCK = 128\<close>, so its cast to \<open>u8\<close> is exact. The block
  sizes differ from \<open>BLOCK\<close> only in the last iteration, so they are computed per iteration.
\<close>

section \<open>Definitions\<close>

definition BLOCK :: nat where
  "BLOCK = 128"

record ('k, 'r) blocks =
  bk_v :: "('k \<times> 'r) list"
  bk_l :: nat
  bk_r :: nat
  bk_offsets_l :: "nat list"
  bk_offsets_r :: "nat list"

definition is_done :: "('k, 'r) blocks \<Rightarrow> bool" where
  "is_done b \<longleftrightarrow> bk_r b - bk_l b \<le> 2 * BLOCK"

definition block_sizes :: "('k, 'r) blocks \<Rightarrow> nat \<times> nat" where
  "block_sizes b =
     (if is_done b then
        (let width = bk_r b - bk_l b;
             rem = (if bk_offsets_l b \<noteq> [] \<or> bk_offsets_r b \<noteq> [] then width - BLOCK else width)
         in if bk_offsets_l b \<noteq> [] then (BLOCK, rem)
            else if bk_offsets_r b \<noteq> [] then (rem, BLOCK)
            else (rem div 2, rem - rem div 2))
      else (BLOCK, BLOCK))"

definition trace_left :: "'k \<Rightarrow> nat \<Rightarrow> (('k::linorder) \<times> 'r) list \<Rightarrow> nat \<Rightarrow> nat list" where
  "trace_left pivot block v l = filter (\<lambda>i. \<not> fst (v ! (l + i)) < pivot) [0..<block]"

definition trace_right :: "'k \<Rightarrow> nat \<Rightarrow> (('k::linorder) \<times> 'r) list \<Rightarrow> nat \<Rightarrow> nat list" where
  "trace_right pivot block v r = filter (\<lambda>i. fst (v ! (r - (i + 1))) < pivot) [0..<block]"

text \<open>
  The cyclic permutation over the positions \<open>left!()\<close> and \<open>right!()\<close> take. In \<open>cycle_rest\<close> the
  position \<open>r\<close> is the current \<open>right!()\<close>, whose element has been copied away, and \<open>tmp\<close> is
  the element read first.
\<close>

fun cycle_rest :: "'a \<Rightarrow> nat \<Rightarrow> nat list \<Rightarrow> nat list \<Rightarrow> 'a list \<Rightarrow> 'a list" where
  "cycle_rest tmp r (l' # ls) (r' # rs) v =
     (let v = v[r := v ! l']; v = v[l' := v ! r'] in cycle_rest tmp r' ls rs v)"
| "cycle_rest tmp r _ _ v = v[r := tmp]"

fun cycle_positions :: "nat list \<Rightarrow> nat list \<Rightarrow> 'a list \<Rightarrow> 'a list" where
  "cycle_positions (l # ls) (r # rs) v = cycle_rest (v ! l) r ls rs (v[l := v ! r])"
| "cycle_positions _ _ v = v"

definition blocks_step :: "'k \<Rightarrow> (('k::linorder), 'r) blocks \<Rightarrow> ('k, 'r) blocks" where
  "blocks_step pivot b =
     (let v = bk_v b; l = bk_l b; r = bk_r b;
          (block_l, block_r) = block_sizes b;
          offsets_l = (if bk_offsets_l b = [] then trace_left pivot block_l v l else bk_offsets_l b);
          offsets_r = (if bk_offsets_r b = [] then trace_right pivot block_r v r else bk_offsets_r b);
          count = min (length offsets_l) (length offsets_r);
          v = (if count > 0
               then cycle_positions (map (\<lambda>i. l + i) (take count offsets_l))
                      (map (\<lambda>i. r - (i + 1)) (take count offsets_r)) v
               else v);
          offsets_l = drop count offsets_l;
          offsets_r = drop count offsets_r
      in \<lparr> bk_v = v,
           bk_l = (if offsets_l = [] then l + block_l else l),
           bk_r = (if offsets_r = [] then r - block_r else r),
           bk_offsets_l = offsets_l, bk_offsets_r = offsets_r \<rparr>)"

lemma blocks_step_narrows:
  assumes "\<not> is_done b"
  shows "bk_r (blocks_step pivot b) - bk_l (blocks_step pivot b) < bk_r b - bk_l b"
  using assms by (auto simp: blocks_step_def block_sizes_def is_done_def BLOCK_def Let_def)

function blocks_loop :: "'k \<Rightarrow> (('k::linorder), 'r) blocks \<Rightarrow> ('k, 'r) blocks" where
  "blocks_loop pivot b =
     (if is_done b then blocks_step pivot b else blocks_loop pivot (blocks_step pivot b))"
  by pat_completeness auto
termination
  by (relation "measure (\<lambda>(pivot, b). bk_r b - bk_l b)") (auto simp: blocks_step_narrows)

declare blocks_loop.simps [simp del]

text \<open>
  The last loops take the offsets from the end of the array; the argument is the reversed list.
\<close>

fun drain_left :: "nat list \<Rightarrow> nat \<Rightarrow> nat \<Rightarrow> 'a list \<Rightarrow> 'a list \<times> nat" where
  "drain_left [] l r v = (v, r)"
| "drain_left (e # es) l r v = drain_left es l (r - 1) (swap_at (l + e) (r - 1) v)"

fun drain_right :: "nat list \<Rightarrow> nat \<Rightarrow> nat \<Rightarrow> 'a list \<Rightarrow> 'a list \<times> nat" where
  "drain_right [] l r v = (v, l)"
| "drain_right (e # es) l r v = drain_right es (l + 1) r (swap_at l (r - (e + 1)) v)"

definition partition_in_blocks ::
  "(('k::linorder) \<times> 'r) list \<Rightarrow> 'k \<Rightarrow> ('k \<times> 'r) list \<times> nat" where
  "partition_in_blocks v pivot =
     (let b = blocks_loop pivot \<lparr> bk_v = v, bk_l = 0, bk_r = length v,
                                  bk_offsets_l = [], bk_offsets_r = [] \<rparr>
      in if bk_offsets_l b \<noteq> [] then drain_left (rev (bk_offsets_l b)) (bk_l b) (bk_r b) (bk_v b)
         else if bk_offsets_r b \<noteq> [] then drain_right (rev (bk_offsets_r b)) (bk_l b) (bk_r b) (bk_v b)
         else (bk_v b, bk_l b))"

section \<open>The cyclic permutation\<close>

lemma mset_three_cycle:
  assumes "distinct [r, l, q]" "r < length v" "l < length v" "q < length v"
  shows "mset (v[r := v ! l, l := v ! q, q := t]) = mset (v[r := t])"
proof -
  have "v[r := v ! l, l := v ! q, q := t] = swap_at l q (swap_at r l (v[r := t]))"
    using assms by (auto intro!: nth_equalityI simp: nth_list_update nth_swap_at)
  then show ?thesis using assms by (simp add: mset_swap_at)
qed

lemma cycle_rest_spec:
  assumes "distinct (r # ls @ rs)" "\<forall>p \<in> set (r # ls @ rs). p < length v" "length ls = length rs"
    "\<not> P tmp" "\<forall>p \<in> set ls. \<not> P (v ! p)" "\<forall>p \<in> set rs. P (v ! p)"
    "w = cycle_rest tmp r ls rs v"
  shows "mset w = mset (v[r := tmp]) \<and> (\<forall>p. p \<notin> set (r # ls @ rs) \<longrightarrow> w ! p = v ! p) \<and>
     (\<forall>p \<in> set ls. P (w ! p)) \<and> (\<forall>p \<in> set (r # rs). \<not> P (w ! p))"
  using assms
proof (induction tmp r ls rs v rule: cycle_rest.induct)
  case (1 tmp r l' ls r' rs v)
  let ?u = "v[r := v ! l']"
  let ?v = "?u[l' := ?u ! r']"
  have step: "w = cycle_rest tmp r' ls rs ?v" using "1.prems" by (simp add: Let_def)
  have v: "?v = v[r := v ! l', l' := v ! r']" using "1.prems" by simp
  have "mset w = mset (?v[r' := tmp]) \<and> (\<forall>p. p \<notin> set (r' # ls @ rs) \<longrightarrow> w ! p = ?v ! p) \<and>
     (\<forall>p \<in> set ls. P (w ! p)) \<and> (\<forall>p \<in> set (r' # rs). \<not> P (w ! p))"
  proof (rule "1.IH" [OF refl refl _ _ _ _ _ _ step])
    show "\<forall>p \<in> set ls. \<not> P (?v ! p)" "\<forall>p \<in> set rs. P (?v ! p)"
      using "1.prems" by (auto simp: nth_list_update)
  qed (use "1.prems" in auto)
  moreover have "mset (?v[r' := tmp]) = mset (v[r := tmp])"
    using "1.prems" by (subst v, intro mset_three_cycle) auto
  moreover have "w ! r = v ! l'" "w ! l' = v ! r'"
    using calculation(1) "1.prems" by (auto simp: nth_list_update)
  ultimately show ?case using "1.prems" by (auto simp: nth_list_update)
qed (auto simp: nth_list_update)

lemma cycle_positions_spec:
  assumes "distinct (ls @ rs)" "\<forall>p \<in> set (ls @ rs). p < length v" "length ls = length rs"
    "\<forall>p \<in> set ls. \<not> P (v ! p)" "\<forall>p \<in> set rs. P (v ! p)"
    "w = cycle_positions ls rs v"
  shows "mset w = mset v" "\<And>p. p \<notin> set (ls @ rs) \<Longrightarrow> w ! p = v ! p"
    "\<And>p. p \<in> set ls \<Longrightarrow> P (w ! p)" "\<And>p. p \<in> set rs \<Longrightarrow> \<not> P (w ! p)"
proof -
  have "mset w = mset v \<and> (\<forall>p. p \<notin> set (ls @ rs) \<longrightarrow> w ! p = v ! p) \<and>
     (\<forall>p \<in> set ls. P (w ! p)) \<and> (\<forall>p \<in> set rs. \<not> P (w ! p))"
  proof (cases ls)
    case (Cons l ls')
    then obtain r rs' where rs: "rs = r # rs'" using assms(3) by (cases rs) auto
    let ?v = "v[l := v ! r]"
    have "w = cycle_rest (v ! l) r ls' rs' ?v" using assms(6) Cons rs by simp
    then have "mset w = mset (?v[r := v ! l]) \<and>
       (\<forall>p. p \<notin> set (r # ls' @ rs') \<longrightarrow> w ! p = ?v ! p) \<and>
       (\<forall>p \<in> set ls'. P (w ! p)) \<and> (\<forall>p \<in> set (r # rs'). \<not> P (w ! p))"
      by (intro cycle_rest_spec) (use assms(1-5) Cons rs in \<open>auto simp: nth_list_update\<close>)
    moreover have "mset (?v[r := v ! l]) = mset v"
      using assms(1,2) Cons rs mset_swap_at [of l v r] by (auto simp: swap_at_def)
    ultimately show ?thesis using assms(1-5) Cons rs by (auto simp: nth_list_update)
  qed (use assms in auto)
  then show "mset w = mset v" "\<And>p. p \<notin> set (ls @ rs) \<Longrightarrow> w ! p = v ! p"
    "\<And>p. p \<in> set ls \<Longrightarrow> P (w ! p)" "\<And>p. p \<in> set rs \<Longrightarrow> \<not> P (w ! p)"
    by auto
qed

section \<open>The offsets of a block\<close>

definition left_offsets :: "'k \<Rightarrow> (('k::linorder) \<times> 'r) list \<Rightarrow> nat \<Rightarrow> nat \<Rightarrow> nat list \<Rightarrow> bool" where
  "left_offsets pivot v l block offs \<longleftrightarrow>
     sorted_wrt (<) offs \<and> set offs = {i. i < block \<and> \<not> fst (v ! (l + i)) < pivot}"

definition right_offsets :: "'k \<Rightarrow> (('k::linorder) \<times> 'r) list \<Rightarrow> nat \<Rightarrow> nat \<Rightarrow> nat list \<Rightarrow> bool" where
  "right_offsets pivot v r block offs \<longleftrightarrow>
     sorted_wrt (<) offs \<and> set offs = {i. i < block \<and> fst (v ! (r - (i + 1))) < pivot}"

lemma trace_left_offsets: "left_offsets pivot v l block (trace_left pivot block v l)"
  by (auto simp: left_offsets_def trace_left_def sorted_wrt_filter)

lemma trace_right_offsets: "right_offsets pivot v r block (trace_right pivot block v r)"
  by (auto simp: right_offsets_def trace_right_def sorted_wrt_filter)

lemma set_drop_distinct: "distinct xs \<Longrightarrow> set (drop n xs) = set xs - set (take n xs)"
  by (metis append_take_drop_id distinct_append inf_commute set_append Diff_cancel Un_Diff
      Diff_triv sup_bot_left)

lemma exchange_offsets:
  assumes L: "left_offsets pivot v l bl ol" and R: "right_offsets pivot v r br orr"
    and fit: "l + bl + br \<le> r" "r \<le> length v"
    and n: "n = min (length ol) (length orr)"
    and w: "w = cycle_positions (map (\<lambda>i. l + i) (take n ol)) (map (\<lambda>i. r - (i + 1)) (take n orr)) v"
  shows "mset w = mset v" "\<And>p. p < l \<or> r \<le> p \<Longrightarrow> w ! p = v ! p"
    "left_offsets pivot w l bl (drop n ol)" "right_offsets pivot w r br (drop n orr)"
proof -
  let ?P = "\<lambda>x. fst x < pivot"
  let ?ls = "map (\<lambda>i. l + i) (take n ol)" and ?rs = "map (\<lambda>i. r - (i + 1)) (take n orr)"
  have sl: "sorted_wrt (<) ol" "set ol = {i. i < bl \<and> \<not> ?P (v ! (l + i))}"
    and sr: "sorted_wrt (<) orr" "set orr = {i. i < br \<and> ?P (v ! (r - (i + 1)))}"
    using L R by (auto simp: left_offsets_def right_offsets_def)
  have dl: "distinct ol" and dr: "distinct orr"
    using sl(1) sr(1) strict_sorted_iff by auto
  have lset: "i < bl \<and> \<not> ?P (v ! (l + i))" if "i \<in> set (take n ol)" for i
    using that in_set_takeD [of i n ol] sl(2) by auto
  have rset: "i < br \<and> ?P (v ! (r - (i + 1)))" if "i \<in> set (take n orr)" for i
    using that in_set_takeD [of i n orr] sr(2) by auto
  have inj: "inj_on (\<lambda>i. r - (i + 1)) (set (take n orr))"
  proof (rule inj_onI)
    fix i j assume "i \<in> set (take n orr)" "j \<in> set (take n orr)" "r - (i + 1) = r - (j + 1)"
    with rset [of i] rset [of j] fit(1) show "i = j" by linarith
  qed
  have apart: "l + i \<noteq> r - (j + 1)" if "i < bl" "j < br" for i j
    using that fit(1) by linarith
  have "set ?ls \<inter> set ?rs = {}" using lset rset apart by auto
  then have dist: "distinct (?ls @ ?rs)"
    using dl dr inj by (simp add: distinct_map)
  have bound: "\<forall>p \<in> set (?ls @ ?rs). p < length v"
    using lset rset fit by fastforce
  have len: "length ?ls = length ?rs" using n by simp
  have PL: "\<forall>p \<in> set ?ls. \<not> ?P (v ! p)" and PR: "\<forall>p \<in> set ?rs. ?P (v ! p)"
    using lset rset by auto
  note spec = cycle_positions_spec [OF dist bound len PL PR w]
  show "mset w = mset v" by (rule spec(1))
  show "w ! p = v ! p" if "p < l \<or> r \<le> p" for p
    using that lset rset fit(1) by (intro spec(2)) fastforce
  have "?P (w ! (l + i)) \<longleftrightarrow> i \<in> set (take n ol) \<or> ?P (v ! (l + i))" if "i < bl" for i
  proof (cases "i \<in> set (take n ol)")
    case True
    then show ?thesis using spec(3) [of "l + i"] by simp
  next
    case False
    then have "l + i \<notin> set (?ls @ ?rs)" using that rset fit(1) by fastforce
    with False show ?thesis using spec(2) [of "l + i"] by simp
  qed
  then show "left_offsets pivot w l bl (drop n ol)"
    using sl by (auto simp: left_offsets_def sorted_wrt_drop set_drop_distinct [OF dl])
  have "?P (w ! (r - (i + 1))) \<longleftrightarrow> i \<notin> set (take n orr) \<and> ?P (v ! (r - (i + 1)))" if "i < br" for i
  proof (cases "i \<in> set (take n orr)")
    case True
    then show ?thesis using spec(4) [of "r - (i + 1)"] by simp
  next
    case False
    have "r - (i + 1) \<noteq> l + j" if "j \<in> set (take n ol)" for j
      using lset [OF that] \<open>i < br\<close> fit(1) by linarith
    moreover have "r - (i + 1) \<noteq> r - (j + 1)" if "j \<in> set (take n orr)" for j
      using rset [OF that] \<open>i < br\<close> fit(1) that False by (cases "i = j") (simp, linarith)
    ultimately have "r - (i + 1) \<notin> set (?ls @ ?rs)" by fastforce
    with False show ?thesis using spec(2) [of "r - (i + 1)"] by simp
  qed
  then show "right_offsets pivot w r br (drop n orr)"
    using sr by (auto simp: right_offsets_def sorted_wrt_drop set_drop_distinct [OF dr])
qed

section \<open>The loop invariant\<close>

definition outer_split :: "'k \<Rightarrow> (('k::linorder) \<times> 'r) list \<Rightarrow> nat \<Rightarrow> nat \<Rightarrow> bool" where
  "outer_split pivot v l r \<longleftrightarrow> l \<le> r \<and> r \<le> length v \<and> (\<forall>p < l. fst (v ! p) < pivot) \<and>
     (\<forall>p. r \<le> p \<longrightarrow> p < length v \<longrightarrow> \<not> fst (v ! p) < pivot)"

definition blocks_inv :: "'k \<Rightarrow> (('k::linorder) \<times> 'r) list \<Rightarrow> ('k, 'r) blocks \<Rightarrow> bool" where
  "blocks_inv pivot v0 b \<longleftrightarrow>
     mset (bk_v b) = mset v0 \<and> outer_split pivot (bk_v b) (bk_l b) (bk_r b) \<and>
     (bk_offsets_l b = [] \<or> bk_offsets_r b = []) \<and>
     (bk_offsets_l b \<noteq> [] \<longrightarrow> BLOCK \<le> bk_r b - bk_l b \<and>
        left_offsets pivot (bk_v b) (bk_l b) BLOCK (bk_offsets_l b)) \<and>
     (bk_offsets_r b \<noteq> [] \<longrightarrow> BLOCK \<le> bk_r b - bk_l b \<and>
        right_offsets pivot (bk_v b) (bk_r b) BLOCK (bk_offsets_r b))"

definition blocks_final :: "'k \<Rightarrow> (('k::linorder) \<times> 'r) list \<Rightarrow> ('k, 'r) blocks \<Rightarrow> bool" where
  "blocks_final pivot v0 b \<longleftrightarrow>
     mset (bk_v b) = mset v0 \<and> outer_split pivot (bk_v b) (bk_l b) (bk_r b) \<and>
     (bk_offsets_l b = [] \<and> bk_offsets_r b = [] \<longrightarrow> bk_l b = bk_r b) \<and>
     (bk_offsets_l b \<noteq> [] \<longrightarrow>
        left_offsets pivot (bk_v b) (bk_l b) (bk_r b - bk_l b) (bk_offsets_l b)) \<and>
     (bk_offsets_r b \<noteq> [] \<longrightarrow>
        right_offsets pivot (bk_v b) (bk_r b) (bk_r b - bk_l b) (bk_offsets_r b))"

lemma block_sizes_spec:
  assumes "blocks_inv pivot v0 b" "block_sizes b = (bl, br)"
  shows "bk_l b + bl + br \<le> bk_r b" "is_done b \<Longrightarrow> bk_l b + bl + br = bk_r b"
    "bk_offsets_l b \<noteq> [] \<Longrightarrow> bl = BLOCK" "bk_offsets_r b \<noteq> [] \<Longrightarrow> br = BLOCK"
    "\<not> is_done b \<Longrightarrow> bl = BLOCK" "\<not> is_done b \<Longrightarrow> br = BLOCK"
  using assms
  by (auto simp: block_sizes_def blocks_inv_def outer_split_def is_done_def Let_def split: if_splits)

lemma outer_split_left:
  assumes "outer_split pivot v l r" "left_offsets pivot v l block []" "l + block \<le> r"
  shows "outer_split pivot v (l + block) r"
proof -
  have "fst (v ! p) < pivot" if "p < l + block" for p
  proof (cases "p < l")
    case False
    then have "p - l < block" "l + (p - l) = p" using that by simp_all
    with assms(2) show ?thesis by (force simp: left_offsets_def)
  qed (use assms(1) in \<open>simp add: outer_split_def\<close>)
  with assms(1,3) show ?thesis by (simp add: outer_split_def)
qed

lemma outer_split_right:
  assumes "outer_split pivot v l r" "right_offsets pivot v r block []" "l + block \<le> r"
  shows "outer_split pivot v l (r - block)"
proof -
  have "\<not> fst (v ! p) < pivot" if "r - block \<le> p" "p < length v" for p
  proof (cases "p < r")
    case True
    then have "r - (p + 1) < block" "r - ((r - (p + 1)) + 1) = p" using that by simp_all
    with assms(2) show ?thesis by (force simp: right_offsets_def)
  qed (use assms(1) that in \<open>simp add: outer_split_def\<close>)
  with assms(1,3) show ?thesis by (auto simp: outer_split_def)
qed

lemma blocks_step_shape:
  assumes inv: "blocks_inv pivot v0 b" and sizes: "block_sizes b = (bl, br)"
  obtains v ol orr where
    "blocks_step pivot b = \<lparr> bk_v = v, bk_l = (if ol = [] then bk_l b + bl else bk_l b),
       bk_r = (if orr = [] then bk_r b - br else bk_r b), bk_offsets_l = ol, bk_offsets_r = orr \<rparr>"
    "mset v = mset v0" "outer_split pivot v (bk_l b) (bk_r b)" "ol = [] \<or> orr = []"
    "left_offsets pivot v (bk_l b) bl ol" "right_offsets pivot v (bk_r b) br orr"
proof -
  define ol where "ol = (if bk_offsets_l b = [] then trace_left pivot bl (bk_v b) (bk_l b)
    else bk_offsets_l b)"
  define orr where "orr = (if bk_offsets_r b = [] then trace_right pivot br (bk_v b) (bk_r b)
    else bk_offsets_r b)"
  define n where "n = min (length ol) (length orr)"
  define w where "w = cycle_positions (map (\<lambda>i. bk_l b + i) (take n ol))
    (map (\<lambda>i. bk_r b - (i + 1)) (take n orr)) (bk_v b)"
  note fit = block_sizes_spec [OF inv sizes]
  have L: "left_offsets pivot (bk_v b) (bk_l b) bl ol"
    and R: "right_offsets pivot (bk_v b) (bk_r b) br orr"
    using inv fit by (auto simp: ol_def orr_def blocks_inv_def trace_left_offsets trace_right_offsets)
  have out: "outer_split pivot (bk_v b) (bk_l b) (bk_r b)"
    using inv by (simp add: blocks_inv_def)
  then have r: "bk_r b \<le> length (bk_v b)" by (simp add: outer_split_def)
  note ex = exchange_offsets [OF L R fit(1) r n_def w_def]
  have len: "length w = length (bk_v b)" using ex(1) by (metis size_mset)
  have w: "w = (if n > 0 then w else bk_v b)" by (simp add: w_def)
  show thesis
  proof (rule that)
    show "blocks_step pivot b = \<lparr> bk_v = w,
       bk_l = (if drop n ol = [] then bk_l b + bl else bk_l b),
       bk_r = (if drop n orr = [] then bk_r b - br else bk_r b),
       bk_offsets_l = drop n ol, bk_offsets_r = drop n orr \<rparr>"
      unfolding blocks_step_def sizes Let_def prod.case
      by (subst w) (simp only: ol_def [symmetric] orr_def [symmetric] n_def [symmetric] w_def [symmetric])
    show "mset w = mset v0" using ex(1) inv by (simp add: blocks_inv_def)
    show "outer_split pivot w (bk_l b) (bk_r b)"
      using out ex(2) len by (simp add: outer_split_def)
    show "drop n ol = [] \<or> drop n orr = []" by (auto simp: n_def)
  qed (rule ex)+
qed

lemma blocks_step_outer:
  assumes out: "outer_split pivot v l r" and L: "left_offsets pivot v l bl ol"
    and R: "right_offsets pivot v r br orr" and fit: "l + bl + br \<le> r"
  shows "outer_split pivot v (if ol = [] then l + bl else l) (if orr = [] then r - br else r)"
proof -
  have left: "outer_split pivot v (if ol = [] then l + bl else l) r"
    using out L fit outer_split_left [of pivot v l r bl] by auto
  show ?thesis
    using R fit left outer_split_right [OF left, of br] by (cases "ol = []") auto
qed

lemma blocks_step_inv:
  assumes inv: "blocks_inv pivot v0 b" and nd: "\<not> is_done b"
  shows "blocks_inv pivot v0 (blocks_step pivot b)"
proof -
  have sizes: "block_sizes b = (BLOCK, BLOCK)" using nd by (simp add: block_sizes_def)
  have fit: "bk_l b + BLOCK + BLOCK \<le> bk_r b" using block_sizes_spec(1) [OF inv sizes] .
  show ?thesis
  proof (rule blocks_step_shape [OF inv sizes])
    fix v ol orr
    assume b': "blocks_step pivot b = \<lparr> bk_v = v, bk_l = (if ol = [] then bk_l b + BLOCK else bk_l b),
        bk_r = (if orr = [] then bk_r b - BLOCK else bk_r b), bk_offsets_l = ol, bk_offsets_r = orr \<rparr>"
      and v: "mset v = mset v0" "outer_split pivot v (bk_l b) (bk_r b)" "ol = [] \<or> orr = []"
        "left_offsets pivot v (bk_l b) BLOCK ol" "right_offsets pivot v (bk_r b) BLOCK orr"
    from blocks_step_outer [OF v(2,4,5) fit] v fit b' show ?thesis
      by (auto simp: blocks_inv_def)
  qed
qed

lemma blocks_step_final:
  assumes inv: "blocks_inv pivot v0 b" and d: "is_done b"
  shows "blocks_final pivot v0 (blocks_step pivot b)"
proof -
  obtain bl br where sizes: "block_sizes b = (bl, br)" by (cases "block_sizes b")
  note fit = block_sizes_spec(1) [OF inv sizes] block_sizes_spec(2) [OF inv sizes d]
  show ?thesis
  proof (rule blocks_step_shape [OF inv sizes])
    fix v ol orr
    assume b': "blocks_step pivot b = \<lparr> bk_v = v, bk_l = (if ol = [] then bk_l b + bl else bk_l b),
        bk_r = (if orr = [] then bk_r b - br else bk_r b), bk_offsets_l = ol, bk_offsets_r = orr \<rparr>"
      and v: "mset v = mset v0" "outer_split pivot v (bk_l b) (bk_r b)" "ol = [] \<or> orr = []"
        "left_offsets pivot v (bk_l b) bl ol" "right_offsets pivot v (bk_r b) br orr"
    have width: "bk_r b - br - bk_l b = bl" "bk_r b - (bk_l b + bl) = br" "bk_l b + bl = bk_r b - br"
      using fit(2) by linarith+
    from blocks_step_outer [OF v(2,4,5) fit(1)] v width b' show ?thesis
      by (auto simp: blocks_final_def)
  qed
qed

lemma blocks_loop_final: "blocks_inv pivot v0 b \<Longrightarrow> blocks_final pivot v0 (blocks_loop pivot b)"
proof (induction pivot b rule: blocks_loop.induct)
  case (1 pivot b)
  show ?case
    by (subst blocks_loop.simps) (auto simp: "1" blocks_step_final blocks_step_inv)
qed

section \<open>Draining the last block\<close>

lemma drain_left_spec:
  assumes "sorted_wrt (>) es" "set es = {i. l + i < r \<and> \<not> fst (v ! (l + i)) < pivot}"
    "outer_split pivot v l r" "drain_left es l r v = (w, k)"
  shows "mset w = mset v \<and> outer_split pivot w k k"
  using assms
proof (induction es l r v rule: drain_left.induct)
  case (1 l r v)
  have "fst (v ! p) < pivot" if "p < r" for p
  proof (cases "p < l")
    case False
    then show ?thesis using "1.prems"(2) that by (auto dest: spec [of _ "p - l"])
  qed (use "1.prems"(3) in \<open>simp add: outer_split_def\<close>)
  with "1.prems"(3,4) show ?case by (auto simp: outer_split_def)
next
  case (2 e es l r v)
  let ?v = "swap_at (l + e) (r - 1) v"
  have e: "l + e < r" "\<not> fst (v ! (l + e)) < pivot" and top: "\<forall>i \<in> set es. i < e"
    using "2.prems"(1,2) by auto
  have r: "r \<le> length v" using "2.prems"(3) by (simp add: outer_split_def)
  have idx: "l + e < length v" "r - 1 < length v" using e(1) r by linarith+
  note nth = nth_swap_at [OF idx, unfolded One_nat_def]
  have last: "fst (v ! (r - 1)) < pivot" if "l + e \<noteq> r - 1"
  proof (rule ccontr)
    assume "\<not> fst (v ! (r - 1)) < pivot"
    then have "r - 1 - l \<in> set (e # es)" using e(1) by (simp only: "2.prems"(2)) simp
    with top that e(1) show False by auto
  qed
  have "set es = {i. l + i < r - 1 \<and> \<not> fst (?v ! (l + i)) < pivot}"
  proof (rule set_eqI)
    fix i
    have "i \<in> set es \<longleftrightarrow> i \<in> set (e # es) \<and> i \<noteq> e" using top by auto
    also have "\<dots> \<longleftrightarrow> l + i < r \<and> \<not> fst (v ! (l + i)) < pivot \<and> i \<noteq> e"
      by (simp only: "2.prems"(2)) simp
    also have "\<dots> \<longleftrightarrow> l + i < r - 1 \<and> \<not> fst (?v ! (l + i)) < pivot"
    proof (cases "l + i < r - 1")
      case True
      with r last show ?thesis by (auto simp: nth)
    next
      case False
      have "l + i < r \<longrightarrow> i \<noteq> e \<longrightarrow> l + i = r - 1 \<and> l + e \<noteq> r - 1" using False by linarith
      with False last show ?thesis by auto
    qed
    finally show "i \<in> set es \<longleftrightarrow> i \<in> {i. l + i < r - 1 \<and> \<not> fst (?v ! (l + i)) < pivot}" by simp
  qed
  moreover have "outer_split pivot ?v l (r - 1)"
  proof -
    have "\<not> fst (?v ! p) < pivot" if "r - 1 \<le> p" "p < length v" for p
      using that e "2.prems"(3) by (cases "p = r - 1") (auto simp: nth outer_split_def)
    with "2.prems"(3) e(1) r show ?thesis by (auto simp: nth outer_split_def)
  qed
  ultimately show ?case
    using "2.IH" "2.prems"(1,4) mset_swap_at [OF idx] by simp
qed

lemma drain_right_spec:
  assumes "sorted_wrt (>) es" "set es = {i. l + i < r \<and> fst (v ! (r - (i + 1))) < pivot}"
    "outer_split pivot v l r" "drain_right es l r v = (w, k)"
  shows "mset w = mset v \<and> outer_split pivot w k k"
  using assms
proof (induction es l r v rule: drain_right.induct)
  case (1 l r v)
  have "\<not> fst (v ! p) < pivot" if "l \<le> p" "p < length v" for p
  proof (cases "p < r")
    case True
    then have "r - (r - (p + 1) + 1) = p" "l + (r - (p + 1)) < r" using that by linarith+
    then show ?thesis using "1.prems"(2) by (auto dest: spec [of _ "r - (p + 1)"])
  qed (use "1.prems"(3) that in \<open>simp add: outer_split_def\<close>)
  with "1.prems"(3,4) show ?case by (auto simp: outer_split_def)
next
  case (2 e es l r v)
  let ?q = "r - (e + 1)"
  let ?v = "swap_at l ?q v"
  have e: "l + e < r" "fst (v ! ?q) < pivot" and top: "\<forall>i \<in> set es. i < e"
    using "2.prems"(1,2) by auto
  have r: "r \<le> length v" using "2.prems"(3) by (simp add: outer_split_def)
  have idx: "l < length v" "?q < length v" using e(1) r by linarith+
  note nth = nth_swap_at [OF idx, simplified]
  have first: "\<not> fst (v ! l) < pivot" if "l \<noteq> ?q"
  proof
    assume "fst (v ! l) < pivot"
    moreover have "r - (r - (l + 1) + 1) = l" "l + (r - (l + 1)) < r" using e(1) by linarith+
    ultimately have "r - (l + 1) \<in> set (e # es)" by (simp only: "2.prems"(2)) simp
    with top have "r - (l + 1) \<le> e" by auto
    with that e(1) show False by linarith
  qed
  have rest: "set es = {i. l + 1 + i < r \<and> fst (?v ! (r - (i + 1))) < pivot}"
  proof (rule set_eqI)
    fix i
    have "i \<in> set es \<longleftrightarrow> i \<in> set (e # es) \<and> i \<noteq> e" using top by auto
    also have "\<dots> \<longleftrightarrow> l + i < r \<and> fst (v ! (r - (i + 1))) < pivot \<and> i \<noteq> e"
      by (simp only: "2.prems"(2)) simp
    also have "\<dots> \<longleftrightarrow> l + 1 + i < r \<and> fst (?v ! (r - (i + 1))) < pivot"
    proof (cases "l + 1 + i < r")
      case True
      then have p: "r - (i + 1) < length v" "r - (i + 1) \<noteq> l" "r - (i + 1) = ?q \<longleftrightarrow> i = e"
        using r e(1) by linarith+
      have ne: "l \<noteq> ?q" if "i = e" using p(2) that by simp
      show ?thesis using True p first [OF ne] by (auto simp: nth)
    next
      case False
      have "l + i < r \<longrightarrow> i \<noteq> e \<longrightarrow> r - (i + 1) = l \<and> l \<noteq> ?q" using False e(1) by linarith
      with False first show ?thesis by auto
    qed
    finally show "i \<in> set es \<longleftrightarrow> i \<in> {i. l + 1 + i < r \<and> fst (?v ! (r - (i + 1))) < pivot}" by simp
  qed
  have out: "outer_split pivot ?v (l + 1) r"
  proof -
    have q: "l \<le> ?q" "?q < r" using e(1) by linarith+
    have "fst (?v ! p) < pivot" if "p < l + 1" for p
      using that e(2) q(1) idx "2.prems"(3) by (cases "p = l") (simp_all add: nth outer_split_def)
    moreover have "\<not> fst (?v ! p) < pivot" if "r \<le> p" "p < length v" for p
      using that q "2.prems"(3) by (simp add: nth outer_split_def)
    ultimately show ?thesis using e(1) r by (simp add: outer_split_def)
  qed
  have es: "sorted_wrt (>) es" using "2.prems"(1) by simp
  have res: "drain_right es (l + 1) r ?v = (w, k)" using "2.prems"(4) by (simp only: drain_right.simps)
  have "mset w = mset ?v \<and> outer_split pivot w k k" by (rule "2.IH" [OF es rest out res])
  then show ?case by (simp only: mset_swap_at [OF idx])
qed

section \<open>The whole partition\<close>

lemma sorted_wrt_rev_gt: "sorted_wrt (<) xs \<Longrightarrow> sorted_wrt (>) (rev (xs :: nat list))"
  unfolding sorted_wrt_rev .

lemma outer_split_sets:
  assumes "outer_split pivot w k k"
  shows "k \<le> length w" "\<forall>x \<in> set (take k w). fst x < pivot" "\<forall>x \<in> set (drop k w). \<not> fst x < pivot"
  using assms unfolding outer_split_def all_set_conv_all_nth by simp_all

lemma partition_in_blocks_split:
  assumes "partition_in_blocks v pivot = (w, k)"
  shows "mset w = mset v" "outer_split pivot w k k"
proof -
  define b where "b = blocks_loop pivot \<lparr> bk_v = v, bk_l = 0, bk_r = length v,
    bk_offsets_l = [], bk_offsets_r = [] \<rparr>"
  have "blocks_inv pivot v \<lparr> bk_v = v, bk_l = 0, bk_r = length v,
      bk_offsets_l = [], bk_offsets_r = [] \<rparr>"
    by (simp add: blocks_inv_def outer_split_def)
  then have fin: "blocks_final pivot v b" unfolding b_def by (rule blocks_loop_final)
  then have out: "outer_split pivot (bk_v b) (bk_l b) (bk_r b)" by (simp add: blocks_final_def)
  have width: "i < bk_r b - bk_l b \<longleftrightarrow> bk_l b + i < bk_r b" for i by linarith
  have result: "(w, k) =
     (if bk_offsets_l b \<noteq> [] then drain_left (rev (bk_offsets_l b)) (bk_l b) (bk_r b) (bk_v b)
      else if bk_offsets_r b \<noteq> [] then drain_right (rev (bk_offsets_r b)) (bk_l b) (bk_r b) (bk_v b)
      else (bk_v b, bk_l b))"
    using assms by (simp only: partition_in_blocks_def b_def [symmetric] Let_def)
  consider "bk_offsets_l b \<noteq> []" | "bk_offsets_l b = []" "bk_offsets_r b \<noteq> []"
    | "bk_offsets_l b = []" "bk_offsets_r b = []" by blast
  then have "mset w = mset (bk_v b) \<and> outer_split pivot w k k"
  proof cases
    case 1
    have res: "drain_left (rev (bk_offsets_l b)) (bk_l b) (bk_r b) (bk_v b) = (w, k)"
      using result 1 by simp
    have offs: "left_offsets pivot (bk_v b) (bk_l b) (bk_r b - bk_l b) (bk_offsets_l b)"
      using fin 1 unfolding blocks_final_def by blast
    have desc: "sorted_wrt (>) (rev (bk_offsets_l b))"
      using offs sorted_wrt_rev_gt unfolding left_offsets_def by blast
    have "set (rev (bk_offsets_l b)) =
        {i. bk_l b + i < bk_r b \<and> \<not> fst (bk_v b ! (bk_l b + i)) < pivot}"
      using offs unfolding left_offsets_def set_rev width by blast
    from drain_left_spec [OF desc this out res] show ?thesis .
  next
    case 2
    have res: "drain_right (rev (bk_offsets_r b)) (bk_l b) (bk_r b) (bk_v b) = (w, k)"
      using result 2 by simp
    have offs: "right_offsets pivot (bk_v b) (bk_r b) (bk_r b - bk_l b) (bk_offsets_r b)"
      using fin 2 unfolding blocks_final_def by blast
    have desc: "sorted_wrt (>) (rev (bk_offsets_r b))"
      using offs sorted_wrt_rev_gt unfolding right_offsets_def by blast
    have "set (rev (bk_offsets_r b)) =
        {i. bk_l b + i < bk_r b \<and> fst (bk_v b ! (bk_r b - (i + 1))) < pivot}"
      using offs unfolding right_offsets_def set_rev width by blast
    from drain_right_spec [OF desc this out res] show ?thesis .
  next
    case 3
    then have "bk_l b = bk_r b" using fin unfolding blocks_final_def by blast
    with result 3 out show ?thesis by simp
  qed
  then show "mset w = mset v" "outer_split pivot w k k"
    using fin by (simp_all add: blocks_final_def)
qed

section \<open>Properties\<close>

text \<open>
  C18: \<open>partition_in_blocks\<close> permutes the slice, returns the number of elements below the pivot, and
  leaves exactly those in front, for slices of every length.
\<close>

theorem partition_in_blocks_partitions:
  "let r = partition_in_blocks v pivot
   in mset (fst r) = mset v \<and> snd r = length (filter (\<lambda>x. fst x < pivot) v) \<and>
      list_all (\<lambda>x. fst x < pivot) (take (snd r) (fst r)) \<and>
      list_all (\<lambda>x. \<not> fst x < pivot) (drop (snd r) (fst r))"
proof -
  obtain w k where r: "partition_in_blocks v pivot = (w, k)" by force
  note spec = partition_in_blocks_split [OF r] outer_split_sets [OF partition_in_blocks_split(2) [OF r]]
  have "length (filter (\<lambda>x. fst x < pivot) v) = length (filter (\<lambda>x. fst x < pivot) w)"
    using spec(1) by (metis mset_filter size_mset)
  also have "\<dots> = length (filter (\<lambda>x. fst x < pivot) (take k w @ drop k w))" by simp
  also have "\<dots> = k"
    using spec(3-5) unfolding filter_append by (simp add: filter_empty_conv)
  finally show ?thesis using r spec by (simp add: list_all_iff)
qed

end
