(* ===== verification/Quicksort.thy ===== *)
theory Quicksort
  imports Block_Partition "HOL-Library.Word"
begin

unbundle bit_operations_syntax

text \<open>
  The pattern-defeating quicksort of \<open>crates/dbsp/src/utils/consolidation/quicksort.rs\<close>:
  \<open>partition\<close>, \<open>partition_equal\<close>, \<open>break_patterns\<close>, \<open>choose_pivot\<close>, \<open>recurse\<close> and \<open>quicksort\<close>, over
  the routines of \<open>Paired_Sorts\<close> and \<open>Block_Partition\<close>. \<open>usize\<close> is 64 bits wide.
\<close>

section \<open>Partition around a pivot\<close>

function scan_up :: "('a \<Rightarrow> bool) \<Rightarrow> 'a list \<Rightarrow> nat \<Rightarrow> nat \<Rightarrow> nat" where
  "scan_up P v l r = (if l < r \<and> P (v ! l) then scan_up P v (l + 1) r else l)"
  by pat_completeness auto
termination
  by (relation "measure (\<lambda>(P, v, l, r). r - l)") auto

function scan_down :: "('a \<Rightarrow> bool) \<Rightarrow> 'a list \<Rightarrow> nat \<Rightarrow> nat \<Rightarrow> nat" where
  "scan_down P v l r = (if l < r \<and> P (v ! (r - 1)) then scan_down P v l (r - 1) else r)"
  by pat_completeness auto
termination
  by (relation "measure (\<lambda>(P, v, l, r). r - l)") auto

declare scan_up.simps [simp del] scan_down.simps [simp del]

lemma scan_up_spec:
  "l \<le> r \<Longrightarrow> l \<le> scan_up P v l r \<and> scan_up P v l r \<le> r \<and>
    (\<forall>p. l \<le> p \<longrightarrow> p < scan_up P v l r \<longrightarrow> P (v ! p)) \<and>
    (scan_up P v l r < r \<longrightarrow> \<not> P (v ! scan_up P v l r))"
proof (induction P v l r rule: scan_up.induct)
  case (1 P v l r)
  show ?case
  proof (cases "l < r \<and> P (v ! l)")
    case True
    then have eq: "scan_up P v l r = scan_up P v (l + 1) r" by (subst scan_up.simps) simp
    have IH: "l + 1 \<le> scan_up P v (l + 1) r \<and> scan_up P v (l + 1) r \<le> r \<and>
      (\<forall>p. l + 1 \<le> p \<longrightarrow> p < scan_up P v (l + 1) r \<longrightarrow> P (v ! p)) \<and>
      (scan_up P v (l + 1) r < r \<longrightarrow> \<not> P (v ! scan_up P v (l + 1) r))"
      using 1 True by simp
    have "P (v ! p)" if "l \<le> p" "p < scan_up P v (l + 1) r" for p
      using that IH True by (cases "p = l") auto
    with IH show ?thesis unfolding eq by simp
  next
    case False
    then have "scan_up P v l r = l" by (subst scan_up.simps) auto
    with False 1 show ?thesis by auto
  qed
qed

lemma scan_down_spec:
  "l \<le> r \<Longrightarrow> l \<le> scan_down P v l r \<and> scan_down P v l r \<le> r \<and>
    (\<forall>p. scan_down P v l r \<le> p \<longrightarrow> p < r \<longrightarrow> P (v ! p)) \<and>
    (l < scan_down P v l r \<longrightarrow> \<not> P (v ! (scan_down P v l r - 1)))"
proof (induction P v l r rule: scan_down.induct)
  case (1 P v l r)
  show ?case
  proof (cases "l < r \<and> P (v ! (r - 1))")
    case True
    then have eq: "scan_down P v l r = scan_down P v l (r - 1)" by (subst scan_down.simps) simp
    have le: "l \<le> r - 1" using True by linarith
    have IH: "l \<le> scan_down P v l (r - 1) \<and> scan_down P v l (r - 1) \<le> r - 1 \<and>
      (\<forall>p. scan_down P v l (r - 1) \<le> p \<longrightarrow> p < r - 1 \<longrightarrow> P (v ! p)) \<and>
      (l < scan_down P v l (r - 1) \<longrightarrow> \<not> P (v ! (scan_down P v l (r - 1) - 1)))"
      by (rule "1.IH" [OF True le])
    have "P (v ! p)" if "scan_down P v l (r - 1) \<le> p" "p < r" for p
      using that IH True by (cases "p = r - 1") auto
    moreover have "scan_down P v l (r - 1) \<le> r" using IH by linarith
    ultimately show ?thesis unfolding eq using IH by blast
  next
    case False
    then have "scan_down P v l r = r" by (subst scan_down.simps) auto
    with False 1 show ?thesis by auto
  qed
qed

definition partition_slice ::
  "(('k::linorder) \<times> 'r) list \<Rightarrow> nat \<Rightarrow> ('k \<times> 'r) list \<times> nat \<times> bool" where
  "partition_slice v pivot =
     (let v = swap_at 0 pivot v;
          tmp = v ! 0;
          t = drop 1 v;
          l = scan_up (\<lambda>x. is_less x tmp) t 0 (length t);
          r = scan_down (\<lambda>x. \<not> is_less x tmp) t l (length t);
          (s, m) = partition_in_blocks (subslice t l r) (fst tmp);
          mid = l + m
      in (swap_at 0 mid (tmp # take l t @ s @ drop r t), mid, l \<ge> r))"

function partition_equal_loop ::
  "('k::linorder) \<times> 'r \<Rightarrow> ('k \<times> 'r) list \<Rightarrow> nat \<Rightarrow> nat \<Rightarrow> ('k \<times> 'r) list \<times> nat" where
  "partition_equal_loop pivot v l r =
     (let l = scan_up (\<lambda>x. \<not> is_less pivot x) v l r;
          r = scan_down (\<lambda>x. is_less pivot x) v l r
      in if l \<ge> r then (v, l)
         else partition_equal_loop pivot (swap_at l (r - 1) v) (l + 1) (r - 1))"
  by pat_completeness auto
termination
proof (relation "measure (\<lambda>(pivot, v, l, r). r - l)")
  fix pivot :: "('k::linorder) \<times> 'r" and v :: "('k \<times> 'r) list" and l r l' r'
  assume l': "l' = scan_up (\<lambda>x. \<not> is_less pivot x) v l r"
    and r': "r' = scan_down (\<lambda>x. is_less pivot x) v l' r" and nd: "\<not> l' \<ge> r'"
  have "l < r \<or> (l' = l \<and> r' = r)"
    using l' r' by (subst (asm) scan_up.simps, subst (asm) scan_down.simps) auto
  with nd have "l < r" by auto
  with l' scan_up_spec [of l r _ v] have "l \<le> l'" "l' \<le> r" by simp_all
  moreover from this r' scan_down_spec [of l' r "is_less pivot" v] have "r' \<le> r" by simp
  ultimately show
    "((pivot, swap_at l' (r' - 1) v, l' + 1, r' - 1), (pivot, v, l, r))
      \<in> measure (\<lambda>(pivot, v, l, r). r - l)" using nd by simp
qed simp

declare partition_equal_loop.simps [simp del]

definition partition_equal :: "(('k::linorder) \<times> 'r) list \<Rightarrow> nat \<Rightarrow> ('k \<times> 'r) list \<times> nat" where
  "partition_equal v pivot =
     (let v = swap_at 0 pivot v;
          tmp = v ! 0;
          t = drop 1 v;
          (t, l) = partition_equal_loop tmp t 0 (length t)
      in (tmp # t, l + 1))"

lemma swap_at_front:
  assumes "mid \<le> length t"
  shows "swap_at 0 mid (p # t) =
     (if mid = 0 then p # t else t ! (mid - 1) # take (mid - 1) t @ p # drop mid t)"
proof (cases mid)
  case (Suc n)
  then have "t[n := p] = take n t @ p # drop (Suc n) t"
    using assms by (simp add: upd_conv_take_nth_drop)
  with Suc show ?thesis by (simp add: swap_at_def)
qed (simp add: swap_at_def)

lemma swap_at_front_split:
  assumes "mid \<le> length t" "w = swap_at 0 mid (p # t)"
  shows "mset (take mid w) = mset (take mid t)" "w ! mid = p" "drop (Suc mid) w = drop mid t"
    "mset w = mset (p # t)" "mid < length w"
proof -
  have "mset (take mid w) = mset (take mid t) \<and> w ! mid = p \<and> drop (Suc mid) w = drop mid t"
  proof (cases mid)
    case (Suc n)
    then have "take (Suc n) t = take n t @ [t ! n]" using assms by (simp add: take_Suc_conv_app_nth)
    with Suc assms show ?thesis by (simp add: swap_at_front nth_append)
  qed (use assms in \<open>simp add: swap_at_front\<close>)
  then show "mset (take mid w) = mset (take mid t)" "w ! mid = p" "drop (Suc mid) w = drop mid t"
    by auto
  show "mset w = mset (p # t)" "mid < length w"
    using assms mset_swap_at [of 0 "p # t" mid] by simp_all
qed

lemma mset_swap_front:
  assumes "pivot < length v"
  shows "mset (swap_at 0 pivot v) = mset v"
    "swap_at 0 pivot v = v ! pivot # drop 1 (swap_at 0 pivot v)"
proof -
  have l: "0 < length v" using assms by linarith
  show "mset (swap_at 0 pivot v) = mset v" using mset_swap_at [OF l assms] .
  have "swap_at 0 pivot v ! 0 = v ! pivot" using nth_swap_at [OF l assms l] by simp
  then show "swap_at 0 pivot v = v ! pivot # drop 1 (swap_at 0 pivot v)"
    using l by (metis Cons_nth_drop_Suc One_nat_def drop0 length_swap_at)
qed

lemma take_subslice_drop: "l \<le> r \<Longrightarrow> take l t @ subslice t l r @ drop r t = t"
  by (simp add: subslice_def) (metis append_take_drop_id drop_drop le_add_diff_inverse2)

lemma partition_spec:
  assumes pivot: "pivot < length v" and res: "partition_slice v pivot = (w, mid, was_p)"
  shows "mset w = mset v" "mid < length w" "\<forall>x \<in> set (take mid w). fst x < fst (w ! mid)"
    "\<forall>x \<in> set (drop (Suc mid) w). fst (w ! mid) \<le> fst x" "fst (w ! mid) = fst (v ! pivot)"
proof -
  define t where "t = drop 1 (swap_at 0 pivot v)"
  define p where "p = v ! pivot"
  have v: "swap_at 0 pivot v = p # t" "mset v = mset (p # t)"
    using mset_swap_front [OF pivot] by (simp_all add: t_def p_def)
  define l where "l = scan_up (\<lambda>x. is_less x p) t 0 (length t)"
  define r where "r = scan_down (\<lambda>x. \<not> is_less x p) t l (length t)"
  obtain s m where sm: "partition_in_blocks (subslice t l r) (fst p) = (s, m)" by force
  have w: "w = swap_at 0 (l + m) (p # take l t @ s @ drop r t)" and mid: "mid = l + m"
    using res v(1) sm by (auto simp: partition_slice_def Let_def l_def [symmetric] r_def [symmetric])
  have l: "l \<le> length t" "\<forall>x \<in> set (take l t). fst x < fst p"
    using scan_up_spec [of 0 "length t" "\<lambda>x. is_less x p" t]
    unfolding l_def [symmetric] all_set_conv_all_nth by simp_all
  have r: "l \<le> r" "r \<le> length t" "\<forall>x \<in> set (drop r t). fst p \<le> fst x"
    using scan_down_spec [of l "length t" "\<lambda>x. \<not> is_less x p" t] l(1)
    unfolding r_def [symmetric] all_set_conv_all_nth by (simp_all add: not_less)
  note blk = partition_in_blocks_split [OF sm]
  note sets = outer_split_sets [OF blk(2)]
  have t': "mset (take l t @ s @ drop r t) = mset t"
    using blk(1) take_subslice_drop [OF r(1), of t] by (metis mset_append)
  have len: "l + m \<le> length (take l t @ s @ drop r t)" using sets(1) l(1) by simp
  note fs = swap_at_front_split [OF len w, folded mid]
  show "mset w = mset v" "mid < length w" using fs(4,5) t' v(2) by simp_all
  show "fst (w ! mid) = fst (v ! pivot)" using fs(2) by (simp add: p_def)
  have "take mid (take l t @ s @ drop r t) = take l t @ take m s"
    using sets(1) l(1) mid by simp
  then have "set (take mid w) = set (take l t) \<union> set (take m s)"
    using fs(1) by (metis mset_append set_append set_mset_mset)
  then show "\<forall>x \<in> set (take mid w). fst x < fst (w ! mid)"
    using l(2) sets(2) fs(2) by auto
  show "\<forall>x \<in> set (drop (Suc mid) w). fst (w ! mid) \<le> fst x"
    using r(3) sets(1,3) fs(2,3) l(1) mid by (auto simp: not_less)
qed

section \<open>Partition into equal and greater elements\<close>

lemma partition_equal_loop_spec:
  assumes "l \<le> r" "r \<le> length v" "\<forall>p < l. fst (v ! p) \<le> fst pivot"
    "\<forall>p. r \<le> p \<longrightarrow> p < length v \<longrightarrow> fst pivot < fst (v ! p)"
    "partition_equal_loop pivot v l r = (w, k)"
  shows "mset w = mset v \<and> k \<le> length w \<and> (\<forall>p < k. fst (w ! p) \<le> fst pivot) \<and>
    (\<forall>p. k \<le> p \<longrightarrow> p < length w \<longrightarrow> fst pivot < fst (w ! p))"
  using assms
proof (induction pivot v l r rule: partition_equal_loop.induct)
  case (1 pivot v l r)
  define l' where "l' = scan_up (\<lambda>x. \<not> is_less pivot x) v l r"
  define r' where "r' = scan_down (\<lambda>x. is_less pivot x) v l' r"
  have up: "l \<le> l'" "l' \<le> r" "\<forall>p. l \<le> p \<longrightarrow> p < l' \<longrightarrow> \<not> is_less pivot (v ! p)"
    "l' < r \<Longrightarrow> is_less pivot (v ! l')"
    using scan_up_spec [OF "1.prems"(1), of "\<lambda>x. \<not> is_less pivot x" v] by (simp_all add: l'_def)
  have down: "l' \<le> r'" "r' \<le> r" "\<forall>p. r' \<le> p \<longrightarrow> p < r \<longrightarrow> is_less pivot (v ! p)"
    "l' < r' \<Longrightarrow> \<not> is_less pivot (v ! (r' - 1))"
    using scan_down_spec [OF up(2), of "is_less pivot" v] by (simp_all add: r'_def)
  have low: "fst (v ! p) \<le> fst pivot" if "p < l'" for p
    using that up(3) "1.prems"(3) by (meson not_le_imp_less not_less)
  have high: "fst pivot < fst (v ! p)" if "r' \<le> p" "p < length v" for p
    using that down(3) "1.prems"(4) by (meson not_le_imp_less)
  have loop: "partition_equal_loop pivot v l r = (if l' \<ge> r' then (v, l')
      else partition_equal_loop pivot (swap_at l' (r' - 1) v) (l' + 1) (r' - 1))"
    by (subst partition_equal_loop.simps) (simp only: l'_def [symmetric] r'_def [symmetric] Let_def)
  show ?case
  proof (cases "l' \<ge> r'")
    case True
    then have "l' = r'" using down(1) by simp
    with True loop "1.prems"(2,5) low high down(2) show ?thesis by auto
  next
    case False
    let ?v = "swap_at l' (r' - 1) v"
    have ne: "l' < r' - 1"
    proof -
      have "l' \<noteq> r' - 1" using False up(4) down(2,4) by auto
      then show ?thesis using False by linarith
    qed
    have idx: "l' < length v" "r' - 1 < length v" using False down(2) "1.prems"(2) by linarith+
    note nth = nth_swap_at [OF idx, unfolded One_nat_def]
    have a: "l' + 1 \<le> r' - 1" "r' - 1 \<le> length ?v" using ne idx by simp_all
    have b: "\<forall>p < l' + 1. fst (?v ! p) \<le> fst pivot"
      using low down(4) False idx(1) ne by (simp add: nth less_Suc_eq)
    have c: "\<forall>p. r' - 1 \<le> p \<longrightarrow> p < length ?v \<longrightarrow> fst pivot < fst (?v ! p)"
    proof (intro allI impI)
      fix p assume p: "r' - 1 \<le> p" "p < length ?v"
      show "fst pivot < fst (?v ! p)"
      proof (cases "p = r' - 1")
        case True
        then show ?thesis using up(4) ne down(2) idx by (simp add: nth)
      next
        case False
        then have "r' \<le> p" using p(1) by linarith
        then show ?thesis using False p(2) high ne by (simp add: nth)
      qed
    qed
    have d: "partition_equal_loop pivot ?v (l' + 1) (r' - 1) = (w, k)"
      using loop False "1.prems"(5) by simp
    from "1.IH" [OF l'_def r'_def False a b c d] mset_swap_at [OF idx] show ?thesis by simp
  qed
qed

lemma partition_equal_spec:
  assumes pivot: "pivot < length v" and res: "partition_equal v pivot = (w, mid)"
    and least: "\<forall>x \<in> set v. fst (v ! pivot) \<le> fst x"
  shows "mset w = mset v" "0 < mid" "mid \<le> length w"
    "\<forall>x \<in> set (take mid w). fst x = fst (v ! pivot)"
    "\<forall>x \<in> set (drop mid w). fst (v ! pivot) < fst x"
proof -
  define t where "t = drop 1 (swap_at 0 pivot v)"
  define p where "p = v ! pivot"
  have v: "swap_at 0 pivot v = p # t" "mset v = mset (p # t)"
    using mset_swap_front [OF pivot] by (simp_all add: t_def p_def)
  obtain s l where sl: "partition_equal_loop p t 0 (length t) = (s, l)" by force
  have w: "w = p # s" "mid = l + 1"
    using res v(1) sl by (auto simp: partition_equal_def Let_def)
  have spec: "mset s = mset t" "l \<le> length s" "\<forall>q < l. fst (s ! q) \<le> fst p"
    "\<forall>q. l \<le> q \<longrightarrow> q < length s \<longrightarrow> fst p < fst (s ! q)"
    using partition_equal_loop_spec [OF _ _ _ _ sl] by auto
  show "mset w = mset v" "0 < mid" "mid \<le> length w" using w v(2) spec by simp_all
  have mem: "x \<in> set v" if "x \<in> set s" for x
    using that spec(1) v(2) by (metis list.set_intros(2) set_mset_mset)
  have lo: "\<forall>x \<in> set (take l s). fst x \<le> fst p"
    unfolding all_set_conv_all_nth using spec(2,3) by simp
  show "\<forall>x \<in> set (take mid w). fst x = fst (v ! pivot)"
  proof
    fix x assume "x \<in> set (take mid w)"
    then have "x = p \<or> x \<in> set (take l s)" using w by simp
    then show "fst x = fst (v ! pivot)"
      using lo least mem [of x] in_set_takeD [of x l s] by (auto simp: p_def [symmetric] intro: antisym)
  qed
  show "\<forall>x \<in> set (drop mid w). fst (v ! pivot) < fst x"
    unfolding all_set_conv_all_nth using spec(2,4) w by (simp add: p_def)
qed

section \<open>Breaking patterns and choosing a pivot\<close>

definition gen_u32 :: "32 word \<Rightarrow> 32 word" where
  "gen_u32 random =
     (let random = random XOR push_bit 13 random;
          random = random XOR drop_bit 17 random
      in random XOR push_bit 5 random)"

definition gen_usize :: "32 word \<Rightarrow> 64 word \<times> 32 word" where
  "gen_usize random =
     (let hi = gen_u32 random; lo = gen_u32 hi
      in (push_bit 32 (ucast hi) OR ucast lo, lo))"

function next_power_of_two_from :: "nat \<Rightarrow> nat \<Rightarrow> nat" where
  "next_power_of_two_from p n = (if 0 < p \<and> p < n then next_power_of_two_from (2 * p) n else p)"
  by pat_completeness auto
termination
  by (relation "measure (\<lambda>(p, n). n - p)") auto

declare next_power_of_two_from.simps [simp del]

definition next_power_of_two :: "nat \<Rightarrow> nat" where
  "next_power_of_two n = next_power_of_two_from 1 n"

fun break_patterns_loop :: "nat list \<Rightarrow> nat \<Rightarrow> 32 word \<Rightarrow> 'a list \<Rightarrow> 'a list" where
  "break_patterns_loop [] pos random v = v"
| "break_patterns_loop (i # is) pos random v =
     (let len = length v;
          modulus = next_power_of_two len;
          (g, random) = gen_usize random;
          other = unat g AND (modulus - 1);
          other = (if other \<ge> len then other - len else other)
      in break_patterns_loop is pos random (swap_at (pos - 1 + i) other v))"

definition break_patterns :: "'a list \<Rightarrow> 'a list" where
  "break_patterns v =
     (let len = length v
      in if len \<ge> 8 then break_patterns_loop [0, 1, 2] (len div 4 * 2) (of_nat len) v else v)"

definition SHORTEST_MEDIAN_OF_MEDIANS :: nat where
  "SHORTEST_MEDIAN_OF_MEDIANS = 50"

definition MAX_SWAPS :: nat where
  "MAX_SWAPS = 4 * 3"

definition sort2 :: "(('k::linorder) \<times> 'r) list \<Rightarrow> nat \<Rightarrow> nat \<Rightarrow> nat \<Rightarrow> nat \<times> nat \<times> nat" where
  "sort2 v a b swaps = (if is_less (v ! b) (v ! a) then (b, a, swaps + 1) else (a, b, swaps))"

definition sort3 ::
  "(('k::linorder) \<times> 'r) list \<Rightarrow> nat \<Rightarrow> nat \<Rightarrow> nat \<Rightarrow> nat \<Rightarrow> nat \<times> nat \<times> nat \<times> nat" where
  "sort3 v a b c swaps =
     (let (a, b, swaps) = sort2 v a b swaps;
          (b, c, swaps) = sort2 v b c swaps;
          (a, b, swaps) = sort2 v a b swaps
      in (a, b, c, swaps))"

definition sort_adjacent :: "(('k::linorder) \<times> 'r) list \<Rightarrow> nat \<Rightarrow> nat \<Rightarrow> nat \<times> nat" where
  "sort_adjacent v a swaps =
     (let (_, a, _, swaps) = sort3 v (a - 1) a (a + 1) swaps in (a, swaps))"

definition choose_pivot :: "(('k::linorder) \<times> 'r) list \<Rightarrow> ('k \<times> 'r) list \<times> nat \<times> bool" where
  "choose_pivot v =
     (let len = length v;
          a = len div 4; b = len div 4 * 2; c = len div 4 * 3;
          (b, swaps) =
            (if len \<ge> 8 then
               (let (a, b, c, swaps) =
                      (if len \<ge> SHORTEST_MEDIAN_OF_MEDIANS then
                         (let (a, swaps) = sort_adjacent v a 0;
                              (b, swaps) = sort_adjacent v b swaps;
                              (c, swaps) = sort_adjacent v c swaps
                          in (a, b, c, swaps))
                       else (a, b, c, 0));
                    (a, b, c, swaps) = sort3 v a b c swaps
                in (b, swaps))
             else (b, 0))
      in if swaps < MAX_SWAPS then (v, b, swaps = 0) else (rev v, len - 1 - b, True))"

lemma next_power_of_two_from_spec:
  "0 < p \<Longrightarrow> p < 2 * n \<Longrightarrow> n \<le> next_power_of_two_from p n \<and> next_power_of_two_from p n < 2 * n"
proof (induction p n rule: next_power_of_two_from.induct)
  case (1 p n)
  then show ?case by (subst (1 2) next_power_of_two_from.simps) auto
qed

lemma and_nat_less: "0 < m \<Longrightarrow> (a :: nat) AND (m - 1) < m"
  using AND_upper2 [of "int (m - 1)" "int a"] unfolding and_nat_def by linarith

lemma break_patterns_loop_mset:
  "8 \<le> length v \<Longrightarrow> pos = length v div 4 * 2 \<Longrightarrow> \<forall>i \<in> set is. i < 3 \<Longrightarrow>
    mset (break_patterns_loop is pos random v) = mset v"
proof (induction "is" arbitrary: random v)
  case (Cons i "is")
  obtain g random' where g: "gen_usize random = (g, random')" by force
  define other where "other = unat g AND (next_power_of_two (length v) - 1)"
  define other' where "other' = (if other \<ge> length v then other - length v else other)"
  have npt: "length v \<le> next_power_of_two (length v)" "next_power_of_two (length v) < 2 * length v"
    using next_power_of_two_from_spec [of 1 "length v"] Cons.prems(1) by (simp_all add: next_power_of_two_def)
  then have "other < next_power_of_two (length v)"
    unfolding other_def using Cons.prems(1) by (intro and_nat_less) linarith
  with npt have o: "other' < length v" by (simp add: other'_def) linarith
  have pos: "pos - 1 + i < length v" using Cons.prems by simp linarith
  have "mset (break_patterns_loop is pos random' (swap_at (pos - 1 + i) other' v)) =
      mset (swap_at (pos - 1 + i) other' v)"
    using Cons.prems by (intro Cons.IH) simp_all
  then show ?case
    using mset_swap_at [OF pos o] g
    by (simp only: break_patterns_loop.simps Let_def prod.case other_def [symmetric] other'_def [symmetric])
qed simp

lemma mset_break_patterns [simp]: "mset (break_patterns v) = mset v"
  unfolding break_patterns_def Let_def
  by (simp add: break_patterns_loop_mset del: break_patterns_loop.simps)

lemma length_break_patterns [simp]: "length (break_patterns v) = length v"
  by (metis mset_break_patterns size_mset)

lemma sort3_set: "sort3 v a b c swaps = (a', b', c', swaps') \<Longrightarrow> {a', b', c'} = {a, b, c}"
  by (auto simp: sort3_def sort2_def Let_def split: if_splits)

lemma sort3_median:
  "sort3 v a b c swaps = (a', b', c', swaps') \<Longrightarrow> a < n \<Longrightarrow> b < n \<Longrightarrow> c < n \<Longrightarrow> b' < n"
  using sort3_set by fastforce

lemma sort_adjacent_bound:
  "sort_adjacent v a swaps = (a', swaps') \<Longrightarrow> a + 1 < n \<Longrightarrow> a' < n"
proof -
  assume res: "sort_adjacent v a swaps = (a', swaps')" and n: "a + 1 < n"
  obtain x y z s where s3: "sort3 v (a - 1) a (a + 1) swaps = (x, y, z, s)" by (metis prod.exhaust)
  then have "a' = y" using res by (simp add: sort_adjacent_def)
  then show "a' < n" using sort3_median [OF s3] n by simp
qed

lemma choose_pivot_spec:
  assumes "choose_pivot v = (w, pivot, likely)" "v \<noteq> []"
  shows "mset w = mset v" "pivot < length v"
proof -
  have "mset w = mset v \<and> pivot < length v"
  proof (cases "length v \<ge> 8")
    case False
    moreover have "length v div 4 * 2 < length v" using assms(2) by (cases v) auto
    ultimately show ?thesis using assms(1)
      by (auto simp: choose_pivot_def MAX_SWAPS_def Let_def)
  next
    case True
    let ?q = "length v div 4"
    obtain a sa where a: "sort_adjacent v ?q 0 = (a, sa)" by force
    obtain b sb where b: "sort_adjacent v (?q * 2) sa = (b, sb)" by force
    obtain c sc where c: "sort_adjacent v (?q * 3) sb = (c, sc)" by force
    define abc where "abc = (if length v \<ge> SHORTEST_MEDIAN_OF_MEDIANS then (a, b, c, sc)
      else (?q, ?q * 2, ?q * 3, 0))"
    obtain a' b' c' s' where abc': "abc = (a', b', c', s')" by (metis prod.exhaust)
    have q: "?q + 1 < length v" "?q * 2 + 1 < length v" "?q * 3 + 1 < length v"
      using True by linarith+
    have small: "a' < length v" "b' < length v" "c' < length v"
      using sort_adjacent_bound [OF a q(1)] sort_adjacent_bound [OF b q(2)]
        sort_adjacent_bound [OF c q(3)] q abc' by (auto simp: abc_def split: if_splits)
    obtain x m z n where s3: "sort3 v a' b' c' s' = (x, m, z, n)" by (metis prod.exhaust)
    have m: "m < length v" by (rule sort3_median [OF s3 small])
    have "choose_pivot v = (if n < MAX_SWAPS then (v, m, n = 0) else (rev v, length v - 1 - m, True))"
      using True a b c abc' s3 by (auto simp: choose_pivot_def abc_def Let_def split: if_splits)
    with assms m show ?thesis by (auto split: if_splits)
  qed
  then show "mset w = mset v" "pivot < length v" by auto
qed

section \<open>The recursion\<close>

definition MAX_INSERTION :: nat where
  "MAX_INSERTION = 20"

text \<open>
  The part of an iteration of \<open>recurse\<close> before the partitioning: it may break patterns, chooses the
  pivot and may try a partial insertion sort; the last component says that the slice is sorted.
\<close>

definition recurse_prepare ::
  "(('k::linorder) \<times> 'r) list \<Rightarrow> nat \<Rightarrow> bool \<Rightarrow> bool \<Rightarrow> ('k \<times> 'r) list \<times> nat \<times> nat \<times> bool" where
  "recurse_prepare v limit was_balanced was_partitioned =
     (let (v, limit) = (if \<not> was_balanced then (break_patterns v, limit - 1) else (v, limit));
          (v, pivot, likely_sorted) = choose_pivot v;
          (v, fin) = (if was_balanced \<and> was_partitioned \<and> likely_sorted
                      then partial_insertion_sort v else (v, False))
      in (v, limit, pivot, fin))"

lemma recurse_prepare_spec:
  assumes "recurse_prepare v limit wb wp = (w, limit', pivot, fin)" "v \<noteq> []"
  shows "mset w = mset v" "pivot < length w" "fin \<Longrightarrow> key_sorted w"
proof -
  let ?v = "if \<not> wb then break_patterns v else v"
  have m: "mset ?v = mset v" "length ?v = length v" by simp_all
  then have ne: "?v \<noteq> []" using assms(2) by (metis length_0_conv)
  obtain u p likely where cp: "choose_pivot ?v = (u, p, likely)" by (metis prod.exhaust)
  note cps = choose_pivot_spec [OF cp ne]
  obtain x f where pis: "partial_insertion_sort u = (x, f)" by force
  note piss = partial_insertion_sort_spec [OF pis]
  have w: "w = (if wb \<and> wp \<and> likely then x else u)" "fin \<longleftrightarrow> wb \<and> wp \<and> likely \<and> f" "pivot = p"
    using assms(1) cp pis by (auto simp: recurse_prepare_def Let_def split: if_splits)
  have "mset w = mset v" using w(1) cps(1) piss(1) m(1) by simp
  moreover from this have "length w = length v" by (metis size_mset)
  ultimately show "mset w = mset v" "pivot < length w" using w(3) cps(2) m(2) by simp_all
  show "key_sorted w" if fin using that w piss(2) by simp
qed

lemma length_partition_equal [simp]:
  "length (fst (partition_equal_loop p v l r)) = length v"
proof (induction p v l r rule: partition_equal_loop.induct)
  case (1 p v l r)
  then show ?case by (subst partition_equal_loop.simps) (simp add: Let_def)
qed

lemma partition_equal_shrinks:
  assumes "partition_equal v pivot = (w, mid)" "v \<noteq> []"
  shows "length (drop mid w) < length v"
proof -
  obtain t l where tl: "partition_equal_loop (swap_at 0 pivot v ! 0) (drop 1 (swap_at 0 pivot v)) 0
      (length (drop 1 (swap_at 0 pivot v))) = (t, l)" by force
  then have "length t = length v - 1"
    using length_partition_equal [of "swap_at 0 pivot v ! 0" "drop 1 (swap_at 0 pivot v)" 0] by (metis
      fst_conv length_drop length_swap_at)
  moreover have "w = swap_at 0 pivot v ! 0 # t" "mid = l + 1"
    using assms(1) tl by (auto simp: partition_equal_def Let_def)
  ultimately show ?thesis using assms(2) by (cases v) auto
qed

lemma recurse_shrinks:
  assumes "\<not> length v \<le> MAX_INSERTION" "(w, limit', pivot, fin) = recurse_prepare v limit wb wp"
  shows "(u, mid) = partition_equal w pivot \<Longrightarrow> length u - mid < length v"
    "(u, mid, was_p) = partition_slice w pivot \<Longrightarrow> mid < length v"
    "(u, mid, was_p) = partition_slice w pivot \<Longrightarrow> min (length u) mid < length v"
    "(u, mid, was_p) = partition_slice w pivot \<Longrightarrow> length u - Suc mid < length v"
proof -
  have ne: "v \<noteq> []" using assms(1) by auto
  note spec = recurse_prepare_spec [OF assms(2) [symmetric] ne]
  have len: "length w = length v" using spec(1) by (metis size_mset)
  then have "w \<noteq> []" using ne by auto
  with len show "length u - mid < length v" if "(u, mid) = partition_equal w pivot"
    using partition_equal_shrinks [OF that [symmetric]] by simp
  have "mid < length u \<and> length u = length v" if "(u, mid, was_p) = partition_slice w pivot"
    using partition_spec(1,2) [OF spec(2) that [symmetric]] len by (metis size_mset)
  then show "mid < length v" "min (length u) mid < length v" "length u - Suc mid < length v"
    if "(u, mid, was_p) = partition_slice w pivot"
    using that ne by (simp_all add: min_def)
qed

function recurse_loop ::
  "(('k::linorder) \<times> 'r) list \<Rightarrow> 'k option \<Rightarrow> nat \<Rightarrow> bool \<Rightarrow> bool \<Rightarrow> ('k \<times> 'r) list" where
  "recurse_loop v pred limit was_balanced was_partitioned =
     (if length v \<le> MAX_INSERTION then insertion_sort v
      else if limit = 0 then heapsort v
      else case recurse_prepare v limit was_balanced was_partitioned of (w, limit', pivot, fin) \<Rightarrow>
        if fin then w
        else if (case pred of Some p \<Rightarrow> \<not> p < fst (w ! pivot) | None \<Rightarrow> False)
        then (case partition_equal w pivot of (u, mid) \<Rightarrow>
                take mid u @ recurse_loop (drop mid u) pred limit' was_balanced was_partitioned)
        else (case partition_slice w pivot of (u, mid, was_p) \<Rightarrow>
                if length (take mid u) < length (drop (mid + 1) u)
                then recurse_loop (take mid u) pred limit' True True
                     @ u ! mid # recurse_loop (drop (mid + 1) u) (Some (fst (u ! mid))) limit'
                         (min mid (length v - mid) \<ge> length v div 8) was_p
                else recurse_loop (take mid u) pred limit'
                         (min mid (length v - mid) \<ge> length v div 8) was_p
                     @ u ! mid # recurse_loop (drop (mid + 1) u) (Some (fst (u ! mid))) limit' True True))"
  by pat_completeness auto
termination
  by (relation "measure (\<lambda>(v, pred, limit, wb, wp). length v)")
    (auto intro: recurse_shrinks)

declare recurse_loop.simps [simp del]

definition recurse :: "(('k::linorder) \<times> 'r) list \<Rightarrow> 'k option \<Rightarrow> nat \<Rightarrow> ('k \<times> 'r) list" where
  "recurse v pred limit = recurse_loop v pred limit True True"

fun bit_length :: "nat \<Rightarrow> nat" where
  "bit_length n = (if n = 0 then 0 else Suc (bit_length (n div 2)))"

declare bit_length.simps [simp del]

text \<open>
  \<open>size_t\<close> and \<open>size_r\<close> are the sizes of the two element types; \<open>sort_unstable\<close> is the standard
  library's unstable sort of the keys, called when the payload type has size zero. Its payloads
  are then all equal, so the model moves them with their keys.
\<close>

definition quicksort ::
  "((('k::linorder) \<times> 'r) list \<Rightarrow> ('k \<times> 'r) list) \<Rightarrow> nat \<Rightarrow> nat \<Rightarrow> ('k \<times> 'r) list \<Rightarrow> ('k \<times> 'r) list" where
  "quicksort sort_unstable size_t size_r v =
     (if size_t = 0 then v
      else if size_r = 0 then sort_unstable v
      else recurse v None (bit_length (length v)))"

section \<open>Quicksort sorts\<close>

lemma key_sorted_three:
  assumes "key_sorted a" "key_sorted c" "\<forall>x \<in> set a. fst x \<le> fst p" "\<forall>x \<in> set c. fst p \<le> fst x"
  shows "key_sorted (a @ p # c)"
  using assms by (auto simp: sorted_append intro: order_trans)

lemma key_sorted_const: "\<forall>x \<in> set a. fst x = k \<Longrightarrow> key_sorted a"
  by (induction a) auto

lemma recurse_loop_equal:
  assumes "\<not> length v \<le> MAX_INSERTION" "limit \<noteq> 0"
    "recurse_prepare v limit wb wp = (w, limit', pivot, False)"
    "pred = Some p" "\<not> p < fst (w ! pivot)" "partition_equal w pivot = (u, mid)"
  shows "recurse_loop v pred limit wb wp = take mid u @ recurse_loop (drop mid u) pred limit' wb wp"
  using assms by (subst recurse_loop.simps) simp

lemma recurse_loop_split:
  assumes "\<not> length v \<le> MAX_INSERTION" "limit \<noteq> 0"
    "recurse_prepare v limit wb wp = (w, limit', pivot, False)"
    "\<not> (case pred of Some p \<Rightarrow> \<not> p < fst (w ! pivot) | None \<Rightarrow> False)"
    "partition_slice w pivot = (u, mid, was_p)"
  obtains a b c d where "recurse_loop v pred limit wb wp =
      recurse_loop (take mid u) pred limit' a b @
      u ! mid # recurse_loop (drop (Suc mid) u) (Some (fst (u ! mid))) limit' c d"
proof (cases "length (take mid u) < length (drop (mid + 1) u)")
  case True
  then have "recurse_loop v pred limit wb wp = recurse_loop (take mid u) pred limit' True True
      @ u ! mid # recurse_loop (drop (Suc mid) u) (Some (fst (u ! mid))) limit'
          (min mid (length v - mid) \<ge> length v div 8) was_p"
    using assms by (subst recurse_loop.simps) (simp del: length_take length_drop)
  then show thesis by (rule that)
next
  case False
  then have "recurse_loop v pred limit wb wp = recurse_loop (take mid u) pred limit'
          (min mid (length v - mid) \<ge> length v div 8) was_p
      @ u ! mid # recurse_loop (drop (Suc mid) u) (Some (fst (u ! mid))) limit' True True"
    using assms by (subst recurse_loop.simps) (simp del: length_take length_drop)
  then show thesis by (rule that)
qed

lemma recurse_loop_sorts:
  assumes "\<And>p x. pred = Some p \<Longrightarrow> x \<in> set v \<Longrightarrow> p \<le> fst x"
  shows "key_sorted (recurse_loop v pred limit wb wp) \<and> mset (recurse_loop v pred limit wb wp) = mset v"
  using assms
proof (induction "length v" arbitrary: v pred limit wb wp rule: less_induct)
  case less
  obtain w limit' pivot fin where prep: "recurse_prepare v limit wb wp = (w, limit', pivot, fin)"
    by (metis prod.exhaust)
  consider (small) "length v \<le> MAX_INSERTION" | (heap) "\<not> length v \<le> MAX_INSERTION" "limit = 0"
    | (fin) "\<not> length v \<le> MAX_INSERTION" "limit \<noteq> 0" fin
    | (rest) "\<not> length v \<le> MAX_INSERTION" "limit \<noteq> 0" "\<not> fin" by blast
  then show ?case
  proof cases
    case small
    then have "recurse_loop v pred limit wb wp = insertion_sort v" by (subst recurse_loop.simps) simp
    then show ?thesis by (simp add: insertion_sort_sorts)
  next
    case heap
    then have "recurse_loop v pred limit wb wp = heapsort v" by (subst recurse_loop.simps) simp
    then show ?thesis by (simp add: heapsort_sorts)
  next
    case fin
    then have "v \<noteq> []" by auto
    moreover have "recurse_loop v pred limit wb wp = w"
      using fin prep by (subst recurse_loop.simps) simp
    ultimately show ?thesis using recurse_prepare_spec [OF prep] fin by simp
  next
    case rest
    then have ne: "v \<noteq> []" by auto
    note ps = recurse_prepare_spec [OF prep ne]
    have setw: "set w = set v" using ps(1) by (metis set_mset_mset)
    have prep': "recurse_prepare v limit wb wp = (w, limit', pivot, False)" using prep rest(3) by simp
    note shrink = recurse_shrinks [OF rest(1) prep [symmetric]]
    show ?thesis
    proof (cases "case pred of Some p \<Rightarrow> \<not> p < fst (w ! pivot) | None \<Rightarrow> False")
      case True
      then obtain p where p: "pred = Some p" "\<not> p < fst (w ! pivot)" by (auto split: option.splits)
      obtain u mid where u: "partition_equal w pivot = (u, mid)" by force
      have pm: "p \<le> fst x" if "x \<in> set w" for x using less.prems [OF p(1)] that setw by simp
      then have pk: "fst (w ! pivot) = p" using p(2) ps(2) by (meson antisym_conv3 leD nth_mem)
      then have least: "\<forall>x \<in> set w. fst (w ! pivot) \<le> fst x" using pm by simp
      note pe = partition_equal_spec [OF ps(2) u least]
      let ?r = "recurse_loop (drop mid u) pred limit' wb wp"
      have IH: "key_sorted ?r \<and> mset ?r = mset (drop mid u)"
      proof (rule less.hyps)
        show "length (drop mid u) < length v" using shrink(1) [OF u [symmetric]] by simp
        show "q \<le> fst x" if "pred = Some q" "x \<in> set (drop mid u)" for q x
          using that pe(5) p(1) pk by fastforce
      qed
      have setr: "set ?r = set (drop mid u)" using IH by (metis set_mset_mset)
      have "key_sorted (take mid u @ ?r)"
        using IH setr key_sorted_const [OF pe(4)] pe(4,5)
        unfolding map_append sorted_append by (auto intro: less_imp_le)
      moreover have "mset (take mid u @ ?r) = mset v" using IH pe(1) ps(1) by simp
      ultimately show ?thesis using recurse_loop_equal [OF rest(1,2) prep' p u] by simp
    next
      case False
      obtain u mid was_p where u: "partition_slice w pivot = (u, mid, was_p)" by (metis prod.exhaust)
      note pt = partition_spec [OF ps(2) u]
      have setu: "set u = set v" using pt(1) setw by (metis set_mset_mset)
      obtain a b c d where eq: "recurse_loop v pred limit wb wp =
          recurse_loop (take mid u) pred limit' a b @
          u ! mid # recurse_loop (drop (Suc mid) u) (Some (fst (u ! mid))) limit' c d"
        by (rule recurse_loop_split [OF rest(1,2) prep' False u])
      let ?l = "recurse_loop (take mid u) pred limit' a b"
      let ?r = "recurse_loop (drop (Suc mid) u) (Some (fst (u ! mid))) limit' c d"
      have L: "key_sorted ?l \<and> mset ?l = mset (take mid u)"
        using shrink(3) [OF u [symmetric]] less.prems setu in_set_takeD [of _ mid u]
        by (intro less.hyps) auto
      have R: "key_sorted ?r \<and> mset ?r = mset (drop (Suc mid) u)"
        using shrink(4) [OF u [symmetric]] pt(4) by (intro less.hyps) auto
      have sets: "set ?l = set (take mid u)" "set ?r = set (drop (Suc mid) u)"
        using L R by (metis set_mset_mset)+
      have "key_sorted (?l @ u ! mid # ?r)"
        using L R pt(3,4) unfolding sets [symmetric]
        by (intro key_sorted_three) (auto intro: less_imp_le)
      moreover have "mset (?l @ u ! mid # ?r) = mset v"
        using L R pt(1) ps(1) id_take_nth_drop [OF pt(2)] by (metis mset.simps(2) mset_append)
      ultimately show ?thesis unfolding eq by blast
    qed
  qed
qed

lemma recurse_sorts: "key_sorted (recurse v None limit)" "mset (recurse v None limit) = mset v"
  using recurse_loop_sorts [of None v limit True True] by (simp_all add: recurse_def)

section \<open>The contract of a key sort\<close>

text \<open>
  What the clients of a sort rely on: the result is a permutation of the input, in the order of the
  keys. Nothing is promised about elements with equal keys.
\<close>

locale key_sort =
  fixes sortf :: "(('k::linorder) \<times> 'r) list \<Rightarrow> ('k \<times> 'r) list"
  assumes sort_permutes: "mset (sortf v) = mset v"
    and sort_orders: "key_sorted (sortf v)"
begin

lemma sort_set: "set (sortf v) = set v"
  using sort_permutes by (metis set_mset_mset)

lemma sort_length: "length (sortf v) = length v"
  using sort_permutes by (metis size_mset)

lemma sort_keys: "map fst (sortf v) = sort (map fst v)"
  by (rule properties_for_sort [symmetric]) (simp_all add: sort_orders sort_permutes)

lemma sort_Nil: "sortf [] = []"
  using sort_length [of "[]"] by simp

end

interpretation ins: key_sort insertion_sort
  by unfold_locales (simp_all add: insertion_sort_sorts)

interpretation heap: key_sort heapsort
  by unfold_locales (simp_all add: heapsort_sorts)

interpretation pdq: key_sort "\<lambda>v. recurse v None limit" for limit
  by unfold_locales (simp_all add: recurse_sorts)

interpretation std: key_sort "sort_key fst"
  by unfold_locales simp_all

lemma quicksort_key_sort:
  assumes "key_sort sort_unstable" "size_t = 0 \<Longrightarrow> \<forall>x \<in> set v. \<forall>y \<in> set v. fst x = fst y"
  shows "mset (quicksort sort_unstable size_t size_r v) = mset v"
    "key_sorted (quicksort sort_unstable size_t size_r v)"
proof -
  show "mset (quicksort sort_unstable size_t size_r v) = mset v"
    using key_sort.sort_permutes [OF assms(1)] by (simp add: quicksort_def recurse_sorts)
  have "key_sorted v" if "size_t = 0"
  proof (cases v)
    case (Cons x xs)
    then have "\<forall>y \<in> set v. fst y = fst x"
      using assms(2) [OF that] by (metis list.set_intros(1))
    then show ?thesis by (rule key_sorted_const)
  qed simp
  then show "key_sorted (quicksort sort_unstable size_t size_r v)"
    using key_sort.sort_orders [OF assms(1)] by (simp add: quicksort_def recurse_sorts)
qed

section \<open>Properties\<close>

text \<open>
  C12: \<open>quicksort\<close> over paired slices returns a permutation of the pairs in the order of the keys, on
  every branch of the pattern-defeating algorithm and for zero-sized types. The standard
  library's sort is used for zero-sized payloads only; keys of a zero-sized type are all equal.
\<close>

theorem quicksort_sorts_pairs:
  assumes "key_sort sort_unstable" "size_t = 0 \<Longrightarrow> \<forall>x \<in> set v. \<forall>y \<in> set v. fst x = fst y"
  shows "mset (quicksort sort_unstable size_t size_r v) = mset v \<and>
    map fst (quicksort sort_unstable size_t size_r v) = sort (map fst v)"
proof
  show m: "mset (quicksort sort_unstable size_t size_r v) = mset v"
    by (rule quicksort_key_sort(1) [OF assms])
  show "map fst (quicksort sort_unstable size_t size_r v) = sort (map fst v)"
    using m quicksort_key_sort(2) [OF assms] by (intro properties_for_sort [symmetric]) simp_all
qed

theorem quicksort_sorts_pairs_witness:
  "mset (quicksort (sort_key fst) 8 8 [(3 :: nat, 7 :: int), (1, 9), (2, 8)]) = mset [(3, 7), (1, 9), (2, 8)] \<and>
    map fst (quicksort (sort_key fst) 8 8 [(3 :: nat, 7 :: int), (1, 9), (2, 8)]) = [1, 2, 3]"
  using quicksort_sorts_pairs [OF std.key_sort_axioms, of 8 "[(3 :: nat, 7 :: int), (1, 9), (2, 8)]" 8]
  by simp

text \<open>
  The recursion of the quicksort sorts whatever its limit on imbalanced partitions is, so the
  limit bounds only the work: for every limit the result has the keys of the library sort.
\<close>

theorem recurse_limit_irrelevant:
  "mset (recurse v None limit) = mset v \<and> map fst (recurse v None limit) = map fst (heapsort v) \<and>
    map fst (recurse v None limit) = map fst (insertion_sort v)"
  using pdq.sort_keys [where v = v and limit = limit] heap.sort_keys [of v] ins.sort_keys [of v]
  by (simp add: recurse_sorts)

text \<open>
  A partition around a chosen pivot index is a permutation, with the pivot's key at the returned
  index, only smaller keys before it and only greater or equal keys behind it.
\<close>

theorem partition_slice_splits:
  assumes "pivot < length v" "partition_slice v pivot = (w, mid, was_p)"
  shows "mset w = mset v \<and> mid < length w \<and> fst (w ! mid) = fst (v ! pivot) \<and>
    list_all (\<lambda>x. fst x < fst (v ! pivot)) (take mid w) \<and>
    list_all (\<lambda>x. fst (v ! pivot) \<le> fst x) (drop (Suc mid) w)"
  using partition_spec [OF assms] by (simp add: list_all_iff)

theorem partition_slice_splits_witness:
  "case partition_slice [(5 :: nat, 0 :: int), (1, 1), (7, 2), (3, 3)] 0 of (w, mid, was_p) \<Rightarrow>
     mset w = mset [(5, 0), (1, 1), (7, 2), (3, 3)] \<and> mid < length w \<and> fst (w ! mid) = 5"
proof -
  obtain w mid was_p where r: "partition_slice [(5 :: nat, 0 :: int), (1, 1), (7, 2), (3, 3)] 0 = (w, mid, was_p)"
    by (metis prod.exhaust)
  from partition_slice_splits [OF _ r] show ?thesis unfolding r by simp
qed

end
