(* ===== verification/Lean_Vec.thy ===== *)
theory Lean_Vec
  imports Prelude
begin

text \<open>
  \<open>RawVec\<close>, the type-erased vector under \<open>LeanVec\<close> (\<open>crates/dbsp/src/dynamic/lean_vec.rs\<close>), and the
  paired-vector variants of \<open>dedup\<close> and \<open>retain\<close> of \<open>crates/dbsp/src/utils/consolidation/utils.rs\<close>.
  The initialised elements are a list, whose length is the field \<open>length\<close>; a pointer is an element
  index, so an address \<open>ptr + idx * val_size\<close> of the source is the index \<open>idx\<close>. Allocation itself is
  not modelled, only the capacity it is asked for. Sizes are natural numbers: the source's
  additions and multiplications on \<open>usize\<close> are exact as long as the allocation they describe exists.
\<close>

section \<open>Definitions\<close>

record 'a raw_vec =
  rv_elems :: "'a list"
  rv_capacity :: nat
  rv_val_size :: nat
  rv_align :: nat

definition usize_max :: nat where
  "usize_max = 2 ^ 64 - 1"

definition raw_vec_new :: "nat \<Rightarrow> nat \<Rightarrow> 'a raw_vec" where
  "raw_vec_new val_size align =
     \<lparr> rv_elems = [], rv_capacity = (if val_size = 0 then usize_max else 0),
       rv_val_size = val_size, rv_align = align \<rparr>"



definition next_capacity :: "'a raw_vec \<Rightarrow> nat \<Rightarrow> nat" where
  "next_capacity rv capacity =
     (let sz = rv_val_size rv
      in if capacity = 0 then max (128 div sz) 1
         else if capacity > (4096 * 32) div sz then capacity * 2
         else (capacity * 3 + 1) div 2)"

definition next_aligned_capacity :: "'a raw_vec \<Rightarrow> nat \<Rightarrow> nat" where
  "next_aligned_capacity rv capacity =
     (let remaining = capacity mod rv_align rv
      in if remaining = 0 then capacity else capacity + (rv_align rv - remaining))"

definition realloc :: "nat \<Rightarrow> 'a raw_vec \<Rightarrow> 'a raw_vec" where
  "realloc new_capacity rv =
     (if new_capacity = rv_capacity rv then rv else rv\<lparr> rv_capacity := new_capacity \<rparr>)"

lemma next_capacity_grows: "0 < capacity \<Longrightarrow> capacity < next_capacity rv capacity"
  by (auto simp: next_capacity_def Let_def)

text \<open>The loop of \<open>reserve\<close>; it is entered with a capacity above zero.\<close>

function reserve_loop :: "'a raw_vec \<Rightarrow> nat \<Rightarrow> nat \<Rightarrow> nat" where
  "reserve_loop rv required new_capacity =
     (if 0 < new_capacity \<and> new_capacity < required
      then reserve_loop rv required (next_capacity rv new_capacity) else new_capacity)"
  by pat_completeness auto
termination
  by (relation "measure (\<lambda>(rv, required, new_capacity). required - new_capacity)")
    (auto dest: next_capacity_grows intro: diff_less_mono2)

declare reserve_loop.simps [simp del]

definition reserve :: "nat \<Rightarrow> 'a raw_vec \<Rightarrow> 'a raw_vec" where
  "reserve additional rv =
     (let required = length (rv_elems rv) + additional
      in if required \<le> rv_capacity rv then rv
         else realloc (reserve_loop rv required (next_capacity rv required)) rv)"

definition reserve_exact :: "nat \<Rightarrow> 'a raw_vec \<Rightarrow> 'a raw_vec" where
  "reserve_exact additional rv =
     (let required = length (rv_elems rv) + additional
      in if required \<le> rv_capacity rv then rv else realloc required rv)"

definition raw_vec_with_capacity :: "nat \<Rightarrow> nat \<Rightarrow> nat \<Rightarrow> 'a raw_vec" where
  "raw_vec_with_capacity val_size align capacity =
     reserve_exact capacity (raw_vec_new val_size align)"


definition raw_index :: "'a raw_vec \<Rightarrow> nat \<Rightarrow> 'a option" where
  "raw_index rv idx = (if idx < length (rv_elems rv) then Some (rv_elems rv ! idx) else None)"






datatype bound = Included nat | Excluded nat | Unbounded

definition overflowing_add1 :: "nat \<Rightarrow> nat \<times> bool" where
  "overflowing_add1 n = (if n \<ge> usize_max then (0, True) else (n + 1, False))"

definition range_inner :: "'a raw_vec \<Rightarrow> bound \<Rightarrow> bound \<Rightarrow> 'a list option" where
  "range_inner rv start_bound end_bound =
     (let (start, start_overflowed) =
            (case start_bound of Included s \<Rightarrow> (s, False) | Excluded s \<Rightarrow> overflowing_add1 s
             | Unbounded \<Rightarrow> (0, False));
          (fin, end_overflowed) =
            (case end_bound of Included e \<Rightarrow> overflowing_add1 e | Excluded e \<Rightarrow> (e, False)
             | Unbounded \<Rightarrow> (length (rv_elems rv), False))
      in if \<not> start_overflowed \<and> \<not> end_overflowed \<and> start \<le> fin \<and> fin \<le> length (rv_elems rv)
         then Some (subslice (rv_elems rv) start fin) else None)"

fun raw_cmp_loop :: "('a \<Rightarrow> 'a \<Rightarrow> ordering) \<Rightarrow> nat list \<Rightarrow> 'a list \<Rightarrow> 'a list \<Rightarrow> ordering" where
  "raw_cmp_loop cmp [] xs ys =
     (if length xs < length ys then Less else if length xs = length ys then Equal else Greater)"
| "raw_cmp_loop cmp (i # is) xs ys =
     (let ordering = cmp (xs ! i) (ys ! i)
      in if ordering \<noteq> Equal then ordering else raw_cmp_loop cmp is xs ys)"

definition raw_cmp :: "('a \<Rightarrow> 'a \<Rightarrow> ordering) \<Rightarrow> 'a raw_vec \<Rightarrow> 'a raw_vec \<Rightarrow> ordering" where
  "raw_cmp cmp rv other =
     raw_cmp_loop cmp [0..<min (length (rv_elems rv)) (length (rv_elems other))]
       (rv_elems rv) (rv_elems other)"

fun sorted_by_loop :: "('a \<Rightarrow> 'a \<Rightarrow> ordering) \<Rightarrow> 'a \<Rightarrow> 'a list \<Rightarrow> bool" where
  "sorted_by_loop cmp lst [] = True"
| "sorted_by_loop cmp lst (x # xs) =
     (if cmp lst x = Greater then False else sorted_by_loop cmp x xs)"

definition is_sorted_by :: "('a \<Rightarrow> 'a \<Rightarrow> ordering) \<Rightarrow> 'a raw_vec \<Rightarrow> bool" where
  "is_sorted_by cmp rv =
     (case rv_elems rv of [] \<Rightarrow> True | x # xs \<Rightarrow> sorted_by_loop cmp x xs)"

text \<open>
  The in-place loops. \<open>same_bucket\<close> may change both elements it looks at, so it returns its verdict
  with the new read element and the new previous element. The guards that repair the vector when
  a closure panics are not modelled, as the closures of the callers do not panic.
\<close>

function dedup_loop ::
  "('a \<Rightarrow> 'a \<Rightarrow> bool \<times> 'a \<times> 'a) \<Rightarrow> nat \<Rightarrow> nat \<Rightarrow> 'a list \<Rightarrow> 'a list" where
  "dedup_loop same_bucket read write v =
     (if read < length v then
        (case same_bucket (v ! read) (v ! (write - 1)) of (dup, x, p) \<Rightarrow>
           let v = v[read := x, write - 1 := p]
           in if dup then dedup_loop same_bucket (read + 1) write v
              else dedup_loop same_bucket (read + 1) (write + 1) (v[write := v ! read]))
      else take write v)"
  by pat_completeness auto
termination
  by (relation "measure (\<lambda>(same_bucket, read, write, v). length v - read)") auto

declare dedup_loop.simps [simp del]

definition dedup_elems ::
  "nat \<Rightarrow> ('a \<Rightarrow> 'a \<Rightarrow> bool \<times> 'a \<times> 'a) \<Rightarrow> 'a list \<Rightarrow> 'a list" where
  "dedup_elems starting_point same_bucket v =
     (if length v \<le> 1 \<or> starting_point + 1 \<ge> length v then v
      else dedup_loop same_bucket (starting_point + 1) (starting_point + 1) v)"

definition dedup_starting_at ::
  "nat \<Rightarrow> ('a \<Rightarrow> 'a \<Rightarrow> bool \<times> 'a \<times> 'a) \<Rightarrow> 'a raw_vec \<Rightarrow> 'a raw_vec" where
  "dedup_starting_at starting_point same_bucket rv =
     rv\<lparr> rv_elems := dedup_elems starting_point same_bucket (rv_elems rv) \<rparr>"

function process_loop ::
  "bool \<Rightarrow> ('a \<Rightarrow> bool) \<Rightarrow> nat \<Rightarrow> nat \<Rightarrow> 'a list \<Rightarrow> nat \<times> nat \<times> 'a list" where
  "process_loop deleted f processed_len deleted_cnt v =
     (if processed_len < length v then
        if \<not> f (v ! processed_len) then
          if deleted then process_loop deleted f (processed_len + 1) (deleted_cnt + 1) v
          else (processed_len + 1, deleted_cnt + 1, v)
        else if deleted
        then process_loop deleted f (processed_len + 1) deleted_cnt
               (v[processed_len - deleted_cnt := v ! processed_len])
        else process_loop deleted f (processed_len + 1) deleted_cnt v
      else (processed_len, deleted_cnt, v))"
  by pat_completeness auto
termination
  by (relation "measure (\<lambda>(deleted, f, processed_len, deleted_cnt, v). length v - processed_len)") auto

declare process_loop.simps [simp del]

text \<open>
  At the end every element is processed, so the guard \<open>BackshiftOnDrop\<close> moves nothing and sets the
  length.
\<close>

definition retain_elems :: "nat \<Rightarrow> ('a \<Rightarrow> bool) \<Rightarrow> 'a list \<Rightarrow> 'a list" where
  "retain_elems starting_point f v =
     (if v = [] \<or> starting_point \<ge> length v then v
      else (let (processed_len, deleted_cnt, v) = process_loop False f starting_point 0 v;
                (processed_len, deleted_cnt, v) = process_loop True f processed_len deleted_cnt v
            in take (length v - deleted_cnt) v))"

definition retain_starting_at :: "nat \<Rightarrow> ('a \<Rightarrow> bool) \<Rightarrow> 'a raw_vec \<Rightarrow> 'a raw_vec" where
  "retain_starting_at starting_point f rv =
     rv\<lparr> rv_elems := retain_elems starting_point f (rv_elems rv) \<rparr>"

text \<open>
  The paired variants run the same loops over two vectors of equal lengths, here a list of pairs;
  they assert that the lengths agree.
\<close>

definition dedup_payload_starting_at ::
  "('k \<times> 'r \<Rightarrow> 'k \<times> 'r \<Rightarrow> bool \<times> ('k \<times> 'r) \<times> ('k \<times> 'r)) \<Rightarrow> nat \<Rightarrow> 'k list \<Rightarrow> 'r list
    \<Rightarrow> ('k list \<times> 'r list) option" where
  "dedup_payload_starting_at same_bucket starting_point keys payload =
     (if length payload = length keys
      then (let v = dedup_elems starting_point same_bucket (zip keys payload)
            in Some (map fst v, map snd v))
      else None)"

definition retain_payload_starting_at ::
  "('k \<times> 'r \<Rightarrow> bool) \<Rightarrow> nat \<Rightarrow> 'k list \<Rightarrow> 'r list \<Rightarrow> ('k list \<times> 'r list) option" where
  "retain_payload_starting_at retain starting_point keys payload =
     (if length keys = length payload
      then (let v = retain_elems starting_point retain (zip keys payload)
            in Some (map fst v, map snd v))
      else None)"

section \<open>Capacity\<close>



lemma reserve_elems [simp]: "rv_elems (reserve n rv) = rv_elems rv"
  by (simp add: reserve_def realloc_def Let_def)

lemma reserve_exact_elems [simp]: "rv_elems (reserve_exact n rv) = rv_elems rv"
  by (simp add: reserve_exact_def realloc_def Let_def)



section \<open>Deduplication and retention against their list functions\<close>

fun dedup_adjacent :: "('a \<Rightarrow> 'a \<Rightarrow> bool \<times> 'a \<times> 'a) \<Rightarrow> 'a \<Rightarrow> 'a list \<Rightarrow> 'a list" where
  "dedup_adjacent same_bucket prev [] = [prev]"
| "dedup_adjacent same_bucket prev (x # xs) =
     (case same_bucket x prev of (dup, x, prev) \<Rightarrow>
        if dup then dedup_adjacent same_bucket prev xs
        else prev # dedup_adjacent same_bucket x xs)"

lemma dedup_loop_adjacent:
  assumes "0 < wr" "wr \<le> read" "read \<le> length v"
  shows "dedup_loop same_bucket read wr v =
    take (wr - 1) v @ dedup_adjacent same_bucket (v ! (wr - 1)) (drop read v)"
  using assms
proof (induction same_bucket read wr v rule: dedup_loop.induct)
  case (1 same_bucket read wr v)
  show ?case
  proof (cases "read < length v")
    case False
    then have "dedup_loop same_bucket read wr v = take wr v" by (subst dedup_loop.simps) simp
    also have "\<dots> = take (wr - 1) v @ [v ! (wr - 1)]"
      using "1.prems" False take_Suc_conv_app_nth [of "wr - 1" v] by simp
    finally show ?thesis using False by simp
  next
    case True
    obtain dup x p where sb: "same_bucket (v ! read) (v ! (wr - 1)) = (dup, x, p)"
      by (metis prod.exhaust)
    let ?u = "v[read := x, wr - 1 := p]"
    have dr: "drop read v = v ! read # drop (read + 1) v" using True by (simp add: Cons_nth_drop_Suc)
    have u: "?u ! (wr - 1) = p" "take (wr - 1) ?u = take (wr - 1) v"
      "drop (read + 1) ?u = drop (read + 1) v" "?u ! read = x"
      using "1.prems" True by auto
    show ?thesis
    proof (cases dup)
      case True
      with sb \<open>read < length v\<close>
      have "dedup_loop same_bucket read wr v = dedup_loop same_bucket (read + 1) wr ?u"
        by (subst dedup_loop.simps) simp
      also have "\<dots> = take (wr - 1) ?u @ dedup_adjacent same_bucket (?u ! (wr - 1)) (drop (read + 1) ?u)"
        using "1.IH"(1) [OF \<open>read < length v\<close> sb [symmetric] refl refl] True "1.prems"
          \<open>read < length v\<close> by simp
      finally show ?thesis using u sb True by (simp add: dr)
    next
      case False
      let ?w = "?u[wr := ?u ! read]"
      have w: "take wr ?w = take (wr - 1) v @ [p]" "?w ! wr = x"
        "drop (read + 1) ?w = drop (read + 1) v"
        using "1.prems" True u take_Suc_conv_app_nth [of "wr - 1" ?u] by simp_all
      from False sb True
      have "dedup_loop same_bucket read wr v = dedup_loop same_bucket (read + 1) (wr + 1) ?w"
        by (subst dedup_loop.simps) (simp add: Let_def)
      also have "\<dots> = take wr ?w @ dedup_adjacent same_bucket (?w ! wr) (drop (read + 1) ?w)"
        using "1.IH"(2) [OF True sb [symmetric] refl refl] False "1.prems" True by simp
      finally show ?thesis using w sb False by (simp add: dr)
    qed
  qed
qed

lemma dedup_elems_adjacent:
  "start < length v \<Longrightarrow>
    dedup_elems start same_bucket v = take start v @ dedup_adjacent same_bucket (v ! start) (drop (start + 1) v)"
proof (cases "start + 1 < length v")
  case False
  assume "start < length v"
  with False have "length v = Suc start" by simp
  then show ?thesis
    using take_Suc_conv_app_nth [of start v] by (simp add: dedup_elems_def)
qed (simp add: dedup_elems_def dedup_loop_adjacent)

lemma process_loop_kept:
  assumes "process_loop False f p 0 v = (q, d, w)" "p \<le> length v"
  shows "w = v \<and> d \<le> q \<and> q \<le> length v \<and> (d = 0 \<longrightarrow> q = length v) \<and>
    take (q - d) v @ filter f (drop q v) = take p v @ filter f (drop p v)"
  using assms
proof (induction "length v - p" arbitrary: p)
  case 0
  then show ?case by (subst (asm) process_loop.simps) simp
next
  case (Suc n)
  have p: "p < length v" using Suc.hyps(2) by linarith
  then have dp: "drop p v = v ! p # drop (Suc p) v" by (simp add: Cons_nth_drop_Suc)
  show ?case
  proof (cases "f (v ! p)")
    case True
    with Suc.prems p have "process_loop False f (p + 1) 0 v = (q, d, w)"
      by (subst (asm) process_loop.simps) simp
    from Suc.hyps(1) [OF _ this] Suc.hyps(2) p True show ?thesis
      by (simp add: dp take_Suc_conv_app_nth)
  next
    case False
    with Suc.prems p have "q = p + 1" "d = 1" "w = v"
      by (subst (asm) process_loop.simps, simp)+
    with False p show ?thesis by (simp add: dp)
  qed
qed

lemma process_loop_moved:
  assumes "process_loop True f p d v = (q, e, w)" "p \<le> length v" "0 < d" "d \<le> p"
  shows "length w = length v \<and> take (length v - e) w = take (p - d) v @ filter f (drop p v)"
  using assms
proof (induction "length v - p" arbitrary: p d v)
  case 0
  then show ?case by (subst (asm) process_loop.simps) simp
next
  case (Suc n)
  have p: "p < length v" using Suc.hyps(2) by linarith
  then have dp: "drop p v = v ! p # drop (Suc p) v" by (simp add: Cons_nth_drop_Suc)
  show ?case
  proof (cases "f (v ! p)")
    case True
    let ?v = "v[p - d := v ! p]"
    from True Suc.prems p have res: "process_loop True f (p + 1) d ?v = (q, e, w)"
      by (subst (asm) process_loop.simps) simp
    have "take (Suc (p - d)) ?v = take (p - d) v @ [v ! p]"
      using p Suc.prems by (subst take_Suc_conv_app_nth) auto
    with Suc.hyps(1) [of ?v "p + 1" d, OF _ res] Suc.hyps(2) p True Suc.prems show ?thesis
      by (simp add: dp Suc_diff_le)
  next
    case False
    with Suc.prems p have res: "process_loop True f (p + 1) (d + 1) v = (q, e, w)"
      by (subst (asm) process_loop.simps) simp
    from Suc.hyps(1) [of v "p + 1" "d + 1", OF _ res] Suc.hyps(2) p False Suc.prems show ?thesis
      by (simp add: dp)
  qed
qed

lemma retain_elems_filter: "retain_elems start f v = take start v @ filter f (drop start v)"
proof (cases "start < length v")
  case True
  obtain q d w where one: "process_loop False f start 0 v = (q, d, w)" by (metis prod.exhaust)
  obtain q' e u where two: "process_loop True f q d w = (q', e, u)" by (metis prod.exhaust)
  from True one two have res: "retain_elems start f v = take (length u - e) u"
    by (auto simp: retain_elems_def)
  have kept: "w = v" "d \<le> q" "q \<le> length v" "d = 0 \<Longrightarrow> q = length v"
    "take (q - d) v @ filter f (drop q v) = take start v @ filter f (drop start v)"
    using process_loop_kept [OF one] True by auto
  show ?thesis
  proof (cases "d = 0")
    case True
    then have "process_loop True f q d w = (q, 0, v)"
      using kept by (subst process_loop.simps) simp
    with two res True kept show ?thesis by simp
  next
    case False
    then show ?thesis using process_loop_moved [OF two] kept res by simp
  qed
qed (simp add: retain_elems_def)

section \<open>The other operations\<close>

lemma range_inner_slice:
  "range_inner rv (Included lo) (Excluded hi) =
     (if lo \<le> hi \<and> hi \<le> length (rv_elems rv) then Some (subslice (rv_elems rv) lo hi) else None)"
  by (simp add: range_inner_def)

lemma next_aligned_capacity_spec:
  assumes "0 < rv_align rv"
  shows "rv_align rv dvd next_aligned_capacity rv n" "n \<le> next_aligned_capacity rv n"
    "next_aligned_capacity rv n < n + rv_align rv"
proof -
  let ?a = "rv_align rv"
  have lt: "n mod ?a < ?a" using assms by simp
  have "n + (?a - n mod ?a) = n div ?a * ?a + ?a"
    using lt div_mult_mod_eq [of n ?a] by linarith
  then show "?a dvd next_aligned_capacity rv n"
    by (simp add: next_aligned_capacity_def Let_def mod_eq_0_iff_dvd)
  have "next_aligned_capacity rv n = (if n mod ?a = 0 then n else n + (?a - n mod ?a))"
    by (simp only: next_aligned_capacity_def Let_def)
  then have "next_aligned_capacity rv n = n \<or>
      n mod ?a \<noteq> 0 \<and> next_aligned_capacity rv n = n + (?a - n mod ?a)"
    by presburger
  then show "n \<le> next_aligned_capacity rv n" "next_aligned_capacity rv n < n + ?a"
    using lt by linarith+
qed




section \<open>Properties\<close>

text \<open>
  C22: the in-place loop of \<open>dedup_starting_at\<close> leaves the elements before its starting point alone and
  on the rest is the one-pass list function that compares every element with the last one kept.
\<close>

theorem dedup_starting_at_reference:
  assumes "start < length (rv_elems rv)"
  shows "rv_elems (dedup_starting_at start same_bucket rv) =
    take start (rv_elems rv) @
    dedup_adjacent same_bucket (rv_elems rv ! start) (drop (start + 1) (rv_elems rv))"
  using assms by (simp add: dedup_starting_at_def dedup_elems_adjacent)

theorem dedup_starting_at_reference_witness:
  "rv_elems (dedup_starting_at 1 (\<lambda>x y. (x = y, x, y))
     \<lparr> rv_elems = [4, 4, 4, 5, 5, 4 :: nat], rv_capacity = 8, rv_val_size = 8, rv_align = 8 \<rparr>) = [4, 4, 5, 4]"
  using dedup_starting_at_reference [of 1 "\<lparr> rv_elems = [4, 4, 4, 5, 5, 4 :: nat], rv_capacity = 8,
      rv_val_size = 8, rv_align = 8 \<rparr>" "\<lambda>x y. (x = y, x, y)"] by simp

text \<open>
  C23: the two-stage in-place loop of \<open>retain_starting_at\<close> is a filter of the elements from the starting
  point on, also when nothing or everything is removed.
\<close>

theorem retain_starting_at_filters:
  "rv_elems (retain_starting_at start f rv) =
     take start (rv_elems rv) @ filter f (drop start (rv_elems rv))"
  by (simp add: retain_starting_at_def retain_elems_filter)



end
