(* ===== verification/Consolidation.thy ===== *)
theory Consolidation
  imports Quicksort Lean_Vec
begin

text \<open>
  \<open>crates/dbsp/src/utils/consolidation.rs\<close>: the routines that bring a batch of weighted records to
  its canonical form, with every key once, in order, and no zero weight. The weights are any
  commutative monoid (\<open>MonoidValue\<close>). \<open>sort_unstable\<close> is the unstable sort of the standard library,
  of which only the contract \<open>key_sort\<close> is used. A panic is \<open>None\<close>.
\<close>

section \<open>Definitions\<close>

definition merge_bucket ::
  "'k \<times> ('r::comm_monoid_add) \<Rightarrow> 'k \<times> 'r \<Rightarrow> bool \<times> ('k \<times> 'r) \<times> ('k \<times> 'r)" where
  "merge_bucket x y =
     (if fst x = fst y then (True, (fst x, 0), (fst y, snd y + snd x)) else (False, x, y))"

definition nonzero_weight :: "'k \<times> ('r::comm_monoid_add) \<Rightarrow> bool" where
  "nonzero_weight x \<longleftrightarrow> snd x \<noteq> 0"

definition consolidate ::
  "(('k \<times> ('r::comm_monoid_add)) list \<Rightarrow> ('k \<times> 'r) list) \<Rightarrow> ('k \<times> 'r) list \<Rightarrow> ('k \<times> 'r) list" where
  "consolidate sort_unstable vec =
     (if vec = [] then vec
      else retain_elems 0 nonzero_weight (dedup_elems 0 merge_bucket (sort_unstable vec)))"

definition consolidate_from ::
  "(('k \<times> ('r::comm_monoid_add)) list \<Rightarrow> ('k \<times> 'r) list) \<Rightarrow> ('k \<times> 'r) list \<Rightarrow> nat
    \<Rightarrow> ('k \<times> 'r) list option" where
  "consolidate_from sort_unstable vec offset =
     (if offset > length vec then None
      else if drop offset vec = [] then Some vec
      else Some (retain_elems offset nonzero_weight
                   (dedup_elems offset merge_bucket (take offset vec @ sort_unstable (drop offset vec)))))"

function slice_inner_loop ::
  "('a \<Rightarrow> 'a \<Rightarrow> bool) \<Rightarrow> ('a \<Rightarrow> 'a \<Rightarrow> 'a) \<Rightarrow> ('a \<Rightarrow> bool) \<Rightarrow> nat \<Rightarrow> nat \<Rightarrow> 'a list \<Rightarrow> nat \<times> 'a list" where
  "slice_inner_loop are_equal merge is_zero index offset v =
     (if index < length v then
        if are_equal (v ! offset) (v ! index)
        then slice_inner_loop are_equal merge is_zero (index + 1) offset
               (v[offset := merge (v ! offset) (v ! index)])
        else (let offset = (if \<not> is_zero (v ! offset) then offset + 1 else offset)
              in slice_inner_loop are_equal merge is_zero (index + 1) offset (swap_at offset index v))
      else (offset, v))"
  by pat_completeness auto
termination
  by (relation "measure (\<lambda>(are_equal, merge, is_zero, index, offset, v). length v - index)")
    (auto simp: swap_at_def)

declare slice_inner_loop.simps [simp del]

definition consolidate_slice_inner ::
  "('a \<Rightarrow> 'a \<Rightarrow> bool) \<Rightarrow> ('a \<Rightarrow> 'a \<Rightarrow> 'a) \<Rightarrow> ('a \<Rightarrow> bool) \<Rightarrow> 'a list \<Rightarrow> nat \<times> 'a list" where
  "consolidate_slice_inner are_equal merge is_zero v =
     (case slice_inner_loop are_equal merge is_zero 1 0 v of (offset, v) \<Rightarrow>
        (if offset < length v \<and> \<not> is_zero (v ! offset) then offset + 1 else offset, v))"

definition keys_equal :: "'k \<times> 'r \<Rightarrow> 'k \<times> 'r \<Rightarrow> bool" where
  "keys_equal x y \<longleftrightarrow> fst x = fst y"

definition add_weight :: "'k \<times> ('r::comm_monoid_add) \<Rightarrow> 'k \<times> 'r \<Rightarrow> 'k \<times> 'r" where
  "add_weight x y = (fst x, snd x + snd y)"

definition zero_weight :: "'k \<times> ('r::comm_monoid_add) \<Rightarrow> bool" where
  "zero_weight x \<longleftrightarrow> snd x = 0"

definition consolidate_slice ::
  "(('k \<times> ('r::comm_monoid_add)) list \<Rightarrow> ('k \<times> 'r) list) \<Rightarrow> ('k \<times> 'r) list \<Rightarrow> nat \<times> ('k \<times> 'r) list" where
  "consolidate_slice sort_unstable v =
     (if v = [] then (0, v)
      else consolidate_slice_inner keys_equal add_weight zero_weight (sort_unstable v))"

definition consolidate_payload_from ::
  "((('k::linorder) \<times> ('r::comm_monoid_add)) list \<Rightarrow> ('k \<times> 'r) list) \<Rightarrow> nat \<Rightarrow> nat
    \<Rightarrow> 'k list \<Rightarrow> 'r list \<Rightarrow> nat \<Rightarrow> ('k list \<times> 'r list) option" where
  "consolidate_payload_from sort_unstable size_k size_r keys diffs offset =
     (if length keys \<noteq> length diffs \<or> offset > length keys then None
      else if drop offset keys = [] then Some (keys, diffs)
      else (let s = quicksort sort_unstable size_k size_r (zip (drop offset keys) (drop offset diffs));
                keys = take offset keys @ map fst s;
                diffs = take offset diffs @ map snd s
            in case dedup_payload_starting_at merge_bucket offset keys diffs of
                 None \<Rightarrow> None
               | Some (keys, diffs) \<Rightarrow> retain_payload_starting_at nonzero_weight offset keys diffs))"

definition compact_paired_slices ::
  "nat \<Rightarrow> nat \<Rightarrow> ('k \<times> ('r::comm_monoid_add)) list \<Rightarrow> nat \<times> ('k \<times> 'r) list" where
  "compact_paired_slices size_k size_r v =
     (if size_k = 0 then
        (let sum = fold (\<lambda>x s. s + snd x) (drop 1 v) (snd (v ! 0));
             v = v[0 := (fst (v ! 0), sum)]
         in (if sum \<noteq> 0 then 1 else 0, v))
      else if size_r = 0 then (if snd (v ! 0) \<noteq> 0 then 1 else 0, v)
      else consolidate_slice_inner keys_equal add_weight zero_weight v)"

definition consolidate_paired_slices ::
  "((('k::linorder) \<times> ('r::comm_monoid_add)) list \<Rightarrow> ('k \<times> 'r) list) \<Rightarrow> nat \<Rightarrow> nat
    \<Rightarrow> 'k list \<Rightarrow> 'r list \<Rightarrow> (nat \<times> 'k list \<times> 'r list) option" where
  "consolidate_paired_slices sort_unstable size_k size_r keys diffs =
     (if length keys \<noteq> length diffs then None
      else if keys = [] then Some (0, keys, diffs)
      else (case compact_paired_slices size_k size_r
                   (quicksort sort_unstable size_k size_r (zip keys diffs)) of
              (n, v) \<Rightarrow> Some (n, map fst v, map snd v)))"

section \<open>The canonical form\<close>

text \<open>
  \<open>weight_of k xs\<close> is the weight of the key \<open>k\<close> in a list of weighted records; a list is
  consolidated when its keys strictly increase and no weight is zero.
\<close>

definition weight_of :: "'k \<Rightarrow> ('k \<times> ('r::comm_monoid_add)) list \<Rightarrow> 'r" where
  "weight_of k xs = sum_list (map snd (filter (\<lambda>x. fst x = k) xs))"

definition consolidated :: "(('k::linorder) \<times> ('r::comm_monoid_add)) list \<Rightarrow> bool" where
  "consolidated xs \<longleftrightarrow> sorted_wrt (<) (map fst xs) \<and> (\<forall>x \<in> set xs. snd x \<noteq> 0)"

lemma weight_of_Nil [weight_simps]: "weight_of k [] = 0"
  by (simp add: weight_of_def)

lemma weight_of_Cons [weight_simps]:
  "weight_of k (x # xs) = (if fst x = k then snd x else 0) + weight_of k xs"
  by (simp add: weight_of_def)

lemma weight_of_append [weight_simps]: "weight_of k (xs @ ys) = weight_of k xs + weight_of k ys"
  by (simp add: weight_of_def)

lemma weight_of_mset: "mset xs = mset ys \<Longrightarrow> weight_of k xs = weight_of k ys"
proof -
  have "weight_of k zs = sum_mset (image_mset snd (filter_mset (\<lambda>x. fst x = k) (mset zs)))" for zs :: "('a \<times> 'b) list"
    unfolding weight_of_def mset_filter [symmetric] mset_map [symmetric] sum_mset_sum_list ..
  then show "mset xs = mset ys \<Longrightarrow> weight_of k xs = weight_of k ys" by simp
qed

lemma weight_of_filter_nonzero: "weight_of k (filter nonzero_weight xs) = weight_of k xs"
  by (induction xs) (auto simp: weight_simps nonzero_weight_def)

lemma weight_of_absent: "k \<notin> fst ` set xs \<Longrightarrow> weight_of k xs = 0"
  by (induction xs) (auto simp: weight_simps)

lemma weight_of_distinct:
  "distinct (map fst xs) \<Longrightarrow> (k, r) \<in> set xs \<Longrightarrow> weight_of k xs = r"
proof (induction xs)
  case (Cons x xs)
  show ?case
  proof (cases "(k, r) = x")
    case True
    then have "fst x = k" "snd x = r" by auto
    moreover have "k \<notin> fst ` set xs" using Cons.prems(1) \<open>fst x = k\<close> by simp
    ultimately show ?thesis by (simp add: weight_of_Cons weight_of_absent)
  next
    case False
    then have m: "(k, r) \<in> set xs" using Cons.prems(2) by simp
    then have "k \<in> fst ` set xs" by force
    then have "fst x \<noteq> k" using Cons.prems(1) by auto
    with Cons.IH m Cons.prems(1) show ?thesis by (simp add: weight_of_Cons)
  qed
qed simp

lemma consolidated_distinct: "consolidated xs \<Longrightarrow> distinct (map fst xs)"
  by (simp add: consolidated_def strict_sorted_iff)

lemma consolidated_mem_iff:
  "consolidated xs \<Longrightarrow> (k, r) \<in> set xs \<longleftrightarrow> r \<noteq> 0 \<and> weight_of k xs = r"
proof
  assume c: "consolidated xs" and m: "(k, r) \<in> set xs"
  then show "r \<noteq> 0 \<and> weight_of k xs = r"
    using weight_of_distinct [OF consolidated_distinct [OF c] m] by (auto simp: consolidated_def)
next
  assume c: "consolidated xs" and m: "r \<noteq> 0 \<and> weight_of k xs = r"
  then have "k \<in> fst ` set xs" using weight_of_absent by metis
  then obtain r' where r': "(k, r') \<in> set xs" by force
  with m weight_of_distinct [OF consolidated_distinct [OF c] r'] show "(k, r) \<in> set xs" by simp
qed

text \<open>The canonical form is determined by the weights.\<close>

lemma consolidated_unique:
  assumes "consolidated xs" "consolidated ys" "\<And>k. weight_of k xs = weight_of k ys"
  shows "xs = ys"
proof -
  have set_eq: "set xs = set ys"
  proof (rule set_eqI)
    fix x :: "'a \<times> 'b"
    show "x \<in> set xs \<longleftrightarrow> x \<in> set ys"
      by (cases x) (simp only: consolidated_mem_iff [OF assms(1)] consolidated_mem_iff [OF assms(2)] assms(3))
  qed
  have inj: "inj_on fst (set xs \<union> set ys)"
    using consolidated_distinct [OF assms(1)] set_eq by (simp add: distinct_map)
  have "map fst xs = map fst ys"
    using assms(1,2) set_eq
    by (intro sorted_distinct_set_unique) (auto simp: consolidated_def strict_sorted_iff)
  then show ?thesis using inj by (rule map_inj_on)
qed

section \<open>The loops consolidate sorted runs\<close>

lemma merge_bucket_cases [simp]:
  "fst x = fst y \<Longrightarrow> merge_bucket x y = (True, (fst x, 0), (fst y, snd y + snd x))"
  "fst x \<noteq> fst y \<Longrightarrow> merge_bucket x y = (False, x, y)"
  by (simp_all add: merge_bucket_def)

lemma merge_bucket_adjacent:
  assumes "key_sorted (p # xs)" "r = dedup_adjacent merge_bucket p xs"
  shows "sorted_wrt (<) (map fst r) \<and> (\<forall>x \<in> set r. fst p \<le> fst x) \<and>
    (\<forall>k. weight_of k r = weight_of k (p # xs))"
  using assms
proof (induction xs arbitrary: p r)
  case Nil
  then show ?case by simp
next
  case (Cons x xs)
  show ?case
  proof (cases "fst x = fst p")
    case True
    let ?p = "(fst p, snd p + snd x)"
    have r: "r = dedup_adjacent merge_bucket ?p xs"
      using Cons.prems(2) True by simp
    have "key_sorted (?p # xs)" using Cons.prems(1) by simp
    from Cons.IH [OF this r] True show ?thesis by (auto simp: weight_simps add.assoc)
  next
    case False
    let ?t = "dedup_adjacent merge_bucket x xs"
    have r: "r = p # ?t" using Cons.prems(2) False by simp
    have lt: "fst p < fst x" using Cons.prems(1) False by (simp add: order_less_le)
    have "key_sorted (x # xs)" using Cons.prems(1) by simp
    from Cons.IH [OF this refl] lt show ?thesis
      unfolding r by (auto simp: weight_simps)
  qed
qed

lemma dedup_retain_consolidates:
  assumes "key_sorted (p # xs)"
  shows "consolidated (filter nonzero_weight (dedup_adjacent merge_bucket p xs))"
    "weight_of k (filter nonzero_weight (dedup_adjacent merge_bucket p xs)) = weight_of k (p # xs)"
proof -
  note m = merge_bucket_adjacent [OF assms refl]
  have "sorted_wrt (<) (map fst (filter P (dedup_adjacent merge_bucket p xs)))" for P
    using m by (simp add: sorted_wrt_map sorted_wrt_filter)
  then show "consolidated (filter nonzero_weight (dedup_adjacent merge_bucket p xs))"
    by (simp add: consolidated_def nonzero_weight_def)
  show "weight_of k (filter nonzero_weight (dedup_adjacent merge_bucket p xs)) = weight_of k (p # xs)"
    using m by (simp add: weight_of_filter_nonzero)
qed

lemma slice_inner_loop_compacts:
  assumes "offset < index" "index \<le> length v"
    "slice_inner_loop keys_equal add_weight zero_weight index offset v = (o', w)"
  shows "length w = length v \<and> o' < length v \<and>
    take o' w @ filter nonzero_weight [w ! o'] =
    take offset v @ filter nonzero_weight (dedup_adjacent merge_bucket (v ! offset) (drop index v))"
  using assms
proof (induction "length v - index" arbitrary: index offset v)
  case 0
  then show ?case by (subst (asm) slice_inner_loop.simps) simp
next
  case (Suc n)
  have i: "index < length v" using Suc.hyps(2) by linarith
  then have di: "drop index v = v ! index # drop (Suc index) v" by (simp add: Cons_nth_drop_Suc)
  have n: "n = length v - (index + 1)" using Suc.hyps(2) by linarith
  show ?case
  proof (cases "fst (v ! index) = fst (v ! offset)")
    case True
    let ?v = "v[offset := add_weight (v ! offset) (v ! index)]"
    have res: "slice_inner_loop keys_equal add_weight zero_weight (index + 1) offset ?v = (o', w)"
      using Suc.prems(3) i True by (subst (asm) slice_inner_loop.simps) (simp add: keys_equal_def)
    have v: "?v ! offset = (fst (v ! offset), snd (v ! offset) + snd (v ! index))"
      "take offset ?v = take offset v" "drop (index + 1) ?v = drop (index + 1) v" "length ?v = length v"
      using Suc.prems(1) i by (simp_all add: add_weight_def)
    have pre: "n = length ?v - (index + 1)" "offset < index + 1" "index + 1 \<le> length ?v"
      using n i Suc.prems(1) by simp_all
    have d: "dedup_adjacent merge_bucket (v ! offset) (drop index v) =
        dedup_adjacent merge_bucket (fst (v ! offset), snd (v ! offset) + snd (v ! index)) (drop (index + 1) v)"
      using True unfolding di by simp
    show ?thesis using Suc.hyps(1) [OF pre res] unfolding v d .
  next
    case False
    define o1 where "o1 = (if \<not> zero_weight (v ! offset) then offset + 1 else offset)"
    let ?v = "swap_at o1 index v"
    have o1: "o1 \<le> index" "o1 < length v" "offset \<le> o1" using Suc.prems i by (auto simp: o1_def)
    have res: "slice_inner_loop keys_equal add_weight zero_weight (index + 1) o1 ?v = (o', w)"
      using Suc.prems(3) i False unfolding o1_def
      by (subst (asm) slice_inner_loop.simps) (auto simp: keys_equal_def Let_def)
    have v: "?v ! o1 = v ! index" "take o1 ?v = take o1 v" "drop (index + 1) ?v = drop (index + 1) v"
      using o1 i by (simp_all add: nth_swap_at take_swap_at drop_swap_at)
    have t: "take o1 v = take offset v @ filter nonzero_weight [v ! offset]"
      using Suc.prems i by (simp add: o1_def zero_weight_def nonzero_weight_def take_Suc_conv_app_nth)
    have pre: "n = length ?v - (index + 1)" "o1 < index + 1" "index + 1 \<le> length ?v"
      using n i o1(1) by simp_all
    have d: "dedup_adjacent merge_bucket (v ! offset) (drop index v) =
        v ! offset # dedup_adjacent merge_bucket (v ! index) (drop (index + 1) v)"
      using False unfolding di by simp
    have f: "filter nonzero_weight (a # b) = filter nonzero_weight [a] @ filter nonzero_weight b"
      for a :: "'a \<times> 'b" and b by simp
    show ?thesis
      using Suc.hyps(1) [OF pre res] unfolding v t length_swap_at d f [of _ "dedup_adjacent _ _ _"]
        append_assoc .
  qed
qed

lemma consolidate_slice_inner_prefix:
  assumes "consolidate_slice_inner keys_equal add_weight zero_weight (p # xs) = (n, w)"
  shows "length w = length (p # xs)" "n \<le> length w"
    "take n w = filter nonzero_weight (dedup_adjacent merge_bucket p xs)"
proof -
  obtain o' u where loop: "slice_inner_loop keys_equal add_weight zero_weight 1 0 (p # xs) = (o', u)"
    by force
  have w: "w = u" "n = (if o' < length u \<and> \<not> zero_weight (u ! o') then o' + 1 else o')"
    using assms loop by (auto simp: consolidate_slice_inner_def)
  have c: "length u = length (p # xs)" "o' < length u"
    "take o' u @ filter nonzero_weight [u ! o'] = filter nonzero_weight (dedup_adjacent merge_bucket p xs)"
    using slice_inner_loop_compacts [OF _ _ loop] by auto
  show "length w = length (p # xs)" "n \<le> length w" using c w by simp_all
  show "take n w = filter nonzero_weight (dedup_adjacent merge_bucket p xs)"
    using c w by (simp add: zero_weight_def nonzero_weight_def take_Suc_conv_app_nth split: if_splits)
qed

section \<open>The contract of a consolidator\<close>

locale consolidator =
  fixes cons :: "(('k::linorder) \<times> ('r::comm_monoid_add)) list \<Rightarrow> ('k \<times> 'r) list"
  assumes cons_canonical: "consolidated (cons xs)"
    and cons_weights: "weight_of k (cons xs) = weight_of k xs"
begin

lemma cons_determined: "(\<And>k. weight_of k xs = weight_of k ys) \<Longrightarrow> cons xs = cons ys"
  by (rule consolidated_unique) (simp_all add: cons_canonical cons_weights)

lemma cons_fixpoint: "consolidated xs \<Longrightarrow> cons xs = xs"
  by (rule consolidated_unique) (simp_all add: cons_canonical cons_weights)

lemma cons_idempotent: "cons (cons xs) = cons xs"
  by (rule cons_fixpoint) (rule cons_canonical)

lemma cons_permutation: "mset xs = mset ys \<Longrightarrow> cons xs = cons ys"
  by (rule cons_determined) (rule weight_of_mset)

lemma cons_append: "cons (cons xs @ cons ys) = cons (xs @ ys)"
  by (rule cons_determined) (simp add: weight_of_append cons_weights)

end

lemma consolidator_unique:
  assumes "consolidator f" "consolidator g"
  shows "f xs = g xs"
  by (rule consolidated_unique)
    (simp_all add: consolidator.cons_canonical [OF assms(1)] consolidator.cons_canonical [OF assms(2)]
      consolidator.cons_weights [OF assms(1)] consolidator.cons_weights [OF assms(2)])

definition slice_prefix :: "nat \<times> 'a list \<Rightarrow> 'a list" where
  "slice_prefix r = take (fst r) (snd r)"

lemma dedup_retain_from_sorted:
  assumes "key_sort s" "v \<noteq> []" "s v = p # xs"
  shows "consolidated (filter nonzero_weight (dedup_adjacent merge_bucket p xs))"
    "weight_of k (filter nonzero_weight (dedup_adjacent merge_bucket p xs)) = weight_of k v"
proof -
  have "key_sorted (p # xs)"
    unfolding assms(3) [symmetric] by (rule key_sort.sort_orders [OF assms(1)])
  note c = dedup_retain_consolidates [OF this]
  have "mset (p # xs) = mset v"
    unfolding assms(3) [symmetric] by (rule key_sort.sort_permutes [OF assms(1)])
  then have "weight_of k (p # xs) = weight_of k v" by (rule weight_of_mset)
  with c show "consolidated (filter nonzero_weight (dedup_adjacent merge_bucket p xs))"
    "weight_of k (filter nonzero_weight (dedup_adjacent merge_bucket p xs)) = weight_of k v"
    by simp_all
qed

lemma key_sort_nonempty: "key_sort s \<Longrightarrow> v \<noteq> [] \<Longrightarrow> \<exists>p xs. s v = p # xs"
  using key_sort.sort_length by (metis length_0_conv neq_Nil_conv)

lemma dedup_retain_elems:
  assumes "start < length v"
  shows "retain_elems start nonzero_weight (dedup_elems start merge_bucket v) =
    take start v @ filter nonzero_weight (dedup_adjacent merge_bucket (v ! start) (drop (start + 1) v))"
  using assms by (simp add: dedup_elems_adjacent retain_elems_filter)

lemma consolidate_eq:
  "key_sort s \<Longrightarrow> v \<noteq> [] \<Longrightarrow> s v = p # xs \<Longrightarrow>
    consolidate s v = filter nonzero_weight (dedup_adjacent merge_bucket p xs)"
  by (simp add: consolidate_def dedup_retain_elems)

lemma consolidate_consolidator: "key_sort s \<Longrightarrow> consolidator (consolidate s)"
proof
  fix v :: "('a \<times> 'b) list" and k
  assume s: "key_sort s"
  have "consolidated (consolidate s v) \<and> weight_of k (consolidate s v) = weight_of k v"
  proof (cases "v = []")
    case False
    then obtain p xs where sv: "s v = p # xs" using key_sort_nonempty [OF s] by blast
    show ?thesis
      unfolding consolidate_eq [OF s False sv] using dedup_retain_from_sorted [OF s False sv] by blast
  qed (simp add: consolidate_def consolidated_def)
  then show "consolidated (consolidate s v)" "weight_of k (consolidate s v) = weight_of k v" by auto
qed

lemma consolidate_slice_consolidator:
  "key_sort s \<Longrightarrow> consolidator (\<lambda>v. slice_prefix (consolidate_slice s v))"
proof
  fix v :: "('a \<times> 'b) list" and k
  assume s: "key_sort s"
  have "consolidated (slice_prefix (consolidate_slice s v)) \<and>
      weight_of k (slice_prefix (consolidate_slice s v)) = weight_of k v"
  proof (cases "v = []")
    case True
    then show ?thesis by (simp add: slice_prefix_def consolidate_slice_def consolidated_def)
  next
    case False
    then obtain p xs where sv: "s v = p # xs" using key_sort_nonempty [OF s] by blast
    obtain n w where nw: "consolidate_slice_inner keys_equal add_weight zero_weight (p # xs) = (n, w)"
      by force
    have "slice_prefix (consolidate_slice s v) = take n w"
      using False sv nw by (simp add: slice_prefix_def consolidate_slice_def)
    then show ?thesis
      using consolidate_slice_inner_prefix(3) [OF nw] dedup_retain_from_sorted [OF s False sv] by simp
  qed
  then show "consolidated (slice_prefix (consolidate_slice s v))"
    "weight_of k (slice_prefix (consolidate_slice s v)) = weight_of k v" by auto
qed

lemma consolidate_from_eq:
  assumes "key_sort s"
  shows "consolidate_from s vec offset =
    (if offset \<le> length vec then Some (take offset vec @ consolidate s (drop offset vec)) else None)"
proof (cases "offset < length vec")
  case True
  let ?v = "take offset vec @ s (drop offset vec)"
  have ne: "drop offset vec \<noteq> []" using True by simp
  then obtain p xs where sv: "s (drop offset vec) = p # xs" using key_sort_nonempty [OF assms] by blast
  have l: "offset < length ?v" using True sv by simp
  have "retain_elems offset nonzero_weight (dedup_elems offset merge_bucket ?v) =
      take offset vec @ filter nonzero_weight (dedup_adjacent merge_bucket p xs)"
    using True sv by (subst dedup_retain_elems [OF l]) (simp add: nth_append)
  also have "\<dots> = take offset vec @ consolidate s (drop offset vec)"
    by (simp add: consolidate_eq [OF assms ne sv])
  finally show ?thesis using True by (simp add: consolidate_from_def)
qed (simp add: consolidate_from_def consolidate_def)

interpretation cons_vec: consolidator "consolidate (sort_key fst)"
  by (rule consolidate_consolidator) (rule std.key_sort_axioms)

interpretation cons_slice: consolidator "\<lambda>v. slice_prefix (consolidate_slice (sort_key fst) v)"
  by (rule consolidate_slice_consolidator) (rule std.key_sort_axioms)

section \<open>Paired slices\<close>

text \<open>
  What the sizes of the element types say of the values: a zero-sized key type has one value, and
  the one value of a zero-sized weight type is its zero.
\<close>

definition zst_consistent :: "nat \<Rightarrow> nat \<Rightarrow> ('k \<times> ('r::comm_monoid_add)) list \<Rightarrow> bool" where
  "zst_consistent size_k size_r v \<longleftrightarrow>
     (size_k = 0 \<longrightarrow> (\<forall>x \<in> set v. \<forall>y \<in> set v. fst x = fst y)) \<and>
     (size_r = 0 \<longrightarrow> (\<forall>x \<in> set v. snd x = 0))"

lemma fold_add_weights: "fold (\<lambda>x s. s + snd x) xs r = r + sum_list (map snd xs)"
  by (induction xs arbitrary: r) (simp_all add: add.assoc)

lemma weight_of_one_key:
  "\<forall>x \<in> set xs. fst x = k \<Longrightarrow> weight_of k' xs = (if k' = k then sum_list (map snd xs) else 0)"
  by (induction xs) (auto simp: weight_simps)

lemma weight_of_all_zero: "\<forall>x \<in> set xs. snd x = 0 \<Longrightarrow> weight_of k xs = 0"
  by (induction xs) (auto simp: weight_simps)

lemma compact_zero_sized_key:
  assumes "\<forall>x \<in> set (p # xs). fst x = fst p"
  shows "consolidated (slice_prefix (compact_paired_slices 0 size_r (p # xs)))"
    "weight_of k (slice_prefix (compact_paired_slices 0 size_r (p # xs))) = weight_of k (p # xs)"
proof -
  let ?sum = "snd p + sum_list (map snd xs)"
  have eq: "slice_prefix (compact_paired_slices 0 size_r (p # xs)) = (if ?sum \<noteq> 0 then [(fst p, ?sum)] else [])"
    by (simp add: slice_prefix_def compact_paired_slices_def fold_add_weights Let_def)
  show "consolidated (slice_prefix (compact_paired_slices 0 size_r (p # xs)))"
    unfolding eq by (simp add: consolidated_def)
  show "weight_of k (slice_prefix (compact_paired_slices 0 size_r (p # xs))) = weight_of k (p # xs)"
    unfolding eq weight_of_one_key [OF assms] by (simp add: weight_simps)
qed

lemma length_compact: "v \<noteq> [] \<Longrightarrow> length (snd (compact_paired_slices size_k size_r v)) = length v \<and>
    fst (compact_paired_slices size_k size_r v) \<le> length v"
proof (cases v)
  case (Cons p xs)
  obtain n w where nw: "consolidate_slice_inner keys_equal add_weight zero_weight (p # xs) = (n, w)"
    by force
  show ?thesis
    using Cons nw consolidate_slice_inner_prefix(1,2) [OF nw] by (simp add: compact_paired_slices_def Let_def)
qed simp

lemma compact_quicksort_consolidates:
  assumes s: "key_sort s" and zst: "zst_consistent size_k size_r v" and ne: "v \<noteq> []"
  defines "r \<equiv> slice_prefix (compact_paired_slices size_k size_r (quicksort s size_k size_r v))"
  shows "consolidated r \<and> weight_of k r = weight_of k v"
proof -
  have one: "size_k = 0 \<Longrightarrow> \<forall>x \<in> set v. \<forall>y \<in> set v. fst x = fst y"
    using zst unfolding zst_consistent_def by blast
  note q = quicksort_key_sort [where size_t = size_k and size_r = size_r, OF s one]
  have "length (quicksort s size_k size_r v) = length v"
    using mset_eq_length [OF q(1)] .
  then have "quicksort s size_k size_r v \<noteq> []" using ne by auto
  then obtain p xs where px: "quicksort s size_k size_r v = p # xs" by (meson neq_Nil_conv)
  have w: "weight_of k (p # xs) = weight_of k v" by (rule weight_of_mset) (use q(1) px in simp)
  consider "size_k = 0" | "size_k \<noteq> 0" "size_r = 0" | "size_k \<noteq> 0" "size_r \<noteq> 0" by blast
  then show ?thesis
  proof cases
    case 1
    then have v: "v = p # xs" using px by (simp add: quicksort_def)
    have keys: "\<forall>x \<in> set (p # xs). fst x = fst p"
      using one [OF 1] unfolding v by (meson list.set_intros(1))
    have "r = slice_prefix (compact_paired_slices 0 size_r (p # xs))"
      using 1 px unfolding r_def by simp
    then show ?thesis using compact_zero_sized_key [OF keys] v by blast
  next
    case 2
    have "set (p # xs) = set v" using q(1) px by (metis set_mset_mset)
    then have "\<forall>x \<in> set (p # xs). snd x = 0" "\<forall>x \<in> set v. snd x = 0"
      using zst 2 unfolding zst_consistent_def by blast+
    then have "r = []" "weight_of k v = 0"
      using 2 px weight_of_all_zero
      by (simp_all add: r_def slice_prefix_def compact_paired_slices_def)
    then show ?thesis by (simp add: consolidated_def weight_simps)
  next
    case 3
    obtain n u where nu: "consolidate_slice_inner keys_equal add_weight zero_weight (p # xs) = (n, u)"
      by force
    have "r = take n u"
      using 3 px nu by (simp add: r_def slice_prefix_def compact_paired_slices_def)
    also have "\<dots> = filter nonzero_weight (dedup_adjacent merge_bucket p xs)"
      by (rule consolidate_slice_inner_prefix(3) [OF nu])
    finally have r: "r = filter nonzero_weight (dedup_adjacent merge_bucket p xs)" .
    have "key_sorted (p # xs)" using q(2) px by simp
    from dedup_retain_consolidates [OF this] r w show ?thesis by simp
  qed
qed

lemma compact_quicksort_eq:
  assumes "key_sort s" "zst_consistent size_k size_r v" "v \<noteq> []"
  shows "slice_prefix (compact_paired_slices size_k size_r (quicksort s size_k size_r v)) =
    consolidate (sort_key fst) v"
  by (rule consolidated_unique)
    (simp_all add: compact_quicksort_consolidates [OF assms] cons_vec.cons_canonical cons_vec.cons_weights)

lemma consolidate_paired_slices_eq:
  assumes s: "key_sort s" and zst: "zst_consistent size_k size_r (zip keys diffs)"
    and len: "length keys = length diffs"
  obtains n ks ds where "consolidate_paired_slices s size_k size_r keys diffs = Some (n, ks, ds)"
    "length ks = length keys" "length ds = length diffs" "n \<le> length ks"
    "take n (zip ks ds) = consolidate (sort_key fst) (zip keys diffs)"
proof (cases "keys = []")
  case True
  with len that [of 0 keys diffs] show thesis
    by (simp add: consolidate_paired_slices_def consolidate_def)
next
  case False
  let ?v = "zip keys diffs"
  let ?q = "quicksort s size_k size_r ?v"
  have one: "size_k = 0 \<Longrightarrow> \<forall>x \<in> set ?v. \<forall>y \<in> set ?v. fst x = fst y"
    using zst unfolding zst_consistent_def by blast
  have ne: "?v \<noteq> []" using False len by (cases keys; cases diffs) auto
  have lq: "length ?q = length ?v"
    using quicksort_key_sort(1) [where size_t = size_k and size_r = size_r, OF s one]
    by (rule mset_eq_length)
  then have neq: "?q \<noteq> []" using ne by (metis length_0_conv)
  obtain n w where nw: "compact_paired_slices size_k size_r ?q = (n, w)" by force
  have lw: "length w = length keys" "n \<le> length keys" using length_compact [OF neq, of size_k size_r] nw lq len by simp_all
  have "take n w = consolidate (sort_key fst) ?v"
    using compact_quicksort_eq [OF s zst ne] nw by (simp add: slice_prefix_def)
  then show thesis
    using that [of n "map fst w" "map snd w"] lw nw len False
    by (simp add: consolidate_paired_slices_def zip_map_fst_snd)
qed

lemma zip_fst_snd_append:
  "length a = length b \<Longrightarrow> zip (a @ map fst s) (b @ map snd s) = zip a b @ s"
  by (simp add: zip_map_fst_snd)

lemma consolidate_payload_from_eq:
  assumes s: "key_sort s"
    and one: "size_k = 0 \<Longrightarrow> \<forall>x \<in> set keys. \<forall>y \<in> set keys. x = y"
    and len: "length keys = length diffs" "offset \<le> length keys"
  shows "consolidate_payload_from s size_k size_r keys diffs offset =
    (let c = consolidate (sort_key fst) (zip (drop offset keys) (drop offset diffs))
     in Some (take offset keys @ map fst c, take offset diffs @ map snd c))"
proof (cases "drop offset keys = []")
  case True
  then show ?thesis
    using len by (simp add: consolidate_payload_from_def consolidate_def)
next
  case False
  let ?v = "zip (drop offset keys) (drop offset diffs)"
  let ?q = "quicksort s size_k size_r ?v"
  have keys: "fst x \<in> set keys" if "x \<in> set ?v" for x
    using that in_set_dropD set_zip_leftD prod.collapse by metis
  have one': "size_k = 0 \<Longrightarrow> \<forall>x \<in> set ?v. \<forall>y \<in> set ?v. fst x = fst y"
    using one keys by blast
  note q = quicksort_key_sort [where size_t = size_k and size_r = size_r, OF s one']
  have lq: "length ?q = length ?v" using q(1) by (rule mset_eq_length)
  have off: "offset < length keys" using False by simp
  obtain p xs where px: "?q = p # xs"
    using lq off len(1) by (cases ?q) auto
  let ?pre = "zip (take offset keys) (take offset diffs)"
  have pre: "length ?pre = offset" using len by simp
  let ?c = "filter nonzero_weight (dedup_adjacent merge_bucket p xs)"
  have "key_sorted (p # xs)" using q(2) px by simp
  note c = dedup_retain_consolidates [OF this]
  have "weight_of k (p # xs) = weight_of k ?v" for k
    by (rule weight_of_mset) (use q(1) px in simp)
  with c have ceq: "?c = consolidate (sort_key fst) ?v"
    by (intro consolidated_unique) (simp_all add: cons_vec.cons_canonical cons_vec.cons_weights)
  let ?d = "dedup_elems offset merge_bucket (?pre @ p # xs)"
  have d: "?d = ?pre @ dedup_adjacent merge_bucket p xs"
    using pre by (subst dedup_elems_adjacent) (simp_all add: nth_append)
  have r: "retain_elems offset nonzero_weight ?d = ?pre @ ?c"
    unfolding retain_elems_filter d using pre by simp
  show ?thesis
    using False len pre px d r ceq
    by (simp add: consolidate_payload_from_def dedup_payload_starting_at_def
        retain_payload_starting_at_def Let_def zip_map_fst_snd zip_fst_snd_append [of _ _ "p # xs", simplified])
qed

section \<open>Properties\<close>

text \<open>
  C3: \<open>consolidate_paired_slices\<close> never panics on slices of equal lengths, and the prefix whose
  length it returns is the canonical form of the batch: strictly increasing keys, no zero weight, and
  for every key the sum of its weights in the input. This covers the sort, the compaction loop and
  the shortcuts for zero-sized key and weight types.
\<close>

theorem consolidate_paired_slices_canonical:
  assumes "key_sort sort_unstable" "zst_consistent size_k size_r (zip keys diffs)"
    "length keys = length diffs"
  shows "\<exists>n ks ds. consolidate_paired_slices sort_unstable size_k size_r keys diffs = Some (n, ks, ds) \<and>
    length ks = length keys \<and> length ds = length diffs \<and> n \<le> length ks \<and>
    consolidated (take n (zip ks ds)) \<and>
    (\<forall>k. weight_of k (take n (zip ks ds)) = weight_of k (zip keys diffs))"
proof (rule consolidate_paired_slices_eq [OF assms])
  fix n ks ds
  assume "consolidate_paired_slices sort_unstable size_k size_r keys diffs = Some (n, ks, ds)"
    "length ks = length keys" "length ds = length diffs" "n \<le> length ks"
    "take n (zip ks ds) = consolidate (sort_key fst) (zip keys diffs)"
  then show ?thesis by (simp add: cons_vec.cons_canonical cons_vec.cons_weights)
qed

theorem consolidate_paired_slices_canonical_witness:
  "\<exists>n ks ds. consolidate_paired_slices (sort_key fst) 8 8 [2, 1, 2, 3 :: nat] [1, 5, - 1, 4 :: int] = Some (n, ks, ds) \<and>
    consolidated (take n (zip ks ds)) \<and>
    weight_of 1 (take n (zip ks ds)) = 5 \<and> weight_of 2 (take n (zip ks ds)) = 0"
proof -
  have "zst_consistent 8 8 (zip [2, 1, 2, 3 :: nat] [1, 5, - 1, 4 :: int])"
    by (simp add: zst_consistent_def)
  from consolidate_paired_slices_canonical [OF std.key_sort_axioms this]
  obtain n ks ds where
    "consolidate_paired_slices (sort_key fst) 8 8 [2, 1, 2, 3 :: nat] [1, 5, - 1, 4 :: int] = Some (n, ks, ds)"
    "consolidated (take n (zip ks ds))"
    "\<forall>k. weight_of k (take n (zip ks ds)) = weight_of k (zip [2, 1, 2, 3 :: nat] [1, 5, - 1, 4 :: int])"
    by auto
  then show ?thesis by (intro exI [of _ n] exI [of _ ks] exI [of _ ds]) (simp add: weight_simps)
qed

text \<open>
  The consolidators agree: whatever order the unstable sorts give equal keys, consolidating a
  vector by deduplication and retention and consolidating it as a slice by swapping in place give
  the same list.
\<close>

theorem consolidate_slice_agrees:
  assumes "key_sort s" "key_sort t"
  shows "slice_prefix (consolidate_slice s v) = consolidate t v"
  using consolidator_unique [OF consolidate_slice_consolidator [OF assms(1)] consolidate_consolidator [OF assms(2)]] .

theorem consolidate_slice_agrees_witness:
  "slice_prefix (consolidate_slice insertion_sort [(2 :: nat, 1 :: int), (1, 3), (2, - 1)]) =
    consolidate heapsort [(2, 1), (1, 3), (2, - 1)]"
  by (rule consolidate_slice_agrees [OF ins.key_sort_axioms heap.key_sort_axioms])

text \<open>
  C19: consolidation is canonical: it is idempotent, insensitive to the order of its input, and
  consolidating two consolidated batches together is consolidating them from scratch.
\<close>

theorem consolidate_laws:
  assumes "key_sort s"
  shows "consolidate s (consolidate s xs) = consolidate s xs \<and>
    consolidate s (rev xs) = consolidate s xs \<and>
    consolidate s (consolidate s xs @ consolidate s ys) = consolidate s (ys @ xs)"
proof -
  note c = consolidate_consolidator [OF assms]
  have "consolidate s (xs @ ys) = consolidate s (ys @ xs)" "consolidate s (rev xs) = consolidate s xs"
    by (rule consolidator.cons_permutation [OF c]; simp)+
  then show ?thesis
    using consolidator.cons_idempotent [OF c] consolidator.cons_append [OF c] by simp
qed

theorem consolidate_laws_witness:
  "consolidate heapsort (consolidate heapsort [(2 :: nat, 1 :: int)] @ consolidate heapsort [(1, 3), (2, - 1)]) =
    consolidate heapsort ([(1, 3), (2, - 1)] @ [(2, 1)])"
  using consolidate_laws [OF heap.key_sort_axioms] by blast

text \<open>
  The variants with an offset leave what is before the offset alone and consolidate the rest; an
  offset beyond the end panics.
\<close>

theorem consolidate_from_tail:
  assumes "key_sort s"
  shows "consolidate_from s vec offset =
    (if offset \<le> length vec then Some (take offset vec @ consolidate s (drop offset vec)) else None)"
  by (rule consolidate_from_eq [OF assms])

theorem consolidate_from_tail_witness:
  "consolidate_from heapsort [(9 :: nat, 1 :: int), (2, 2)] 1 = Some ((9, 1) # consolidate heapsort [(2, 2)]) \<and>
    consolidate_from heapsort [(9 :: nat, 1 :: int), (2, 2)] 3 = None"
  using consolidate_from_tail [OF heap.key_sort_axioms, of "[(9 :: nat, 1 :: int), (2, 2)]"] by simp

text \<open>
  C20: \<open>consolidate_payload_from\<close>, which sorts two parallel vectors with the quicksort and then
  deduplicates and retains them, does to the tails of the two vectors what \<open>consolidate\<close> does to a
  vector of pairs.
\<close>

theorem consolidate_payload_from_tail:
  assumes "key_sort s" "size_k = 0 \<Longrightarrow> \<forall>x \<in> set keys. \<forall>y \<in> set keys. x = y"
    "length keys = length diffs" "offset \<le> length keys"
  shows "consolidate_payload_from s size_k size_r keys diffs offset =
    (let c = consolidate (sort_key fst) (zip (drop offset keys) (drop offset diffs))
     in Some (take offset keys @ map fst c, take offset diffs @ map snd c))"
  by (rule consolidate_payload_from_eq [OF assms])

theorem consolidate_payload_from_tail_witness:
  "consolidate_payload_from (sort_key fst) 8 8 [5, 2, 1 :: nat] [1, 5, 4 :: int] 1 =
    (let c = consolidate (sort_key fst) [(2, 5), (1, 4)] in Some (5 # map fst c, 1 # map snd c))"
  using consolidate_payload_from_tail [OF std.key_sort_axioms, of 8 "[5, 2, 1 :: nat]" "[1, 5, 4 :: int]" 1 8]
  by simp

end
