(* ===== verification/Leaf_Layer.thy ===== *)
theory Leaf_Layer
  imports Slice_Search Consolidation "HOL-Library.Monad_Syntax"
begin

text \<open>
  The leaf of a trie of batches: \<open>Leaf\<close>, \<open>LeafCursor\<close> and \<open>LeafBuilder\<close> of
  \<open>crates/dbsp/src/trace/layers/leaf.rs\<close>, the default methods of the \<open>Trie\<close> trait in \<open>trace/layers.rs\<close>
  and the vector methods they call in \<open>dynamic/vec.rs\<close>. A leaf is a vector of keys and a parallel
  vector of weights. An index or range out of bounds is a panic, the value None. Capacities are not
  part of the state: reserving and shrinking leave the elements alone.
\<close>

section \<open>Definitions\<close>

text \<open>Methods of \<open>DynVec\<close>: indexing, ranges, and the searches in a range.\<close>

definition dv_index :: "'a list \<Rightarrow> nat \<Rightarrow> 'a option" where
  "dv_index v i = (if i < length v then Some (v ! i) else None)"

definition dv_range :: "'a list \<Rightarrow> nat \<Rightarrow> nat \<Rightarrow> 'a list option" where
  "dv_range v from to = (if from \<le> to \<and> to \<le> length v then Some (subslice v from to) else None)"

definition dv_extend_from_range :: "'a list \<Rightarrow> 'a list \<Rightarrow> nat \<Rightarrow> nat \<Rightarrow> 'a list option" where
  "dv_extend_from_range v other from to = map_option (\<lambda>s. v @ s) (dv_range other from to)"


definition dv_advance_to :: "nat \<Rightarrow> ('a::linorder) list \<Rightarrow> nat \<Rightarrow> nat \<Rightarrow> 'a \<Rightarrow> nat option" where
  "dv_advance_to size_of v from to val =
     map_option (\<lambda>s. dyn_advance size_of s (\<lambda>x. x < val)) (dv_range v from to)"


definition dv_retreat_to :: "nat \<Rightarrow> ('a::linorder) list \<Rightarrow> nat \<Rightarrow> nat \<Rightarrow> 'a \<Rightarrow> nat option" where
  "dv_retreat_to size_of v from to val =
     map_option (\<lambda>s. dyn_retreat size_of s (\<lambda>x. x > val)) (dv_range v from (to + 1))"

text \<open>
  The factories of a leaf: what the type-erased code knows of the types of keys and weights. The
  unstable sort is the one that consolidation calls for zero-sized weights.
\<close>

record ('k, 'r) leaf_factories =
  size_of_key :: nat
  size_of_diff :: nat
  sort_unstable_keys :: "('k \<times> 'r) list \<Rightarrow> ('k \<times> 'r) list"

record ('k, 'r) leaf =
  lf_factories :: "('k, 'r) leaf_factories"
  lf_keys :: "'k list"
  lf_diffs :: "'r list"

definition lf_new :: "('k, 'r) leaf_factories \<Rightarrow> ('k, 'r) leaf" where
  "lf_new factories = \<lparr>lf_factories = factories, lf_keys = [], lf_diffs = []\<rparr>"

definition lf_from_parts :: "('k, 'r) leaf_factories \<Rightarrow> 'k list \<Rightarrow> 'r list \<Rightarrow> ('k, 'r) leaf" where
  "lf_from_parts factories ks ds = \<lparr>lf_factories = factories, lf_keys = ks, lf_diffs = ds\<rparr>"

definition lf_len :: "('k, 'r) leaf \<Rightarrow> nat" where
  "lf_len l = length (lf_keys l)"

definition lf_is_empty :: "('k, 'r) leaf \<Rightarrow> bool" where
  "lf_is_empty l \<longleftrightarrow> lf_len l = 0"

definition lf_truncate :: "('k, 'r) leaf \<Rightarrow> nat \<Rightarrow> ('k, 'r) leaf" where
  "lf_truncate l n = l\<lparr>lf_keys := take n (lf_keys l), lf_diffs := take n (lf_diffs l)\<rparr>"

definition lf_push :: "('k, 'r) leaf \<Rightarrow> 'k \<Rightarrow> 'r \<Rightarrow> ('k, 'r) leaf" where
  "lf_push l key diff = l\<lparr>lf_keys := lf_keys l @ [key], lf_diffs := lf_diffs l @ [diff]\<rparr>"

definition lf_extend_from_range ::
  "('k, 'r) leaf \<Rightarrow> ('k, 'r) leaf \<Rightarrow> nat \<Rightarrow> nat \<Rightarrow> ('k, 'r) leaf option" where
  "lf_extend_from_range l source lower upper =
     (if lower = upper then Some l
      else do {
        ks \<leftarrow> dv_extend_from_range (lf_keys l) (lf_keys source) lower upper;
        ds \<leftarrow> dv_extend_from_range (lf_diffs l) (lf_diffs source) lower upper;
        Some (l\<lparr>lf_keys := ks, lf_diffs := ds\<rparr>)
      })"

text \<open>
  The common end of \<open>map_keys_and_extend_from_range\<close> and \<open>map_keys_and_push_merge\<close>: apply the function
  to the keys from \<open>base\<close> on, consolidate that part in place, truncate to what is left of it.
\<close>

definition lf_map_and_consolidate ::
  "(('k::linorder), ('r::comm_monoid_add)) leaf \<Rightarrow> nat \<Rightarrow> ('k \<Rightarrow> 'k) \<Rightarrow> ('k, 'r) leaf option" where
  "lf_map_and_consolidate l base map_func =
     (let tail_keys = map map_func (drop base (lf_keys l)); tail_diffs = drop base (lf_diffs l);
          fs = lf_factories l
      in do {
        (consolidated_len, ks, ds) \<leftarrow>
          consolidate_paired_slices (sort_unstable_keys fs) (size_of_key fs) (size_of_diff fs)
            tail_keys tail_diffs;
        Some (lf_truncate (l\<lparr>lf_keys := take base (lf_keys l) @ ks, lf_diffs := take base (lf_diffs l) @ ds\<rparr>)
          (base + consolidated_len))
      })"

definition lf_map_keys_and_extend_from_range ::
  "(('k::linorder), ('r::comm_monoid_add)) leaf \<Rightarrow> ('k, 'r) leaf \<Rightarrow> nat \<Rightarrow> nat \<Rightarrow> ('k \<Rightarrow> 'k)
    \<Rightarrow> ('k, 'r) leaf option" where
  "lf_map_keys_and_extend_from_range l source lower upper map_func =
     do { l' \<leftarrow> lf_extend_from_range l source lower upper;
          lf_map_and_consolidate l' (lf_len l) map_func }"

function lf_push_merge_loop ::
  "(('k::linorder), ('r::comm_monoid_add)) leaf \<Rightarrow> nat \<Rightarrow> ('k, 'r) leaf \<Rightarrow> nat \<Rightarrow> nat \<Rightarrow> nat
    \<Rightarrow> ('k, 'r) leaf \<Rightarrow> (nat \<times> nat \<times> ('k, 'r) leaf) option" where
  "lf_push_merge_loop lhs upper1 rhs upper2 lower1 lower2 l =
     (if lower1 < upper1 \<and> lower2 < upper2
      then do {
        key1 \<leftarrow> dv_index (lf_keys lhs) lower1;
        key2 \<leftarrow> dv_index (lf_keys rhs) lower2;
        if key1 < key2 then do {
          n \<leftarrow> dv_advance_to (size_of_key (lf_factories l)) (lf_keys lhs) (lower1 + 1) upper1 key2;
          l' \<leftarrow> lf_extend_from_range l lhs lower1 (lower1 + (1 + n));
          lf_push_merge_loop lhs upper1 rhs upper2 (lower1 + (1 + n)) lower2 l' }
        else if key1 = key2 then do {
          diff1 \<leftarrow> dv_index (lf_diffs lhs) lower1;
          diff2 \<leftarrow> dv_index (lf_diffs rhs) lower2;
          lf_push_merge_loop lhs upper1 rhs upper2 (lower1 + 1) (lower2 + 1)
            (if diff1 + diff2 \<noteq> 0 then lf_push l key1 (diff1 + diff2) else l) }
        else do {
          n \<leftarrow> dv_advance_to (size_of_key (lf_factories l)) (lf_keys rhs) (lower2 + 1) upper2 key1;
          l' \<leftarrow> lf_extend_from_range l rhs lower2 (lower2 + (1 + n));
          lf_push_merge_loop lhs upper1 rhs upper2 lower1 (lower2 + (1 + n)) l' }
      }
      else Some (lower1, lower2, l))"
  by pat_completeness auto
termination
  by (relation "measure (\<lambda>(lhs, upper1, rhs, upper2, lower1, lower2, l). (upper1 - lower1) + (upper2 - lower2))")
    auto

declare lf_push_merge_loop.simps [simp del]

definition lf_push_merge ::
  "(('k::linorder), ('r::comm_monoid_add)) leaf \<Rightarrow> ('k, 'r) leaf \<Rightarrow> nat \<times> nat \<Rightarrow> ('k, 'r) leaf \<Rightarrow> nat \<times> nat
    \<Rightarrow> ('k, 'r) leaf option" where
  "lf_push_merge l lhs range1 rhs range2 =
     do {
       (lower1, lower2, l1) \<leftarrow> lf_push_merge_loop lhs (snd range1) rhs (snd range2) (fst range1) (fst range2) l;
       l2 \<leftarrow> (if lower1 < snd range1 then lf_extend_from_range l1 lhs lower1 (snd range1) else Some l1);
       (if lower2 < snd range2 then lf_extend_from_range l2 rhs lower2 (snd range2) else Some l2)
     }"

definition lf_map_keys_and_push_merge ::
  "(('k::linorder), ('r::comm_monoid_add)) leaf \<Rightarrow> ('k, 'r) leaf \<Rightarrow> nat \<times> nat \<Rightarrow> ('k, 'r) leaf \<Rightarrow> nat \<times> nat
    \<Rightarrow> ('k \<Rightarrow> 'k) \<Rightarrow> ('k, 'r) leaf option" where
  "lf_map_keys_and_push_merge l lhs range1 rhs range2 f =
     do {
       l1 \<leftarrow> lf_extend_from_range l lhs (fst range1) (snd range1);
       l2 \<leftarrow> lf_extend_from_range l1 rhs (fst range2) (snd range2);
       lf_map_and_consolidate l2 (lf_len l) f
     }"

definition lf_eq :: "('k, 'r) leaf \<Rightarrow> ('k, 'r) leaf \<Rightarrow> bool" where
  "lf_eq a b \<longleftrightarrow> lf_keys a = lf_keys b \<and> lf_diffs a = lf_diffs b"

definition lf_neg_by_ref :: "('k, ('r::ab_group_add)) leaf \<Rightarrow> ('k, 'r) leaf" where
  "lf_neg_by_ref l = l\<lparr>lf_diffs := map (\<lambda>diff. - diff) (lf_diffs l)\<rparr>"

text \<open>The cursor: a position, the leaf it reads, and the bounds of the range it covers.\<close>

record ('k, 'r) leaf_cursor =
  lc_pos :: int
  lc_storage :: "('k, 'r) leaf"
  lc_bounds :: "nat \<times> nat"

definition lc_new :: "nat \<Rightarrow> ('k, 'r) leaf \<Rightarrow> nat \<times> nat \<Rightarrow> ('k, 'r) leaf_cursor" where
  "lc_new pos storage bounds = \<lparr>lc_pos = int pos, lc_storage = storage, lc_bounds = bounds\<rparr>"

definition lf_cursor_from :: "('k, 'r) leaf \<Rightarrow> nat \<Rightarrow> nat \<Rightarrow> ('k, 'r) leaf_cursor" where
  "lf_cursor_from l lower upper = lc_new lower l (lower, upper)"

definition lf_cursor :: "('k, 'r) leaf \<Rightarrow> ('k, 'r) leaf_cursor" where
  "lf_cursor l = lf_cursor_from l 0 (lf_len l)"

definition lc_valid :: "('k, 'r) leaf_cursor \<Rightarrow> bool" where
  "lc_valid c \<longleftrightarrow> int (fst (lc_bounds c)) \<le> lc_pos c \<and> lc_pos c < int (snd (lc_bounds c))"

text \<open>\<open>self.pos as usize\<close>, which wraps a negative position around.\<close>

definition lc_position :: "('k, 'r) leaf_cursor \<Rightarrow> nat" where
  "lc_position c = nat (lc_pos c mod 2 ^ 64)"

definition lc_keys :: "('k, 'r) leaf_cursor \<Rightarrow> nat" where
  "lc_keys c = snd (lc_bounds c) - fst (lc_bounds c)"

definition lc_item :: "('k, 'r) leaf_cursor \<Rightarrow> ('k \<times> 'r) option" where
  "lc_item c =
     (if lc_position c \<ge> length (lf_keys (lc_storage c)) \<or> lc_pos c < 0 then None
      else do {
        key \<leftarrow> dv_index (lf_keys (lc_storage c)) (lc_position c);
        diff \<leftarrow> dv_index (lf_diffs (lc_storage c)) (lc_position c);
        Some (key, diff)
      })"

definition lc_step :: "('k, 'r) leaf_cursor \<Rightarrow> ('k, 'r) leaf_cursor" where
  "lc_step c =
     (let c' = c\<lparr>lc_pos := lc_pos c + 1\<rparr>
      in if \<not> lc_valid c' then c'\<lparr>lc_pos := int (snd (lc_bounds c'))\<rparr> else c')"

definition lc_step_reverse :: "('k, 'r) leaf_cursor \<Rightarrow> ('k, 'r) leaf_cursor" where
  "lc_step_reverse c =
     (let c' = c\<lparr>lc_pos := lc_pos c - 1\<rparr>
      in if lc_pos c' < int (fst (lc_bounds c')) then c'\<lparr>lc_pos := int (fst (lc_bounds c')) - 1\<rparr> else c')"

definition lc_seek :: "('k::linorder) \<Rightarrow> ('k, 'r) leaf_cursor \<Rightarrow> ('k, 'r) leaf_cursor option" where
  "lc_seek key c =
     (if lc_valid c
      then map_option (\<lambda>n. c\<lparr>lc_pos := lc_pos c + int n\<rparr>)
        (dv_advance_to (size_of_key (lf_factories (lc_storage c))) (lf_keys (lc_storage c)) (lc_position c) (snd (lc_bounds c)) key)
      else Some c)"

definition lc_seek_reverse :: "('k::linorder) \<Rightarrow> ('k, 'r) leaf_cursor \<Rightarrow> ('k, 'r) leaf_cursor option" where
  "lc_seek_reverse key c =
     (if lc_valid c
      then map_option (\<lambda>n. c\<lparr>lc_pos := lc_pos c - int n\<rparr>)
        (dv_retreat_to (size_of_key (lf_factories (lc_storage c))) (lf_keys (lc_storage c)) (fst (lc_bounds c)) (lc_position c) key)
      else Some c)"



definition lc_rewind :: "('k, 'r) leaf_cursor \<Rightarrow> ('k, 'r) leaf_cursor" where
  "lc_rewind c = c\<lparr>lc_pos := int (fst (lc_bounds c))\<rparr>"

definition lc_fast_forward :: "('k, 'r) leaf_cursor \<Rightarrow> ('k, 'r) leaf_cursor" where
  "lc_fast_forward c = c\<lparr>lc_pos := int (snd (lc_bounds c)) - 1\<rparr>"

definition lc_reposition :: "nat \<Rightarrow> nat \<Rightarrow> ('k, 'r) leaf_cursor \<Rightarrow> ('k, 'r) leaf_cursor" where
  "lc_reposition lower upper c = c\<lparr>lc_pos := int lower, lc_bounds := (lower, upper)\<rparr>"

text \<open>The loop of \<open>Display for LeafCursor\<close>: the items from the position to the end of the range.\<close>

function lc_collect :: "('k, 'r) leaf_cursor \<Rightarrow> ('k \<times> 'r) list option" where
  "lc_collect c =
     (if lc_valid c
      then do { item \<leftarrow> lc_item c; rest \<leftarrow> lc_collect (lc_step c); Some (item # rest) }
      else Some [])"
  by pat_completeness auto
termination
  by (relation "measure (\<lambda>c. nat (int (snd (lc_bounds c)) - lc_pos c))")
    (auto simp: lc_valid_def lc_step_def Let_def)

declare lc_collect.simps [simp del]

text \<open>
  The builder is the leaf under construction. Capacities apart, \<open>with_capacity\<close> is an empty leaf and
  \<open>done\<close> returns the leaf.
\<close>

definition lb_with_capacity :: "('k, 'r) leaf \<Rightarrow> ('k, 'r) leaf \<Rightarrow> ('k, 'r) leaf" where
  "lb_with_capacity left right = lf_new (lf_factories left)"

definition lb_copy_range ::
  "(('k::linorder), ('r::comm_monoid_add)) leaf \<Rightarrow> ('k, 'r) leaf \<Rightarrow> nat \<Rightarrow> nat \<Rightarrow> ('k \<Rightarrow> 'k) option
    \<Rightarrow> ('k, 'r) leaf option" where
  "lb_copy_range l other lower upper map_func =
     (case map_func of
        Some f \<Rightarrow> lf_map_keys_and_extend_from_range l other lower upper f
      | None \<Rightarrow> lf_extend_from_range l other lower upper)"

function lb_retain_loop ::
  "('k \<Rightarrow> bool) \<Rightarrow> ('k, 'r) leaf \<Rightarrow> nat \<Rightarrow> nat \<Rightarrow> ('k, 'r) leaf \<Rightarrow> ('k, 'r) leaf option" where
  "lb_retain_loop keep other index upper l =
     (if index < upper
      then do {
        key \<leftarrow> dv_index (lf_keys other) index;
        if keep key then do {
          diff \<leftarrow> dv_index (lf_diffs other) index;
          lb_retain_loop keep other (index + 1) upper (lf_push l key diff) }
        else lb_retain_loop keep other (index + 1) upper l
      }
      else Some l)"
  by pat_completeness auto
termination
  by (relation "measure (\<lambda>(keep, other, index, upper, l). upper - index)") auto

declare lb_retain_loop.simps [simp del]

definition lb_copy_range_retain_keys ::
  "('k, 'r) leaf \<Rightarrow> ('k, 'r) leaf \<Rightarrow> nat \<Rightarrow> nat \<Rightarrow> ('k \<Rightarrow> bool) \<Rightarrow> ('k, 'r) leaf option" where
  "lb_copy_range_retain_keys l other lower upper keep =
     (if \<not> (lower \<le> length (lf_keys other) \<and> upper \<le> length (lf_keys other)) then None
      else lb_retain_loop keep other lower upper l)"

definition lb_push_merge ::
  "(('k::linorder), ('r::comm_monoid_add)) leaf \<Rightarrow> ('k, 'r) leaf_cursor \<Rightarrow> ('k, 'r) leaf_cursor
    \<Rightarrow> ('k \<Rightarrow> 'k) option \<Rightarrow> ('k, 'r) leaf option" where
  "lb_push_merge l lhs_cursor rhs_cursor map_func =
     (let lhs_bounds = (lc_position lhs_cursor, snd (lc_bounds lhs_cursor));
          rhs_bounds = (lc_position rhs_cursor, snd (lc_bounds rhs_cursor))
      in case map_func of
           Some f \<Rightarrow> lf_map_keys_and_push_merge l (lc_storage lhs_cursor) lhs_bounds (lc_storage rhs_cursor) rhs_bounds f
         | None \<Rightarrow> lf_push_merge l (lc_storage lhs_cursor) lhs_bounds (lc_storage rhs_cursor) rhs_bounds)"

function lb_retain_merge_loop ::
  "('k \<Rightarrow> bool) \<Rightarrow> (('k::linorder), ('r::comm_monoid_add)) leaf \<Rightarrow> nat \<Rightarrow> ('k, 'r) leaf \<Rightarrow> nat \<Rightarrow> nat \<Rightarrow> nat
    \<Rightarrow> ('k, 'r) leaf \<Rightarrow> (nat \<times> nat \<times> ('k, 'r) leaf) option" where
  "lb_retain_merge_loop keep trie1 upper1 trie2 upper2 lower1 lower2 l =
     (if lower1 < upper1 \<and> lower2 < upper2
      then do {
        key1 \<leftarrow> dv_index (lf_keys trie1) lower1;
        key2 \<leftarrow> dv_index (lf_keys trie2) lower2;
        if key1 < key2 then do {
          n \<leftarrow> dv_advance_to (size_of_key (lf_factories l)) (lf_keys trie1) (1 + lower1) upper1 key2;
          l' \<leftarrow> lb_copy_range_retain_keys l trie1 lower1 (lower1 + min (1 + n) 1000) keep;
          lb_retain_merge_loop keep trie1 upper1 trie2 upper2 (lower1 + min (1 + n) 1000) lower2 l' }
        else if key1 = key2 then
          (if keep key1 then do {
             diff1 \<leftarrow> dv_index (lf_diffs trie1) lower1;
             diff2 \<leftarrow> dv_index (lf_diffs trie2) lower2;
             lb_retain_merge_loop keep trie1 upper1 trie2 upper2 (lower1 + 1) (lower2 + 1)
               (if diff1 + diff2 \<noteq> 0 then lf_push l key1 (diff1 + diff2) else l) }
           else lb_retain_merge_loop keep trie1 upper1 trie2 upper2 (lower1 + 1) (lower2 + 1) l)
        else do {
          n \<leftarrow> dv_advance_to (size_of_key (lf_factories l)) (lf_keys trie2) (1 + lower2) upper2 key1;
          l' \<leftarrow> lb_copy_range_retain_keys l trie2 lower2 (lower2 + min (1 + n) 1000) keep;
          lb_retain_merge_loop keep trie1 upper1 trie2 upper2 lower1 (lower2 + min (1 + n) 1000) l' }
      }
      else Some (lower1, lower2, l))"
  by pat_completeness auto
termination
  by (relation "measure (\<lambda>(keep, trie1, upper1, trie2, upper2, lower1, lower2, l). (upper1 - lower1) + (upper2 - lower2))")
    auto

declare lb_retain_merge_loop.simps [simp del]

definition lb_push_merge_retain_keys ::
  "(('k::linorder), ('r::comm_monoid_add)) leaf \<Rightarrow> ('k, 'r) leaf_cursor \<Rightarrow> ('k, 'r) leaf_cursor
    \<Rightarrow> ('k \<Rightarrow> bool) \<Rightarrow> ('k, 'r) leaf option" where
  "lb_push_merge_retain_keys l cursor1 cursor2 keep =
     (let trie1 = lc_storage cursor1; trie2 = lc_storage cursor2;
          upper1 = snd (lc_bounds cursor1); upper2 = snd (lc_bounds cursor2)
      in do {
        (lower1, lower2, l1) \<leftarrow>
          lb_retain_merge_loop keep trie1 upper1 trie2 upper2 (lc_position cursor1) (lc_position cursor2) l;
        l2 \<leftarrow> (if lower1 < upper1 then lb_copy_range_retain_keys l1 trie1 lower1 upper1 keep else Some l1);
        (if lower2 < upper2 then lb_copy_range_retain_keys l2 trie2 lower2 upper2 keep else Some l2)
      })"

definition lf_merge ::
  "(('k::linorder), ('r::comm_monoid_add)) leaf \<Rightarrow> ('k, 'r) leaf \<Rightarrow> ('k, 'r) leaf option" where
  "lf_merge l other = lb_push_merge (lb_with_capacity l other) (lf_cursor l) (lf_cursor other) None"

definition lf_add_assign_by_ref ::
  "(('k::linorder), ('r::comm_monoid_add)) leaf \<Rightarrow> ('k, 'r) leaf \<Rightarrow> ('k, 'r) leaf option" where
  "lf_add_assign_by_ref l other = (if \<not> lf_is_empty other then lf_merge l other else Some l)"

definition lb_extend_tuples :: "('k, 'r) leaf \<Rightarrow> ('k \<times> 'r) list \<Rightarrow> ('k, 'r) leaf" where
  "lb_extend_tuples l tuples = fold (\<lambda>(key, w) l. lf_push l key w) tuples l"

section \<open>Elements of a range\<close>

lemma subslice_append:
  "a \<le> b \<Longrightarrow> b \<le> c \<Longrightarrow> subslice xs a c = subslice xs a b @ subslice xs b c"
proof -
  assume "a \<le> b" "b \<le> c"
  then have "c - a = (b - a) + (c - b)" "drop b xs = drop (b - a) (drop a xs)" by simp_all
  then show ?thesis by (simp only: subslice_def take_add)
qed

lemma subslice_Cons:
  "a < b \<Longrightarrow> b \<le> length xs \<Longrightarrow> subslice xs a b = xs ! a # subslice xs (a + 1) b"
  by (simp add: subslice_def Cons_nth_drop_Suc [symmetric] take_Cons' Suc_diff_Suc)

lemma subslice_same [simp]: "subslice xs a a = []"
  by (simp add: subslice_def)

lemma subslice_all: "subslice xs 0 (length xs) = xs"
  by (simp add: subslice_def)

lemma length_subslice: "b \<le> length xs \<Longrightarrow> length (subslice xs a b) = b - a"
  by (simp add: subslice_def)

lemma nth_subslice: "i < b - a \<Longrightarrow> b \<le> length xs \<Longrightarrow> subslice xs a b ! i = xs ! (a + i)"
  by (simp add: subslice_def)

lemma map_subslice: "map f (subslice xs a b) = subslice (map f xs) a b"
  by (simp add: subslice_def take_map drop_map)

lemma sorted_subslice: "sorted xs \<Longrightarrow> sorted (subslice xs a b)"
  by (simp add: subslice_def sorted_wrt_take sorted_wrt_drop)

text \<open>
  The searches step over keys below the bound only, whether keys have a size or not; on keys with a
  size they stop at the first key that is not below it.
\<close>

lemma dv_advance_to_spec:
  assumes "sorted v" "from \<le> to" "to \<le> length v"
  obtains n where "dv_advance_to sz v from to val = Some n" "from + n \<le> to"
    "\<And>x. x \<in> set (subslice v from (from + n)) \<Longrightarrow> x < val"
    "0 < sz \<Longrightarrow> from + n < to \<Longrightarrow> val \<le> v ! (from + n)"
proof (cases "sz = 0")
  case True
  with assms that [of 0] show thesis
    by (simp add: dv_advance_to_def dv_range_def dyn_advance_def advance_erased_def)
next
  case False
  then obtain m where m: "sz = Suc m" by (cases sz) auto
  let ?s = "subslice v from to" and ?f = "\<lambda>x. x < val"
  have pc: "prefix_closed ?f ?s"
    by (rule prefix_closed_sorted_less) (rule sorted_subslice [OF assms(1)])
  define n where "n = dyn_advance sz ?s ?f"
  have len: "length ?s = to - from" using assms(3) by (rule length_subslice)
  have n: "n \<le> to - from" unfolding n_def m using dyn_adv.search_le_length [OF pc] len by simp
  have "subslice v from (from + n) = take n ?s" using n by (simp add: subslice_def min_def)
  then have t: "subslice v from (from + n) = takeWhile ?f ?s"
    unfolding n_def m using dyn_adv.search_splits(1) [OF pc] by simp
  show thesis
  proof (rule that [of n])
    show "dv_advance_to sz v from to val = Some n"
      using assms by (simp add: dv_advance_to_def dv_range_def n_def)
    show "from + n \<le> to" using n assms(2) by simp
    show "x < val" if "x \<in> set (subslice v from (from + n))" for x
      using that set_takeWhileD unfolding t by fast
    show "val \<le> v ! (from + n)" if "from + n < to"
      using dyn_adv.search_fails_at [OF pc, of m] that len assms(3)
      by (simp add: n_def m nth_subslice not_less)
  qed
qed

section \<open>Leaves as lists of entries\<close>

definition lf_entries :: "('k, 'r) leaf \<Rightarrow> ('k \<times> 'r) list" where
  "lf_entries l = zip (lf_keys l) (lf_diffs l)"

definition lf_paired :: "('k, 'r) leaf \<Rightarrow> bool" where
  "lf_paired l \<longleftrightarrow> length (lf_keys l) = length (lf_diffs l)"

definition lf_append :: "('k, 'r) leaf \<Rightarrow> ('k \<times> 'r) list \<Rightarrow> ('k, 'r) leaf" where
  "lf_append l es = l\<lparr>lf_keys := lf_keys l @ map fst es, lf_diffs := lf_diffs l @ map snd es\<rparr>"

fun merge_entries :: "(('k::linorder) \<times> ('r::comm_monoid_add)) list \<Rightarrow> ('k \<times> 'r) list \<Rightarrow> ('k \<times> 'r) list" where
  "merge_entries [] ys = ys"
| "merge_entries xs [] = xs"
| "merge_entries (x # xs) (y # ys) =
     (if fst x < fst y then x # merge_entries xs (y # ys)
      else if fst x = fst y
        then (if snd x + snd y \<noteq> 0 then [(fst x, snd x + snd y)] else []) @ merge_entries xs ys
      else y # merge_entries (x # xs) ys)"

lemma lf_append_Nil [simp]: "lf_append l [] = l"
  by (simp add: lf_append_def)

lemma lf_append_append [simp]: "lf_append (lf_append l es) fs = lf_append l (es @ fs)"
  by (simp add: lf_append_def)

lemma lf_factories_append [simp]: "lf_factories (lf_append l es) = lf_factories l"
  by (simp add: lf_append_def)

lemma lf_push_append: "lf_push l k d = lf_append l [(k, d)]"
  by (simp add: lf_push_def lf_append_def)

lemma lf_entries_append: "lf_paired l \<Longrightarrow> lf_entries (lf_append l es) = lf_entries l @ es"
  by (simp add: lf_paired_def lf_entries_def lf_append_def zip_map_fst_snd)

lemma lf_paired_append [simp]: "lf_paired (lf_append l es) = lf_paired l"
  by (simp add: lf_paired_def lf_append_def)

lemma lf_entries_facts:
  assumes "lf_paired l"
  shows "map fst (lf_entries l) = lf_keys l" "map snd (lf_entries l) = lf_diffs l"
    "length (lf_entries l) = lf_len l"
  using assms by (simp_all add: lf_paired_def lf_entries_def lf_len_def)

lemma lf_extend_from_range_append:
  assumes "lf_paired source" "lower \<le> upper" "upper \<le> lf_len source"
  shows "lf_extend_from_range l source lower upper = Some (lf_append l (subslice (lf_entries source) lower upper))"
proof (cases "lower = upper")
  case False
  with assms show ?thesis
    by (simp add: lf_extend_from_range_def dv_extend_from_range_def dv_range_def lf_append_def map_subslice
        lf_entries_facts lf_len_def lf_paired_def)
qed (simp add: lf_extend_from_range_def)

lemma dv_index_entries:
  assumes "lf_paired l" "i < lf_len l"
  shows "dv_index (lf_keys l) i = Some (fst (lf_entries l ! i))"
    "dv_index (lf_diffs l) i = Some (snd (lf_entries l ! i))"
  using assms by (simp_all add: dv_index_def lf_paired_def lf_len_def lf_entries_def)

lemma lf_advance_to_spec:
  assumes "lf_paired l" "sorted (lf_keys l)" "lower \<le> upper" "upper \<le> lf_len l"
  obtains n where "dv_advance_to sz (lf_keys l) lower upper val = Some n" "lower + n \<le> upper"
    "\<And>x. x \<in> set (subslice (lf_entries l) lower (lower + n)) \<Longrightarrow> fst x < val"
proof (rule dv_advance_to_spec [OF assms(2,3), of sz val])
  show "upper \<le> length (lf_keys l)" using assms(4) by (simp add: lf_len_def)
next
  fix n
  assume n: "dv_advance_to sz (lf_keys l) lower upper val = Some n" "lower + n \<le> upper"
    and le: "\<And>x. x \<in> set (subslice (lf_keys l) lower (lower + n)) \<Longrightarrow> x < val"
  have "fst x < val" if "x \<in> set (subslice (lf_entries l) lower (lower + n))" for x
  proof -
    have "fst x \<in> set (map fst (subslice (lf_entries l) lower (lower + n)))" using that by simp
    then show ?thesis using le by (simp only: map_subslice lf_entries_facts(1) [OF assms(1)])
  qed
  with n that show thesis by blast
qed

section \<open>The merge\<close>

lemma merge_entries_Nil2 [simp]: "merge_entries xs [] = xs"
  by (cases xs) simp_all

lemma merge_entries_greater:
  "fst y < fst x \<Longrightarrow> merge_entries (x # xs) (y # ys) = y # merge_entries (x # xs) ys"
  by (auto dest: less_not_sym)

lemma merge_entries_prefix1:
  "(\<And>x. x \<in> set p \<Longrightarrow> fst x < fst y) \<Longrightarrow> merge_entries (p @ xs) (y # ys) = p @ merge_entries xs (y # ys)"
  by (induction p) simp_all

lemma merge_entries_prefix2:
  "(\<And>y. y \<in> set p \<Longrightarrow> fst y < fst x) \<Longrightarrow> merge_entries (x # xs) (p @ ys) = p @ merge_entries (x # xs) ys"
  by (induction p) (simp_all add: merge_entries_greater del: merge_entries.simps(3))

lemma merge_entries_weight [weight_simps]:
  "weight_of k (merge_entries xs ys) = weight_of k xs + weight_of k ys"
proof (induction xs ys rule: merge_entries.induct)
  case (3 x xs y ys)
  show ?case
  proof (cases "fst x = fst y \<and> snd x + snd y = 0")
    case True
    have "snd x + weight_of k xs + (snd y + weight_of k ys) = (snd x + snd y) + (weight_of k xs + weight_of k ys)"
      by (simp only: ac_simps)
    with 3 True show ?thesis by (simp add: weight_simps)
  next
    case False
    with 3 show ?thesis by (auto simp: weight_simps ac_simps)
  qed
qed (simp_all add: weight_simps)

lemma merge_entries_keys: "fst ` set (merge_entries xs ys) \<subseteq> fst ` set xs \<union> fst ` set ys"
proof (induction xs ys rule: merge_entries.induct)
  case (3 x xs y ys)
  note ih = this [unfolded list.set image_insert]
  consider (lt) "fst x < fst y" | (eq) "fst x = fst y" | (gt) "fst y < fst x" by (rule linorder_cases)
  then show ?case
  proof cases
    case lt
    have "merge_entries (x # xs) (y # ys) = x # merge_entries xs (y # ys)" using lt by simp
    with ih(1) [OF lt] show ?thesis unfolding list.set image_insert by auto
  next
    case eq
    have "fst ` set (merge_entries (x # xs) (y # ys)) \<subseteq> insert (fst x) (fst ` set (merge_entries xs ys))"
      using eq by auto
    moreover have "fst ` set (merge_entries xs ys) \<subseteq> fst ` set xs \<union> fst ` set ys" using ih(2) eq by simp
    ultimately show ?thesis unfolding list.set image_insert by blast
  next
    case gt
    then have "\<not> fst x < fst y" "fst x \<noteq> fst y" by auto
    from ih(3) [OF this] show ?thesis unfolding merge_entries_greater [OF gt] list.set image_insert by blast
  qed
qed simp_all

lemma consolidated_Cons:
  "consolidated (x # xs) \<longleftrightarrow> consolidated xs \<and> snd x \<noteq> 0 \<and> (\<forall>k \<in> fst ` set xs. fst x < k)"
  by (auto simp: consolidated_def)

lemma consolidated_merge:
  "consolidated xs \<Longrightarrow> consolidated ys \<Longrightarrow> consolidated (merge_entries xs ys)"
proof (induction xs ys rule: merge_entries.induct)
  case (3 x xs y ys)
  note ih = this(1-3) and cx = 3(4) and cy = 3(5)
  note cx' = cx [unfolded consolidated_Cons] and cy' = cy [unfolded consolidated_Cons]
  consider (lt) "fst x < fst y" | (eq) "fst x = fst y" | (gt) "fst y < fst x" by (rule linorder_cases)
  then show ?case
  proof cases
    case lt
    have "fst x < k" if "k \<in> fst ` set (merge_entries xs (y # ys))" for k
    proof -
      have "k \<in> fst ` set xs \<or> k = fst y \<or> k \<in> fst ` set ys"
        using that merge_entries_keys [of xs "y # ys"] unfolding list.set image_insert by blast
      then show ?thesis using cx' cy' lt less_trans by blast
    qed
    moreover have "consolidated (merge_entries xs (y # ys))" using ih(1) [OF lt] cx' cy by blast
    ultimately show ?thesis using cx' lt by (simp add: consolidated_Cons)
  next
    case eq
    have "fst x < k" if "k \<in> fst ` set (merge_entries xs ys)" for k
    proof -
      have "k \<in> fst ` set xs \<or> k \<in> fst ` set ys" using that merge_entries_keys [of xs ys] by blast
      then show ?thesis using cx' cy' eq by auto
    qed
    moreover have "consolidated (merge_entries xs ys)" using ih(2) eq cx' cy' by simp
    ultimately show ?thesis using eq by (simp add: consolidated_Cons)
  next
    case gt
    then have ne: "\<not> fst x < fst y" "fst x \<noteq> fst y" by auto
    have "fst y < k" if "k \<in> fst ` set (merge_entries (x # xs) ys)" for k
    proof -
      have "k = fst x \<or> k \<in> fst ` set xs \<or> k \<in> fst ` set ys"
        using that merge_entries_keys [of "x # xs" ys] unfolding list.set image_insert by blast
      then show ?thesis using cx' cy' gt less_trans by blast
    qed
    moreover have "consolidated (merge_entries (x # xs) ys)" using ih(3) [OF ne] cx cy' by blast
    ultimately show ?thesis using cy' unfolding merge_entries_greater [OF gt] consolidated_Cons by blast
  qed
qed simp_all

text \<open>
  One pass of either merge loop: a run of entries with keys below the first key of the other side is
  a prefix of the merge.
\<close>

lemma merge_run1:
  assumes "l1 < u1" "u1 \<le> length xs" "l2 < u2" "u2 \<le> length ys" "l1 + 1 + n \<le> u1"
    "fst (xs ! l1) < fst (ys ! l2)"
    "\<And>x. x \<in> set (subslice xs (l1 + 1) (l1 + 1 + n)) \<Longrightarrow> fst x < fst (ys ! l2)"
    "m \<le> 1 + n"
  shows "merge_entries (subslice xs l1 u1) (subslice ys l2 u2) =
    subslice xs l1 (l1 + m) @ merge_entries (subslice xs (l1 + m) u1) (subslice ys l2 u2)"
proof -
  have run: "fst x < fst (ys ! l2)" if "x \<in> set (subslice xs l1 (l1 + (1 + n)))" for x
    using that assms(6) assms(7) [of x] subslice_Cons [of l1 "l1 + (1 + n)" xs] assms(2,5) by auto
  have "fst x < fst (ys ! l2)" if "x \<in> set (subslice xs l1 (l1 + m))" for x
    using that run subslice_append [of l1 "l1 + m" "l1 + (1 + n)" xs] assms(8) by auto
  then show ?thesis
    using merge_entries_prefix1 [of "subslice xs l1 (l1 + m)" "ys ! l2"] assms(2-5,8)
      subslice_append [of l1 "l1 + m" u1 xs] subslice_Cons [of l2 u2 ys]
    by simp
qed

lemma merge_run2:
  assumes "l1 < u1" "u1 \<le> length xs" "l2 < u2" "u2 \<le> length ys" "l2 + 1 + n \<le> u2"
    "fst (ys ! l2) < fst (xs ! l1)"
    "\<And>y. y \<in> set (subslice ys (l2 + 1) (l2 + 1 + n)) \<Longrightarrow> fst y < fst (xs ! l1)"
    "m \<le> 1 + n"
  shows "merge_entries (subslice xs l1 u1) (subslice ys l2 u2) =
    subslice ys l2 (l2 + m) @ merge_entries (subslice xs l1 u1) (subslice ys (l2 + m) u2)"
proof -
  have run: "fst y < fst (xs ! l1)" if "y \<in> set (subslice ys l2 (l2 + (1 + n)))" for y
    using that assms(6) assms(7) [of y] subslice_Cons [of l2 "l2 + (1 + n)" ys] assms(4,5) by auto
  have "fst y < fst (xs ! l1)" if "y \<in> set (subslice ys l2 (l2 + m))" for y
    using that run subslice_append [of l2 "l2 + m" "l2 + (1 + n)" ys] assms(8) by auto
  then show ?thesis
    using merge_entries_prefix2 [of "subslice ys l2 (l2 + m)" "xs ! l1"] assms(1,2,4,5,8)
      subslice_append [of l2 "l2 + m" u2 ys] subslice_Cons [of l1 u1 xs]
    by simp
qed

lemma merge_equal:
  assumes "l1 < u1" "u1 \<le> length xs" "l2 < u2" "u2 \<le> length ys" "fst (xs ! l1) = fst (ys ! l2)"
  shows "merge_entries (subslice xs l1 u1) (subslice ys l2 u2) =
    (if snd (xs ! l1) + snd (ys ! l2) \<noteq> 0 then [(fst (xs ! l1), snd (xs ! l1) + snd (ys ! l2))] else []) @
    merge_entries (subslice xs (l1 + 1) u1) (subslice ys (l2 + 1) u2)"
  unfolding subslice_Cons [OF assms(1,2)] subslice_Cons [OF assms(3,4)] using assms(5) by simp

text \<open>
  Both merge loops repeat such passes until one side is used up.
\<close>

lemma merge_loop_iterate:
  fixes u1 u2 :: nat
  assumes step: "\<And>l1 l2 l. l1 < u1 \<Longrightarrow> l2 < u2 \<Longrightarrow>
      \<exists>l1' l2' p. loop l1 l2 l = loop l1' l2' (lf_append l p) \<and> l1 \<le> l1' \<and> l2 \<le> l2' \<and> l1 + l2 < l1' + l2' \<and>
        l1' \<le> u1 \<and> l2' \<le> u2 \<and> M l1 l2 = p @ M l1' l2'"
    and stop: "\<And>l1 l2 l. \<not> (l1 < u1 \<and> l2 < u2) \<Longrightarrow> loop l1 l2 l = Some (l1, l2, l)"
    and "l1 \<le> u1" "l2 \<le> u2"
  shows "\<exists>l1' l2' es. loop l1 l2 l = Some (l1', l2', lf_append l es) \<and>
    l1' \<le> u1 \<and> l2' \<le> u2 \<and> (l1' = u1 \<or> l2' = u2) \<and> M l1 l2 = es @ M l1' l2'"
  using assms(3,4)
proof (induction "(u1 - l1) + (u2 - l2)" arbitrary: l1 l2 l rule: less_induct)
  case less
  show ?case
  proof (cases "l1 < u1 \<and> l2 < u2")
    case False
    with less.prems stop [of l1 l2 l] show ?thesis
      by (intro exI [of _ l1] exI [of _ l2] exI [of _ "[]"]) auto
  next
    case True
    then obtain a b p where a: "loop l1 l2 l = loop a b (lf_append l p)" "l1 \<le> a" "l2 \<le> b" "l1 + l2 < a + b"
      "a \<le> u1" "b \<le> u2" "M l1 l2 = p @ M a b" using step by blast
    have "(u1 - a) + (u2 - b) < (u1 - l1) + (u2 - l2)" using a(2-6) by linarith
    from less.hyps [OF this a(5,6), of "lf_append l p"] obtain l1' l2' es where
      "loop a b (lf_append l p) = Some (l1', l2', lf_append (lf_append l p) es)"
      "l1' \<le> u1" "l2' \<le> u2" "l1' = u1 \<or> l2' = u2" "M a b = es @ M l1' l2'" by blast
    with a(1,7) show ?thesis by (intro exI [of _ l1'] exI [of _ l2'] exI [of _ "p @ es"]) simp
  qed
qed

lemma push_merge_loop_step:
  assumes lhs: "lf_paired lhs" "sorted (lf_keys lhs)" and rhs: "lf_paired rhs" "sorted (lf_keys rhs)"
    and u: "u1 \<le> lf_len lhs" "u2 \<le> lf_len rhs" and t: "l1 < u1" "l2 < u2"
  shows "\<exists>l1' l2' p. lf_push_merge_loop lhs u1 rhs u2 l1 l2 l = lf_push_merge_loop lhs u1 rhs u2 l1' l2' (lf_append l p) \<and>
    l1 \<le> l1' \<and> l2 \<le> l2' \<and> l1 + l2 < l1' + l2' \<and> l1' \<le> u1 \<and> l2' \<le> u2 \<and>
    merge_entries (subslice (lf_entries lhs) l1 u1) (subslice (lf_entries rhs) l2 u2) =
      p @ merge_entries (subslice (lf_entries lhs) l1' u1) (subslice (lf_entries rhs) l2' u2)"
proof -
  let ?xs = "lf_entries lhs" and ?ys = "lf_entries rhs" and ?sz = "size_of_key (lf_factories l)"
  have len: "u1 \<le> length ?xs" "u2 \<le> length ?ys" using u lf_entries_facts(3) lhs(1) rhs(1) by metis+
  have i: "dv_index (lf_keys lhs) l1 = Some (fst (?xs ! l1))" "dv_index (lf_keys rhs) l2 = Some (fst (?ys ! l2))"
      "dv_index (lf_diffs lhs) l1 = Some (snd (?xs ! l1))" "dv_index (lf_diffs rhs) l2 = Some (snd (?ys ! l2))"
    by (rule dv_index_entries; use lhs(1) rhs(1) t u in simp)+
  consider (lt) "fst (?xs ! l1) < fst (?ys ! l2)" | (eq) "fst (?xs ! l1) = fst (?ys ! l2)"
    | (gt) "fst (?ys ! l2) < fst (?xs ! l1)" by (rule linorder_cases)
  then show ?thesis
  proof cases
    case lt
    obtain n where n: "dv_advance_to ?sz (lf_keys lhs) (l1 + 1) u1 (fst (?ys ! l2)) = Some n" "l1 + 1 + n \<le> u1"
      "\<And>x. x \<in> set (subslice ?xs (l1 + 1) (l1 + 1 + n)) \<Longrightarrow> fst x < fst (?ys ! l2)"
      using lf_advance_to_spec [OF lhs, of "l1 + 1" u1 ?sz "fst (?ys ! l2)"] t u by (metis Suc_eq_plus1 Suc_leI)
    have "lf_push_merge_loop lhs u1 rhs u2 l1 l2 l =
        lf_push_merge_loop lhs u1 rhs u2 (l1 + (1 + n)) l2 (lf_append l (subslice ?xs l1 (l1 + (1 + n))))"
      using t i lt n(1,2) u by (subst lf_push_merge_loop.simps) (simp add: lf_extend_from_range_append [OF lhs(1)])
    with t n(2) merge_run1 [OF t(1) len(1) t(2) len(2) n(2) lt n(3), of "1 + n"] show ?thesis
      by (intro exI [of _ "l1 + (1 + n)"] exI [of _ l2] exI [of _ "subslice ?xs l1 (l1 + (1 + n))"]) simp
  next
    case eq
    let ?p = "if snd (?xs ! l1) + snd (?ys ! l2) \<noteq> 0 then [(fst (?xs ! l1), snd (?xs ! l1) + snd (?ys ! l2))] else []"
    have "lf_push_merge_loop lhs u1 rhs u2 l1 l2 l = lf_push_merge_loop lhs u1 rhs u2 (l1 + 1) (l2 + 1) (lf_append l ?p)"
      using t i eq by (subst lf_push_merge_loop.simps) (simp add: lf_push_append)
    with t merge_equal [OF t(1) len(1) t(2) len(2) eq] show ?thesis
      by (intro exI [of _ "l1 + 1"] exI [of _ "l2 + 1"] exI [of _ ?p]) simp
  next
    case gt
    then have ne: "\<not> fst (?xs ! l1) < fst (?ys ! l2)" "fst (?xs ! l1) \<noteq> fst (?ys ! l2)" by auto
    obtain n where n: "dv_advance_to ?sz (lf_keys rhs) (l2 + 1) u2 (fst (?xs ! l1)) = Some n" "l2 + 1 + n \<le> u2"
      "\<And>x. x \<in> set (subslice ?ys (l2 + 1) (l2 + 1 + n)) \<Longrightarrow> fst x < fst (?xs ! l1)"
      using lf_advance_to_spec [OF rhs, of "l2 + 1" u2 ?sz "fst (?xs ! l1)"] t u by (metis Suc_eq_plus1 Suc_leI)
    have "lf_push_merge_loop lhs u1 rhs u2 l1 l2 l =
        lf_push_merge_loop lhs u1 rhs u2 l1 (l2 + (1 + n)) (lf_append l (subslice ?ys l2 (l2 + (1 + n))))"
      using t i ne n(1,2) u by (subst lf_push_merge_loop.simps) (simp add: lf_extend_from_range_append [OF rhs(1)])
    with t n(2) merge_run2 [OF t(1) len(1) t(2) len(2) n(2) gt n(3), of "1 + n"] show ?thesis
      by (intro exI [of _ l1] exI [of _ "l2 + (1 + n)"] exI [of _ "subslice ?ys l2 (l2 + (1 + n))"]) simp
  qed
qed

lemma push_merge_loop_stop:
  "\<not> (l1 < u1 \<and> l2 < u2) \<Longrightarrow> lf_push_merge_loop lhs u1 rhs u2 l1 l2 l = Some (l1, l2, l)"
  by (subst lf_push_merge_loop.simps) (rule if_not_P)

lemma lf_push_merge_append:
  assumes lhs: "lf_paired lhs" "sorted (lf_keys lhs)" and rhs: "lf_paired rhs" "sorted (lf_keys rhs)"
    and u: "u1 \<le> lf_len lhs" "u2 \<le> lf_len rhs" and "l1 \<le> u1" "l2 \<le> u2"
  shows "lf_push_merge l lhs (l1, u1) rhs (l2, u2) =
    Some (lf_append l (merge_entries (subslice (lf_entries lhs) l1 u1) (subslice (lf_entries rhs) l2 u2)))"
proof -
  obtain l1' l2' es where "lf_push_merge_loop lhs u1 rhs u2 l1 l2 l = Some (l1', l2', lf_append l es)"
    "l1' \<le> u1" "l2' \<le> u2" "l1' = u1 \<or> l2' = u2"
    "merge_entries (subslice (lf_entries lhs) l1 u1) (subslice (lf_entries rhs) l2 u2) =
      es @ merge_entries (subslice (lf_entries lhs) l1' u1) (subslice (lf_entries rhs) l2' u2)"
    using merge_loop_iterate [where loop = "lf_push_merge_loop lhs u1 rhs u2" and l = l
        and M = "\<lambda>l1 l2. merge_entries (subslice (lf_entries lhs) l1 u1) (subslice (lf_entries rhs) l2 u2)",
        OF push_merge_loop_step [OF assms(1-6)] push_merge_loop_stop assms(7,8)]
    by blast
  then show ?thesis
    using lhs(1) rhs(1) u by (auto simp: lf_push_merge_def lf_extend_from_range_append)
qed

lemma lb_retain_loop_append:
  assumes "lf_paired other" "upper \<le> lf_len other"
  shows "lb_retain_loop keep other index upper l =
    Some (lf_append l (filter (keep \<circ> fst) (subslice (lf_entries other) index upper)))"
proof (induction "upper - index" arbitrary: index l)
  case 0
  then have "\<not> index < upper" by simp
  then show ?case by (simp add: lb_retain_loop.simps subslice_def)
next
  case (Suc n)
  then have i: "index < upper" "index < lf_len other" "n = upper - (index + 1)" using assms(2) by auto
  have "subslice (lf_entries other) index upper = lf_entries other ! index # subslice (lf_entries other) (index + 1) upper"
    using subslice_Cons i(1) assms(2) lf_entries_facts(3) [OF assms(1)] by metis
  with Suc.hyps(1) [OF i(3)] i(1) dv_index_entries [OF assms(1) i(2)] show ?case
    by (subst lb_retain_loop.simps) (simp add: lf_push_append)
qed

lemma lb_copy_range_retain_append:
  assumes "lf_paired other" "lower \<le> upper" "upper \<le> lf_len other"
  shows "lb_copy_range_retain_keys l other lower upper keep =
    Some (lf_append l (filter (keep \<circ> fst) (subslice (lf_entries other) lower upper)))"
  using assms by (simp add: lb_copy_range_retain_keys_def lb_retain_loop_append lf_len_def)

lemma retain_merge_loop_step:
  assumes lhs: "lf_paired lhs" "sorted (lf_keys lhs)" and rhs: "lf_paired rhs" "sorted (lf_keys rhs)"
    and u: "u1 \<le> lf_len lhs" "u2 \<le> lf_len rhs" and t: "l1 < u1" "l2 < u2"
  shows "\<exists>l1' l2' p. lb_retain_merge_loop keep lhs u1 rhs u2 l1 l2 l =
      lb_retain_merge_loop keep lhs u1 rhs u2 l1' l2' (lf_append l p) \<and>
    l1 \<le> l1' \<and> l2 \<le> l2' \<and> l1 + l2 < l1' + l2' \<and> l1' \<le> u1 \<and> l2' \<le> u2 \<and>
    filter (keep \<circ> fst) (merge_entries (subslice (lf_entries lhs) l1 u1) (subslice (lf_entries rhs) l2 u2)) =
      p @ filter (keep \<circ> fst) (merge_entries (subslice (lf_entries lhs) l1' u1) (subslice (lf_entries rhs) l2' u2))"
proof -
  let ?xs = "lf_entries lhs" and ?ys = "lf_entries rhs" and ?sz = "size_of_key (lf_factories l)"
  have len: "u1 \<le> length ?xs" "u2 \<le> length ?ys" using u lf_entries_facts(3) lhs(1) rhs(1) by metis+
  have i: "dv_index (lf_keys lhs) l1 = Some (fst (?xs ! l1))" "dv_index (lf_keys rhs) l2 = Some (fst (?ys ! l2))"
      "dv_index (lf_diffs lhs) l1 = Some (snd (?xs ! l1))" "dv_index (lf_diffs rhs) l2 = Some (snd (?ys ! l2))"
    by (rule dv_index_entries; use lhs(1) rhs(1) t u in simp)+
  consider (lt) "fst (?xs ! l1) < fst (?ys ! l2)" | (eq) "fst (?xs ! l1) = fst (?ys ! l2)"
    | (gt) "fst (?ys ! l2) < fst (?xs ! l1)" by (rule linorder_cases)
  then show ?thesis
  proof cases
    case lt
    obtain n where n: "dv_advance_to ?sz (lf_keys lhs) (l1 + 1) u1 (fst (?ys ! l2)) = Some n" "l1 + 1 + n \<le> u1"
      "\<And>x. x \<in> set (subslice ?xs (l1 + 1) (l1 + 1 + n)) \<Longrightarrow> fst x < fst (?ys ! l2)"
      using lf_advance_to_spec [OF lhs, of "l1 + 1" u1 ?sz "fst (?ys ! l2)"] t u by (metis Suc_eq_plus1 Suc_leI)
    define m where "m = min (1 + n) 1000"
    have m: "m \<le> 1 + n" "0 < m" by (simp_all add: m_def)
    let ?p = "filter (keep \<circ> fst) (subslice ?xs l1 (l1 + m))"
    have "lb_retain_merge_loop keep lhs u1 rhs u2 l1 l2 l =
        lb_retain_merge_loop keep lhs u1 rhs u2 (l1 + m) l2 (lf_append l ?p)"
      using t i lt n(1,2) u m
      by (subst lb_retain_merge_loop.simps) (simp add: lb_copy_range_retain_append [OF lhs(1)] m_def)
    with t n(2) m merge_run1 [OF t(1) len(1) t(2) len(2) n(2) lt n(3) m(1)] show ?thesis
      by (intro exI [of _ "l1 + m"] exI [of _ l2] exI [of _ ?p]) simp
  next
    case eq
    let ?p = "if keep (fst (?xs ! l1)) \<and> snd (?xs ! l1) + snd (?ys ! l2) \<noteq> 0
      then [(fst (?xs ! l1), snd (?xs ! l1) + snd (?ys ! l2))] else []"
    have "lb_retain_merge_loop keep lhs u1 rhs u2 l1 l2 l =
        lb_retain_merge_loop keep lhs u1 rhs u2 (l1 + 1) (l2 + 1) (lf_append l ?p)"
      using t i eq by (subst lb_retain_merge_loop.simps) (simp add: lf_push_append)
    with t merge_equal [OF t(1) len(1) t(2) len(2) eq] show ?thesis
      by (intro exI [of _ "l1 + 1"] exI [of _ "l2 + 1"] exI [of _ ?p]) simp
  next
    case gt
    then have ne: "\<not> fst (?xs ! l1) < fst (?ys ! l2)" "fst (?xs ! l1) \<noteq> fst (?ys ! l2)" by auto
    obtain n where n: "dv_advance_to ?sz (lf_keys rhs) (l2 + 1) u2 (fst (?xs ! l1)) = Some n" "l2 + 1 + n \<le> u2"
      "\<And>x. x \<in> set (subslice ?ys (l2 + 1) (l2 + 1 + n)) \<Longrightarrow> fst x < fst (?xs ! l1)"
      using lf_advance_to_spec [OF rhs, of "l2 + 1" u2 ?sz "fst (?xs ! l1)"] t u by (metis Suc_eq_plus1 Suc_leI)
    define m where "m = min (1 + n) 1000"
    have m: "m \<le> 1 + n" "0 < m" by (simp_all add: m_def)
    let ?p = "filter (keep \<circ> fst) (subslice ?ys l2 (l2 + m))"
    have "lb_retain_merge_loop keep lhs u1 rhs u2 l1 l2 l =
        lb_retain_merge_loop keep lhs u1 rhs u2 l1 (l2 + m) (lf_append l ?p)"
      using t i ne n(1,2) u m
      by (subst lb_retain_merge_loop.simps) (simp add: lb_copy_range_retain_append [OF rhs(1)] m_def)
    with t n(2) m merge_run2 [OF t(1) len(1) t(2) len(2) n(2) gt n(3) m(1)] show ?thesis
      by (intro exI [of _ l1] exI [of _ "l2 + m"] exI [of _ ?p]) simp
  qed
qed

lemma retain_merge_loop_stop:
  "\<not> (l1 < u1 \<and> l2 < u2) \<Longrightarrow> lb_retain_merge_loop keep lhs u1 rhs u2 l1 l2 l = Some (l1, l2, l)"
  by (subst lb_retain_merge_loop.simps) (rule if_not_P)

lemma lb_push_merge_retain_append:
  assumes c1: "lf_paired (lc_storage c1)" "sorted (lf_keys (lc_storage c1))"
    and c2: "lf_paired (lc_storage c2)" "sorted (lf_keys (lc_storage c2))"
    and u: "snd (lc_bounds c1) \<le> lf_len (lc_storage c1)" "snd (lc_bounds c2) \<le> lf_len (lc_storage c2)"
    and l: "lc_position c1 \<le> snd (lc_bounds c1)" "lc_position c2 \<le> snd (lc_bounds c2)"
  shows "lb_push_merge_retain_keys l c1 c2 keep =
    Some (lf_append l (filter (keep \<circ> fst) (merge_entries
      (subslice (lf_entries (lc_storage c1)) (lc_position c1) (snd (lc_bounds c1)))
      (subslice (lf_entries (lc_storage c2)) (lc_position c2) (snd (lc_bounds c2))))))"
proof -
  let ?s1 = "lc_storage c1" and ?s2 = "lc_storage c2" and ?u1 = "snd (lc_bounds c1)" and ?u2 = "snd (lc_bounds c2)"
  let ?M = "\<lambda>l1 l2. filter (keep \<circ> fst) (merge_entries (subslice (lf_entries ?s1) l1 ?u1) (subslice (lf_entries ?s2) l2 ?u2))"
  obtain l1 l2 es where
    "lb_retain_merge_loop keep ?s1 ?u1 ?s2 ?u2 (lc_position c1) (lc_position c2) l = Some (l1, l2, lf_append l es)"
    "l1 \<le> ?u1" "l2 \<le> ?u2" "l1 = ?u1 \<or> l2 = ?u2" "?M (lc_position c1) (lc_position c2) = es @ ?M l1 l2"
    using merge_loop_iterate [where loop = "lb_retain_merge_loop keep ?s1 ?u1 ?s2 ?u2" and l = l and M = ?M,
        OF retain_merge_loop_step [OF c1 c2 u] retain_merge_loop_stop l] by blast
  then show ?thesis
    using c1(1) c2(1) u by (auto simp: lb_push_merge_retain_keys_def Let_def lb_copy_range_retain_append)
qed

lemma lf_map_and_consolidate_append:
  fixes l :: "(('k::linorder), ('r::comm_monoid_add)) leaf"
  defines "fs \<equiv> lf_factories l"
  assumes "lf_paired l" "base \<le> lf_len l" "key_sort (sort_unstable_keys fs)"
    "zst_consistent (size_of_key fs) (size_of_diff fs) (map (apfst f) (drop base (lf_entries l)))"
  shows "lf_map_and_consolidate l base f = Some (lf_append (lf_truncate l base)
    (consolidate (sort_key fst) (map (apfst f) (drop base (lf_entries l)))))"
proof -
  let ?ks = "map f (drop base (lf_keys l))" and ?ds = "drop base (lf_diffs l)"
  have z: "zip ?ks ?ds = map (apfst f) (drop base (lf_entries l))"
    by (simp add: lf_entries_def drop_zip zip_map1 apfst_def map_prod_def case_prod_beta')
  have len: "length ?ks = length ?ds" using assms(2) by (simp add: lf_paired_def)
  show ?thesis
  proof (rule consolidate_paired_slices_eq [OF assms(4) _ len, of "size_of_key fs" "size_of_diff fs"])
    show "zst_consistent (size_of_key fs) (size_of_diff fs) (zip ?ks ?ds)" unfolding z by (rule assms(5))
  next
    fix n ks ds
    assume c: "consolidate_paired_slices (sort_unstable_keys fs) (size_of_key fs) (size_of_diff fs) ?ks ?ds = Some (n, ks, ds)"
      and n: "length ks = length ?ks" "length ds = length ?ds" "n \<le> length ks"
      and t: "take n (zip ks ds) = consolidate (sort_key fst) (zip ?ks ?ds)"
    have "length ks = length ds" using n len by simp
    then have "map fst (take n (zip ks ds)) = take n ks" "map snd (take n (zip ks ds)) = take n ds"
      by (simp_all add: take_zip)
    moreover have "base \<le> length (lf_keys l)" "base \<le> length (lf_diffs l)"
      using assms(2,3) by (simp_all add: lf_len_def lf_paired_def)
    ultimately show ?thesis
      using c unfolding z [symmetric] t [symmetric]
      by (simp add: lf_map_and_consolidate_def fs_def Let_def lf_truncate_def lf_append_def)
  qed
qed

lemma lf_truncate_append: "lf_paired l \<Longrightarrow> lf_truncate (lf_append l es) (lf_len l) = l"
  by (simp add: lf_truncate_def lf_append_def lf_len_def lf_paired_def)

lemma lf_map_keys_and_push_merge_append:
  fixes l :: "(('k::linorder), ('r::comm_monoid_add)) leaf"
  assumes "lf_paired lhs" "lf_paired rhs" "lf_paired l"
    "l1 \<le> u1" "u1 \<le> lf_len lhs" "l2 \<le> u2" "u2 \<le> lf_len rhs"
    "key_sort (sort_unstable_keys (lf_factories l))"
    "zst_consistent (size_of_key (lf_factories l)) (size_of_diff (lf_factories l))
      (map (apfst f) (subslice (lf_entries lhs) l1 u1 @ subslice (lf_entries rhs) l2 u2))"
  shows "lf_map_keys_and_push_merge l lhs (l1, u1) rhs (l2, u2) f =
    Some (lf_append l (consolidate (sort_key fst)
      (map (apfst f) (subslice (lf_entries lhs) l1 u1 @ subslice (lf_entries rhs) l2 u2))))"
proof -
  let ?es = "subslice (lf_entries lhs) l1 u1 @ subslice (lf_entries rhs) l2 u2"
  have "drop (lf_len l) (lf_entries (lf_append l ?es)) = ?es"
    using assms(3) by (simp add: lf_entries_append lf_entries_facts(3) [symmetric])
  moreover have "lf_len l \<le> lf_len (lf_append l ?es)" by (simp add: lf_len_def lf_append_def)
  ultimately have "lf_map_and_consolidate (lf_append l ?es) (lf_len l) f =
      Some (lf_append l (consolidate (sort_key fst) (map (apfst f) ?es)))"
    using lf_map_and_consolidate_append [of "lf_append l ?es" "lf_len l" f] assms(3,8,9)
    by (simp add: lf_truncate_append)
  then show ?thesis
    using assms(1-7) by (simp add: lf_map_keys_and_push_merge_def lf_extend_from_range_append)
qed

section \<open>Leaves as weighted sets\<close>

text \<open>
  What a leaf denotes: the weight of every key. The invariant of the layer: as many keys as weights,
  keys strictly increasing, no zero weight.
\<close>

definition lf_weight :: "('k, ('r::comm_monoid_add)) leaf \<Rightarrow> 'k \<Rightarrow> 'r" where
  "lf_weight l k = weight_of k (lf_entries l)"

definition leaf_inv :: "(('k::linorder), ('r::comm_monoid_add)) leaf \<Rightarrow> bool" where
  "leaf_inv l \<longleftrightarrow> lf_paired l \<and> consolidated (lf_entries l)"

lemma leaf_invD:
  assumes "leaf_inv l"
  shows "lf_paired l" "consolidated (lf_entries l)" "sorted (lf_keys l)"
proof -
  show "lf_paired l" "consolidated (lf_entries l)" using assms by (simp_all add: leaf_inv_def)
  then show "sorted (lf_keys l)"
    using lf_entries_facts(1) [of l] strict_sorted_imp_sorted by (auto simp: consolidated_def)
qed

lemma new_append_inv [leaf_inv_intros]:
  "consolidated es \<Longrightarrow> leaf_inv (lf_append (lf_new fs) es)"
  by (simp add: leaf_inv_def lf_paired_def lf_entries_def lf_append_def lf_new_def zip_map_fst_snd)

lemma new_append_entries [simp]: "lf_entries (lf_append (lf_new fs) es) = es"
  by (simp add: lf_entries_def lf_append_def lf_new_def zip_map_fst_snd)

lemma new_append_weight [simp]: "lf_weight (lf_append (lf_new fs) es) k = weight_of k es"
  by (simp add: lf_weight_def)

lemma consolidated_filter: "consolidated xs \<Longrightarrow> consolidated (filter P xs)"
  by (auto simp: consolidated_def sorted_wrt_map sorted_wrt_filter)

lemma lf_cursor_simps [simp]:
  "lc_position (lf_cursor l) = 0" "lc_storage (lf_cursor l) = l" "lc_bounds (lf_cursor l) = (0, lf_len l)"
  by (simp_all add: lf_cursor_def lf_cursor_from_def lc_new_def lc_position_def)

lemma subslice_entries_all: "lf_paired l \<Longrightarrow> subslice (lf_entries l) 0 (lf_len l) = lf_entries l"
  using subslice_all [of "lf_entries l"] by (simp add: lf_entries_facts(3))

lemma lf_merge_append:
  assumes "leaf_inv a" "leaf_inv b"
  shows "lf_merge a b = Some (lf_append (lf_new (lf_factories a)) (merge_entries (lf_entries a) (lf_entries b)))"
  using lf_push_merge_append [of a b "lf_len a" "lf_len b" 0 0] leaf_invD [OF assms(1)] leaf_invD [OF assms(2)]
  by (simp add: lf_merge_def lb_push_merge_def lb_with_capacity_def subslice_entries_all)

lemma lf_eq_iff_weight:
  assumes "leaf_inv a" "leaf_inv b"
  shows "lf_eq a b \<longleftrightarrow> lf_weight a = lf_weight b"
proof
  assume "lf_eq a b"
  then show "lf_weight a = lf_weight b" by (simp add: lf_eq_def lf_weight_def lf_entries_def fun_eq_iff)
next
  assume "lf_weight a = lf_weight b"
  then have "lf_entries a = lf_entries b"
    using consolidated_unique leaf_invD(2) [OF assms(1)] leaf_invD(2) [OF assms(2)]
    by (metis lf_weight_def)
  then show "lf_eq a b"
    using lf_entries_facts leaf_invD(1) [OF assms(1)] leaf_invD(1) [OF assms(2)] unfolding lf_eq_def by metis
qed

lemma weight_of_neg:
  fixes xs :: "('k \<times> 'r::ab_group_add) list"
  shows "weight_of k (map (apsnd uminus) xs) = - weight_of k xs"
  by (induction xs) (auto simp: weight_simps)

lemma lf_neg_entries: "lf_entries (lf_neg_by_ref l) = map (apsnd uminus) (lf_entries l)"
  by (simp add: lf_neg_by_ref_def lf_entries_def zip_map2 apsnd_def map_prod_def case_prod_beta')

lemma leaf_inv_neg:
  fixes l :: "(('k::linorder), ('r::ab_group_add)) leaf"
  assumes "leaf_inv l" shows "leaf_inv (lf_neg_by_ref l)"
proof -
  have "lf_paired (lf_neg_by_ref l)"
    using leaf_invD(1) [OF assms] by (simp add: lf_paired_def lf_neg_by_ref_def)
  moreover have "consolidated (lf_entries (lf_neg_by_ref l))"
    using leaf_invD(2) [OF assms] by (auto simp: lf_neg_entries consolidated_def)
  ultimately show ?thesis by (simp add: leaf_inv_def)
qed

section \<open>Cursors\<close>

text \<open>
  The invariant of a cursor: its range lies in the leaf, whose length is at most \<open>isize::MAX\<close>, and its
  position is in the range, just before it or just behind it.
\<close>

definition lc_inv :: "('k, 'r) leaf_cursor \<Rightarrow> bool" where
  "lc_inv c \<longleftrightarrow> lf_paired (lc_storage c) \<and> lf_len (lc_storage c) < 2 ^ 63 \<and>
     fst (lc_bounds c) \<le> snd (lc_bounds c) \<and> snd (lc_bounds c) \<le> lf_len (lc_storage c) \<and>
     int (fst (lc_bounds c)) - 1 \<le> lc_pos c \<and> lc_pos c \<le> int (snd (lc_bounds c))"

lemma lc_position_valid:
  assumes "lc_inv c" "lc_valid c"
  shows "lc_position c = nat (lc_pos c)" "fst (lc_bounds c) \<le> lc_position c"
    "lc_position c < snd (lc_bounds c)" "lc_position c < lf_len (lc_storage c)"
    "lc_pos c = int (lc_position c)"
proof -
  have p: "0 \<le> lc_pos c" "lc_pos c < 2 ^ 64" "lc_pos c < int (snd (lc_bounds c))"
    "int (fst (lc_bounds c)) \<le> lc_pos c" "snd (lc_bounds c) \<le> lf_len (lc_storage c)"
    using assms by (simp_all add: lc_inv_def lc_valid_def)
  then show e: "lc_position c = nat (lc_pos c)" by (simp add: lc_position_def)
  show "fst (lc_bounds c) \<le> lc_position c" "lc_position c < snd (lc_bounds c)"
    "lc_position c < lf_len (lc_storage c)" "lc_pos c = int (lc_position c)"
    unfolding e using p by linarith+
qed

lemma lc_item_valid:
  assumes "lc_inv c" "lc_valid c"
  shows "lc_item c = Some (lf_entries (lc_storage c) ! lc_position c)"
proof -
  have "lf_paired (lc_storage c)" using assms(1) by (simp add: lc_inv_def)
  with lc_position_valid [OF assms] dv_index_entries [OF this, of "lc_position c"] show ?thesis
    by (simp add: lc_item_def lf_len_def)
qed

lemma lc_pos_inv:
  "lc_inv c \<Longrightarrow> int (fst (lc_bounds c)) - 1 \<le> p \<Longrightarrow> p \<le> int (snd (lc_bounds c)) \<Longrightarrow> lc_inv (c\<lparr>lc_pos := p\<rparr>)"
  by (simp add: lc_inv_def)

lemma lc_step_inv: "lc_inv c \<Longrightarrow> lc_inv (lc_step c)"
  by (auto simp: lc_inv_def lc_step_def lc_valid_def Let_def)

lemma lc_moves_inv:
  assumes "lc_inv c"
  shows "lc_inv (lc_step_reverse c)" "lc_inv (lc_rewind c)" "lc_inv (lc_fast_forward c)"
  using assms by (auto simp: lc_inv_def lc_step_reverse_def lc_rewind_def lc_fast_forward_def Let_def)

lemma lc_step_valid: "lc_valid c \<Longrightarrow> lc_step c = c\<lparr>lc_pos := lc_pos c + 1\<rparr>"
  by (cases c) (auto simp: lc_step_def lc_valid_def Let_def)

lemma lc_collect_range:
  assumes "lc_inv c"
  shows "lc_collect c =
    Some (if lc_valid c then subslice (lf_entries (lc_storage c)) (lc_position c) (snd (lc_bounds c)) else [])"
  using assms
proof (induction "nat (int (snd (lc_bounds c)) - lc_pos c)" arbitrary: c rule: less_induct)
  case less
  show ?case
  proof (cases "lc_valid c")
    case True
    let ?p = "lc_position c" and ?u = "snd (lc_bounds c)" and ?es = "lf_entries (lc_storage c)"
    note pos = lc_position_valid [OF less.prems True] and step = lc_step_valid [OF True]
    have inv: "lc_inv (lc_step c)" by (rule lc_step_inv [OF less.prems])
    have v: "lc_valid (lc_step c) \<longleftrightarrow> ?p + 1 < ?u"
      using pos(2,5) unfolding step lc_valid_def by (simp; linarith)
    have q: "lc_position (lc_step c) = ?p + 1" if "lc_valid (lc_step c)"
      using lc_position_valid(5) [OF inv that] pos(5) by (simp add: step)
    have "nat (int (snd (lc_bounds (lc_step c))) - lc_pos (lc_step c)) < nat (int ?u - lc_pos c)"
      using pos(3,5) by (simp add: step)
    from less.hyps [OF this inv] have ih: "lc_collect (lc_step c) =
        Some (if ?p + 1 < ?u then subslice ?es (?p + 1) ?u else [])"
      using q v by (auto simp: step)
    have "?u \<le> length ?es" using less.prems by (simp add: lc_inv_def lf_entries_facts(3))
    then have "subslice ?es ?p ?u = ?es ! ?p # subslice ?es (?p + 1) ?u" using subslice_Cons pos(3) by blast
    moreover have "(if ?p + 1 < ?u then subslice ?es (?p + 1) ?u else []) = subslice ?es (?p + 1) ?u"
      by (simp add: subslice_def)
    ultimately show ?thesis
      using True lc_item_valid [OF less.prems True] ih by (subst lc_collect.simps) simp
  qed (simp add: lc_collect.simps)
qed

lemma lc_seek_spec:
  assumes "lc_inv c" "lc_valid c" "sorted (lf_keys (lc_storage c))"
  obtains n where "lc_seek key c = Some (c\<lparr>lc_pos := int (lc_position c + n)\<rparr>)"
    "lc_position c + n \<le> snd (lc_bounds c)"
    "\<And>i. lc_position c \<le> i \<Longrightarrow> i < lc_position c + n \<Longrightarrow> lf_keys (lc_storage c) ! i < key"
    "0 < size_of_key (lf_factories (lc_storage c)) \<Longrightarrow> lc_position c + n < snd (lc_bounds c) \<Longrightarrow>
      key \<le> lf_keys (lc_storage c) ! (lc_position c + n)"
proof (rule dv_advance_to_spec [OF assms(3), of "lc_position c" "snd (lc_bounds c)"])
  let ?ks = "lf_keys (lc_storage c)" and ?p = "lc_position c" and ?u = "snd (lc_bounds c)"
  note pos = lc_position_valid [OF assms(1,2)]
  show "?p \<le> ?u" using pos by simp
  show u: "?u \<le> length ?ks" using assms(1) by (simp add: lc_inv_def lf_len_def)
  fix n
  assume n: "dv_advance_to (size_of_key (lf_factories (lc_storage c))) ?ks ?p ?u key = Some n" "?p + n \<le> ?u"
    and lt: "\<And>x. x \<in> set (subslice ?ks ?p (?p + n)) \<Longrightarrow> x < key"
    and ge: "0 < size_of_key (lf_factories (lc_storage c)) \<Longrightarrow> ?p + n < ?u \<Longrightarrow> key \<le> ?ks ! (?p + n)"
  have "?ks ! i < key" if "?p \<le> i" "i < ?p + n" for i
  proof -
    have "subslice ?ks ?p (?p + n) ! (i - ?p) = ?ks ! i" "i - ?p < length (subslice ?ks ?p (?p + n))"
      using that n(2) u by (simp_all add: nth_subslice length_subslice)
    then show ?thesis using lt [OF nth_mem, of "i - ?p"] by simp
  qed
  moreover have "lc_seek key c = Some (c\<lparr>lc_pos := int (?p + n)\<rparr>)"
    using assms(2) n(1) pos(5) by (simp add: lc_seek_def)
  ultimately show thesis using n(2) ge by (intro that [of n])
qed

lemma dv_retreat_to_spec:
  assumes "sorted v" "from \<le> to" "to < length v"
  obtains n where "dv_retreat_to sz v from to val = Some n" "n \<le> to + 1 - from"
    "\<And>i. to + 1 - n \<le> i \<Longrightarrow> i \<le> to \<Longrightarrow> val < v ! i"
    "0 < sz \<Longrightarrow> n < to + 1 - from \<Longrightarrow> v ! (to - n) \<le> val"
proof (cases "sz = 0")
  case True
  with assms that [of 0] show thesis
    by (simp add: dv_retreat_to_def dv_range_def dyn_retreat_def retreat_erased_def)
next
  case False
  then obtain m where m: "sz = Suc m" by (cases sz) auto
  let ?s = "subslice v from (to + 1)" and ?f = "\<lambda>x. x > val"
  have len: "length ?s = to + 1 - from" using assms(3) by (simp add: length_subslice)
  have nth: "rev ?s ! i = v ! (to - i)" if "i < to + 1 - from" for i
    using that len assms by (simp add: rev_nth nth_subslice Suc_diff_le)
  have pc: "prefix_closed ?f (rev ?s)"
    unfolding prefix_closed_def
  proof (intro allI impI, elim conjE)
    fix i j assume ij: "i \<le> j" "j < length (rev ?s)" "rev ?s ! j > val"
    have "v ! (to - j) \<le> v ! (to - i)" using assms(1,3) ij(1) by (simp add: sorted_nth_mono)
    with ij nth [of i] nth [of j] len show "rev ?s ! i > val" by simp
  qed
  define n where "n = dyn_retreat sz ?s ?f"
  have c: "n = length (takeWhile ?f (rev ?s))" using dyn_ret.search_count [OF pc, of m] by (simp add: n_def m)
  have n: "n \<le> to + 1 - from" using c len length_takeWhile_le [of ?f "rev ?s"] by simp
  show thesis
  proof (rule that [of n])
    show "dv_retreat_to sz v from to val = Some n"
      using assms by (simp add: dv_retreat_to_def dv_range_def n_def)
    show "n \<le> to + 1 - from" by (rule n)
    show "val < v ! i" if i: "to + 1 - n \<le> i" "i \<le> to" for i
    proof -
      have "to - i < n" using i n assms(2) by linarith
      then have "rev ?s ! (to - i) > val" "to - i < to + 1 - from"
        using set_takeWhileD [OF nth_mem, of "to - i" ?f "rev ?s"] takeWhile_nth [of "to - i" ?f "rev ?s"] c n by simp_all
      then show ?thesis using nth [of "to - i"] i(2) by simp
    qed
    show "v ! (to - n) \<le> val" if "n < to + 1 - from"
      using nth_length_takeWhile [of ?f "rev ?s"] c that nth [of n] len by (simp add: not_less)
  qed
qed

section \<open>Properties\<close>

text \<open>Keys and weights of eight bytes each, for examples.\<close>

abbreviation u64_factories :: "(('k::linorder), 'r) leaf_factories" where
  "u64_factories \<equiv> \<lparr>size_of_key = 8, size_of_diff = 8, sort_unstable_keys = sort_key fst\<rparr>"

lemma lf_weight_merge:
  assumes "leaf_inv a" "leaf_inv b" "lf_merge a b = Some c"
  shows "leaf_inv c" "lf_weight c = (\<lambda>k. lf_weight a k + lf_weight b k)"
  using assms lf_merge_append [OF assms(1,2)] leaf_invD(2)
  by (auto simp: lf_weight_def weight_simps fun_eq_iff intro!: leaf_inv_intros consolidated_merge)

lemma lf_empty_iff_weight: "leaf_inv a \<Longrightarrow> lf_is_empty a \<longleftrightarrow> lf_weight a = (\<lambda>_. 0)"
proof -
  assume a: "leaf_inv a"
  let ?e = "lf_new (lf_factories a)"
  have "leaf_inv ?e" using new_append_inv [of "[]" "lf_factories a"] by (simp add: consolidated_def)
  from lf_eq_iff_weight [OF a this] have "lf_keys a = [] \<and> lf_diffs a = [] \<longleftrightarrow> lf_weight a = (\<lambda>_. 0)"
    by (simp add: lf_eq_def lf_new_def lf_weight_def lf_entries_def weight_simps fun_eq_iff)
  then show ?thesis using leaf_invD(1) [OF a] by (auto simp: lf_is_empty_def lf_len_def lf_paired_def)
qed

text \<open>
  C8: leaves refine weighted sets. With a leaf read as the weight of every key, merging two leaves is
  pointwise addition, negation is pointwise, equality of leaves is equality of weights and the empty
  leaf is zero; merging never panics and keeps the invariant, so that a leaf merged with its negation
  is empty and merging is commutative.
\<close>

theorem leaf_refines_weights:
  fixes a b :: "(('k::linorder), ('r::ab_group_add)) leaf"
  assumes "leaf_inv a" "leaf_inv b"
  shows "\<exists>ab ba z. lf_merge a b = Some ab \<and> lf_merge b a = Some ba \<and> lf_merge a (lf_neg_by_ref a) = Some z \<and>
    leaf_inv ab \<and> lf_weight ab = (\<lambda>k. lf_weight a k + lf_weight b k) \<and>
    leaf_inv (lf_neg_by_ref a) \<and> lf_weight (lf_neg_by_ref a) = (\<lambda>k. - lf_weight a k) \<and>
    (lf_eq a b \<longleftrightarrow> lf_weight a = lf_weight b) \<and> lf_eq ab ba \<and> lf_is_empty z"
proof -
  have n: "leaf_inv (lf_neg_by_ref a)" by (rule leaf_inv_neg [OF assms(1)])
  have w: "lf_weight (lf_neg_by_ref a) = (\<lambda>k. - lf_weight a k)"
    by (simp add: lf_weight_def lf_neg_entries weight_of_neg fun_eq_iff)
  obtain ab ba z where m: "lf_merge a b = Some ab" "lf_merge b a = Some ba" "lf_merge a (lf_neg_by_ref a) = Some z"
    using lf_merge_append assms n by blast
  note ab = lf_weight_merge [OF assms m(1)] and ba = lf_weight_merge [OF assms(2,1) m(2)]
    and z = lf_weight_merge [OF assms(1) n m(3)]
  have "lf_eq ab ba" using lf_eq_iff_weight [OF ab(1) ba(1)] ab(2) ba(2) by (simp add: add.commute)
  moreover have "lf_is_empty z" using lf_empty_iff_weight [OF z(1)] z(2) w by simp
  ultimately show ?thesis using m ab n w lf_eq_iff_weight [OF assms] by simp
qed

theorem leaf_refines_weights_witness:
  "\<exists>ab. lf_merge (lf_append (lf_new u64_factories) [(1 :: nat, 2 :: int), (4, 1)])
      (lf_append (lf_new u64_factories) [(4, - 1)]) = Some ab \<and> lf_weight ab 4 = 0 \<and> lf_weight ab 1 = 2"
proof -
  have "leaf_inv (lf_append (lf_new u64_factories) [(1 :: nat, 2 :: int), (4, 1)])"
    "leaf_inv (lf_append (lf_new u64_factories) [(4 :: nat, - 1 :: int)])"
    by (intro new_append_inv; simp add: consolidated_def)+
  from leaf_refines_weights [OF this] show ?thesis by (elim exE conjE) (simp add: weight_simps)
qed

text \<open>
  C28: merging two leaves under a filter on keys keeps the sums of the keys that pass the filter and
  drops all others; the result satisfies the invariant. The copying in chunks of at most a thousand
  entries does not show.
\<close>

theorem push_merge_retain_keys_filters:
  assumes "leaf_inv a" "leaf_inv b"
  shows "\<exists>c. lb_push_merge_retain_keys (lf_new fs) (lf_cursor a) (lf_cursor b) keep = Some c \<and> leaf_inv c \<and>
    lf_weight c = (\<lambda>k. if keep k then lf_weight a k + lf_weight b k else 0)"
proof -
  have w: "weight_of k (filter (keep \<circ> fst) es) = (if keep k then weight_of k es else 0)"
    for k and es :: "('a \<times> 'b) list"
    by (induction es) (auto simp: weight_simps)
  note a = leaf_invD [OF assms(1)] and b = leaf_invD [OF assms(2)]
  have "lb_push_merge_retain_keys (lf_new fs) (lf_cursor a) (lf_cursor b) keep =
      Some (lf_append (lf_new fs) (filter (keep \<circ> fst) (merge_entries (lf_entries a) (lf_entries b))))"
    using lb_push_merge_retain_append [of "lf_cursor a" "lf_cursor b" "lf_new fs" keep] a b
    by (simp add: subslice_entries_all)
  then show ?thesis
    using a(2) b(2)
    by (auto simp: lf_weight_def w weight_simps fun_eq_iff intro!: leaf_inv_intros consolidated_filter consolidated_merge)
qed

theorem push_merge_retain_keys_filters_witness:
  "\<exists>c. lb_push_merge_retain_keys (lf_new u64_factories)
      (lf_cursor (lf_append (lf_new u64_factories) [(1 :: nat, 2 :: int), (4, 1)]))
      (lf_cursor (lf_append (lf_new u64_factories) [(4, 3)])) (\<lambda>k. 2 \<le> k) = Some c \<and> leaf_inv c \<and>
    lf_weight c 1 = 0 \<and> lf_weight c 4 = 4"
proof -
  have "leaf_inv (lf_append (lf_new u64_factories) [(1 :: nat, 2 :: int), (4, 1)])"
    "leaf_inv (lf_append (lf_new u64_factories) [(4 :: nat, 3 :: int)])"
    by (intro new_append_inv; simp add: consolidated_def)+
  from push_merge_retain_keys_filters [OF this, of u64_factories "\<lambda>k. 2 \<le> k"] show ?thesis
    by (elim exE conjE) (simp add: weight_simps)
qed

text \<open>
  C29: merging under a function on keys, which need not be monotone, gives the consolidation of the
  mapped entries: the weight of a key is the sum over the entries of both leaves that the function
  sends to it, and the result satisfies the invariant.
\<close>

theorem map_keys_and_push_merge_consolidates:
  fixes fs :: "(('k::linorder), ('r::comm_monoid_add)) leaf_factories"
  assumes "lf_paired a" "lf_paired b" "key_sort (sort_unstable_keys fs)"
    "zst_consistent (size_of_key fs) (size_of_diff fs) (map (apfst f) (lf_entries a @ lf_entries b))"
  shows "\<exists>c. lb_push_merge (lf_new fs) (lf_cursor a) (lf_cursor b) (Some f) = Some c \<and> leaf_inv c \<and>
    lf_weight c = (\<lambda>k. weight_of k (map (apfst f) (lf_entries a @ lf_entries b)))"
proof -
  have n: "lf_paired (lf_new fs)" "lf_factories (lf_new fs) = fs" by (simp_all add: lf_paired_def lf_new_def)
  have "lb_push_merge (lf_new fs) (lf_cursor a) (lf_cursor b) (Some f) = Some (lf_append (lf_new fs)
      (consolidate (sort_key fst) (map (apfst f) (lf_entries a @ lf_entries b))))"
    using lf_map_keys_and_push_merge_append [OF assms(1,2) n(1), of 0 "lf_len a" 0 "lf_len b" f] assms n
    by (simp add: lb_push_merge_def Let_def subslice_entries_all)
  then show ?thesis
    by (auto simp: fun_eq_iff cons_vec.cons_weights intro!: leaf_inv_intros cons_vec.cons_canonical)
qed

theorem map_keys_and_push_merge_consolidates_witness:
  "\<exists>c. lb_push_merge (lf_new u64_factories) (lf_cursor (lf_append (lf_new u64_factories) [(1 :: nat, 2 :: int), (4, 1)]))
      (lf_cursor (lf_append (lf_new u64_factories) [(5, 3)])) (Some (\<lambda>k. 4 - k)) = Some c \<and> leaf_inv c \<and>
    lf_weight c 3 = 2 \<and> lf_weight c 0 = 4"
proof -
  let ?a = "lf_append (lf_new u64_factories) [(1 :: nat, 2 :: int), (4, 1)]"
    and ?b = "lf_append (lf_new u64_factories) [(5 :: nat, 3 :: int)]"
  have "lf_paired ?a" "lf_paired ?b" by (simp_all add: lf_paired_def lf_new_def lf_append_def)
  moreover have "key_sort (sort_unstable_keys (u64_factories :: (nat, int) leaf_factories))"
    using std.key_sort_axioms by simp
  moreover have "zst_consistent (size_of_key u64_factories) (size_of_diff u64_factories)
      (map (apfst (\<lambda>k. 4 - k)) (lf_entries ?a @ lf_entries ?b))"
    by (simp add: zst_consistent_def)
  ultimately have "\<exists>c. lb_push_merge (lf_new u64_factories) (lf_cursor ?a) (lf_cursor ?b) (Some (\<lambda>k. 4 - k)) = Some c \<and> leaf_inv c \<and>
    lf_weight c = (\<lambda>k. weight_of k (map (apfst (\<lambda>k. 4 - k)) (lf_entries ?a @ lf_entries ?b)))"
    by (rule map_keys_and_push_merge_consolidates)
  then show ?thesis by (elim exE conjE) (simp add: weight_simps)
qed

lemma lc_seek_reverse_spec:
  assumes "lc_inv c" "lc_valid c" "sorted (lf_keys (lc_storage c))"
  obtains n where "lc_seek_reverse key c = Some (c\<lparr>lc_pos := lc_pos c - int n\<rparr>)"
    "n \<le> lc_position c + 1 - fst (lc_bounds c)"
    "\<And>i. lc_position c + 1 - n \<le> i \<Longrightarrow> i \<le> lc_position c \<Longrightarrow> key < lf_keys (lc_storage c) ! i"
    "0 < size_of_key (lf_factories (lc_storage c)) \<Longrightarrow> n < lc_position c + 1 - fst (lc_bounds c) \<Longrightarrow>
      lf_keys (lc_storage c) ! (lc_position c - n) \<le> key"
proof -
  note pos = lc_position_valid [OF assms(1,2)]
  obtain n where "dv_retreat_to (size_of_key (lf_factories (lc_storage c))) (lf_keys (lc_storage c))
      (fst (lc_bounds c)) (lc_position c) key = Some n"
    and n: "n \<le> lc_position c + 1 - fst (lc_bounds c)"
    "\<And>i. lc_position c + 1 - n \<le> i \<Longrightarrow> i \<le> lc_position c \<Longrightarrow> key < lf_keys (lc_storage c) ! i"
    "0 < size_of_key (lf_factories (lc_storage c)) \<Longrightarrow> n < lc_position c + 1 - fst (lc_bounds c) \<Longrightarrow>
      lf_keys (lc_storage c) ! (lc_position c - n) \<le> key"
    by (rule dv_retreat_to_spec [OF assms(3) pos(2) pos(4) [unfolded lf_len_def]]) (rule that)
  then have "lc_seek_reverse key c = Some (c\<lparr>lc_pos := lc_pos c - int n\<rparr>)"
    using assms(2) by (simp add: lc_seek_reverse_def)
  with n show thesis by (intro that [of n])
qed

text \<open>
  C30: cursors are safe. On a sorted leaf no move panics, every move keeps the cursor in its range or
  next to it, and reading the item of a valid cursor never panics but returns the entry at its
  position.
\<close>

theorem leaf_cursor_moves_safe:
  assumes "lc_inv c" "sorted (lf_keys (lc_storage c))"
  shows "lc_inv (lc_step c) \<and> lc_inv (lc_step_reverse c) \<and> lc_inv (lc_rewind c) \<and> lc_inv (lc_fast_forward c) \<and>
    (\<exists>d. lc_seek key c = Some d \<and> lc_inv d) \<and> (\<exists>d. lc_seek_reverse key c = Some d \<and> lc_inv d) \<and>
    (if lc_valid c then lc_item c = Some (lf_entries (lc_storage c) ! lc_position c) else True)"
proof (cases "lc_valid c")
  case True
  note pos = lc_position_valid [OF assms(1) True]
  obtain n where n: "lc_seek key c = Some (c\<lparr>lc_pos := int (lc_position c + n)\<rparr>)"
    "lc_position c + n \<le> snd (lc_bounds c)"
    by (rule lc_seek_spec [OF assms(1) True assms(2), of key]) (rule that)
  obtain m where m: "lc_seek_reverse key c = Some (c\<lparr>lc_pos := lc_pos c - int m\<rparr>)"
    "m \<le> lc_position c + 1 - fst (lc_bounds c)"
    by (rule lc_seek_reverse_spec [OF assms(1) True assms(2), of key]) (rule that)
  have "lc_inv (c\<lparr>lc_pos := int (lc_position c + n)\<rparr>)"
    by (rule lc_pos_inv [OF assms(1)]) (use pos n(2) in linarith)+
  moreover have "lc_inv (c\<lparr>lc_pos := lc_pos c - int m\<rparr>)"
    by (rule lc_pos_inv [OF assms(1)]) (use pos m(2) in linarith)+
  ultimately show ?thesis
    using n(1) m(1) lc_item_valid [OF assms(1) True] lc_step_inv [OF assms(1)] lc_moves_inv [OF assms(1)] True
    by simp
next
  case False
  then show ?thesis
    using lc_step_inv [OF assms(1)] lc_moves_inv [OF assms(1)] assms(1) by (simp add: lc_seek_def lc_seek_reverse_def)
qed

theorem leaf_cursor_moves_safe_witness:
  "lc_item (lf_cursor (lf_append (lf_new u64_factories) [(1 :: nat, 2 :: int), (4, 1)])) = Some (1, 2)"
proof -
  let ?c = "lf_cursor (lf_append (lf_new u64_factories) [(1 :: nat, 2 :: int), (4, 1)])"
  have "lc_inv ?c" "sorted (lf_keys (lc_storage ?c))" "lc_valid ?c"
    by (simp_all add: lc_inv_def lf_paired_def lf_append_def lf_new_def lf_len_def lc_valid_def
        lf_cursor_def lf_cursor_from_def lc_new_def)
  then show ?thesis using leaf_cursor_moves_safe [of ?c] by simp
qed

text \<open>
  Building a leaf from tuples and reading it back through a cursor, stepping until the cursor is
  exhausted, returns the tuples in order; in particular the iteration ends.
\<close>

theorem leaf_build_and_collect:
  assumes "length tuples < 2 ^ 63"
  shows "lc_collect (lf_cursor (lb_extend_tuples (lf_new fs) tuples)) = Some tuples"
proof -
  have "lb_extend_tuples l es = lf_append l es" for l :: "('a, 'b) leaf" and es
    unfolding lb_extend_tuples_def by (induction es arbitrary: l) (auto simp: lf_push_append)
  moreover let ?l = "lf_append (lf_new fs) tuples"
  have p: "lf_paired ?l" "lf_len ?l = length tuples" by (simp_all add: lf_paired_def lf_new_def lf_append_def lf_len_def)
  then have "lc_inv (lf_cursor ?l)" using assms
    by (simp add: lc_inv_def) (simp add: lf_cursor_def lf_cursor_from_def lc_new_def)
  from lc_collect_range [OF this] have "lc_collect (lf_cursor ?l) = Some tuples"
    using subslice_entries_all [OF p(1)] p(2)
    by (auto simp: lc_valid_def lf_cursor_def lf_cursor_from_def lc_new_def lc_position_def)
  ultimately show ?thesis by simp
qed

theorem leaf_build_and_collect_witness:
  "lc_collect (lf_cursor (lb_extend_tuples (lf_new u64_factories) [(1 :: nat, 2 :: int), (4, 1)])) = Some [(1, 2), (4, 1)]"
  by (rule leaf_build_and_collect) simp

text \<open>
  C31: seeking forward on a sorted leaf passes only keys below the sought one and stops at a key that
  is not below it, or at the end of the range; seeking backward passes only keys above it and stops
  at a key that is not above it, or before the range. Keys must have a size.
\<close>

theorem leaf_cursor_seek:
  assumes "lc_inv c" "lc_valid c" "sorted (lf_keys (lc_storage c))" "0 < size_of_key (lf_factories (lc_storage c))"
  shows "(\<exists>n. lc_seek key c = Some (c\<lparr>lc_pos := int n\<rparr>) \<and> lc_position c \<le> n \<and> n \<le> snd (lc_bounds c) \<and>
      (\<forall>i. lc_position c \<le> i \<and> i < n \<longrightarrow> lf_keys (lc_storage c) ! i < key) \<and>
      (n < snd (lc_bounds c) \<longrightarrow> key \<le> lf_keys (lc_storage c) ! n)) \<and>
    (\<exists>n. lc_seek_reverse key c = Some (c\<lparr>lc_pos := int n - 1\<rparr>) \<and> fst (lc_bounds c) \<le> n \<and> n \<le> lc_position c + 1 \<and>
      (\<forall>i. n \<le> i \<and> i \<le> lc_position c \<longrightarrow> key < lf_keys (lc_storage c) ! i) \<and>
      (fst (lc_bounds c) < n \<longrightarrow> lf_keys (lc_storage c) ! (n - 1) \<le> key))"
proof
  note pos = lc_position_valid [OF assms(1,2)]
  obtain n where n: "lc_seek key c = Some (c\<lparr>lc_pos := int (lc_position c + n)\<rparr>)"
    "lc_position c + n \<le> snd (lc_bounds c)"
    "\<And>i. lc_position c \<le> i \<Longrightarrow> i < lc_position c + n \<Longrightarrow> lf_keys (lc_storage c) ! i < key"
    "0 < size_of_key (lf_factories (lc_storage c)) \<Longrightarrow> lc_position c + n < snd (lc_bounds c) \<Longrightarrow>
      key \<le> lf_keys (lc_storage c) ! (lc_position c + n)"
    by (rule lc_seek_spec [OF assms(1-3), of key]) (rule that)
  from n(1-3) n(4) [OF assms(4)] show "\<exists>n. lc_seek key c = Some (c\<lparr>lc_pos := int n\<rparr>) \<and> lc_position c \<le> n \<and> n \<le> snd (lc_bounds c) \<and>
      (\<forall>i. lc_position c \<le> i \<and> i < n \<longrightarrow> lf_keys (lc_storage c) ! i < key) \<and>
      (n < snd (lc_bounds c) \<longrightarrow> key \<le> lf_keys (lc_storage c) ! n)"
    by (intro exI [of _ "lc_position c + n"]) simp
  obtain m where m: "lc_seek_reverse key c = Some (c\<lparr>lc_pos := lc_pos c - int m\<rparr>)"
    "m \<le> lc_position c + 1 - fst (lc_bounds c)"
    "\<And>i. lc_position c + 1 - m \<le> i \<Longrightarrow> i \<le> lc_position c \<Longrightarrow> key < lf_keys (lc_storage c) ! i"
    "0 < size_of_key (lf_factories (lc_storage c)) \<Longrightarrow> m < lc_position c + 1 - fst (lc_bounds c) \<Longrightarrow>
      lf_keys (lc_storage c) ! (lc_position c - m) \<le> key"
    by (rule lc_seek_reverse_spec [OF assms(1-3), of key]) (rule that)
  have "int (lc_position c + 1 - m) - 1 = lc_pos c - int m" "lc_position c + 1 - m - 1 = lc_position c - m"
    "fst (lc_bounds c) < lc_position c + 1 - m \<Longrightarrow> m < lc_position c + 1 - fst (lc_bounds c)"
    "fst (lc_bounds c) \<le> lc_position c + 1 - m"
    using m(2) pos(2,5) by linarith+
  with m(1-3) m(4) [OF assms(4)] show "\<exists>n. lc_seek_reverse key c = Some (c\<lparr>lc_pos := int n - 1\<rparr>) \<and> fst (lc_bounds c) \<le> n \<and> n \<le> lc_position c + 1 \<and>
      (\<forall>i. n \<le> i \<and> i \<le> lc_position c \<longrightarrow> key < lf_keys (lc_storage c) ! i) \<and>
      (fst (lc_bounds c) < n \<longrightarrow> lf_keys (lc_storage c) ! (n - 1) \<le> key)"
    by (intro exI [of _ "lc_position c + 1 - m"]) simp
qed

theorem leaf_cursor_seek_witness:
  "lc_seek 3 (lf_cursor (lf_append (lf_new u64_factories) [(1 :: nat, 2 :: int), (4, 1)])) =
     Some (lf_cursor (lf_append (lf_new u64_factories) [(1, 2), (4, 1)])\<lparr>lc_pos := 1\<rparr>)"
proof -
  let ?c = "lf_cursor (lf_append (lf_new u64_factories) [(1 :: nat, 2 :: int), (4, 1)])"
  have c: "lc_inv ?c" "lc_valid ?c" "sorted (lf_keys (lc_storage ?c))"
      "0 < size_of_key (lf_factories (lc_storage ?c))" "lf_keys (lc_storage ?c) = [1, 4]" "lf_len (lc_storage ?c) = 2"
    by (simp_all add: lc_inv_def lf_paired_def lf_append_def lf_new_def lf_len_def lc_valid_def
        lf_cursor_def lf_cursor_from_def lc_new_def)
  obtain n where n: "lc_seek 3 ?c = Some (?c\<lparr>lc_pos := int n\<rparr>)" "n \<le> 2"
    "\<forall>i. 0 \<le> i \<and> i < n \<longrightarrow> [1, 4 :: nat] ! i < 3" "n < 2 \<longrightarrow> 3 \<le> [1, 4 :: nat] ! n"
    using leaf_cursor_seek [OF c(1-4), of 3, THEN conjunct1] c(5,6)
    by (elim exE conjE) (rule that; simp)
  have "n = 1"
  proof (rule ccontr)
    assume "n \<noteq> 1"
    with n(2) consider "n = 0" | "n = 2" by linarith
    then show False
    proof cases
      case 2
      with n(3) [rule_format, of 1] show False by simp
    qed (use n(4) in simp)
  qed
  with n(1) show ?thesis by simp
qed


end
