(* ===== verification/Logical_Time.thy ===== *)
theory Logical_Time
  imports Prelude "HOL-Library.Word"
begin

text \<open>
  Logical time: the traits \<open>PartialOrder\<close>, \<open>Lattice\<close> and \<open>Timestamp\<close>
  (\<open>crates/dbsp/src/algebra/order.rs\<close>, \<open>algebra/lattice.rs\<close>, \<open>time.rs\<close>) and their implementations for
  \<open>UnitTimestamp\<close>, \<open>()\<close>, \<open>u32\<close> and \<open>Product\<close> (\<open>time/product.rs\<close>). The methods of a timestamp type are
  a record of functions, so that \<open>Product\<close> is a function of two such records, as in the source. The
  arithmetic on \<open>u32\<close> wraps around, as it does in a release build.
\<close>

section \<open>Definitions\<close>

type_synonym scope = nat

record 't timestamp =
  ts_less_equal :: "'t \<Rightarrow> 't \<Rightarrow> bool"
  ts_join :: "'t \<Rightarrow> 't \<Rightarrow> 't"
  ts_meet :: "'t \<Rightarrow> 't \<Rightarrow> 't"
  ts_nesting_depth :: nat
  ts_minimum :: 't
  ts_clock_start :: 't
  ts_advance :: "scope \<Rightarrow> 't \<Rightarrow> 't"
  ts_recede :: "scope \<Rightarrow> 't \<Rightarrow> 't"
  ts_checked_recede :: "scope \<Rightarrow> 't \<Rightarrow> 't option"
  ts_epoch_start :: "scope \<Rightarrow> 't \<Rightarrow> 't"
  ts_epoch_end :: "scope \<Rightarrow> 't \<Rightarrow> 't"

definition ts_less_than :: "'t timestamp \<Rightarrow> 't \<Rightarrow> 't \<Rightarrow> bool" where
  "ts_less_than ts s t \<longleftrightarrow> s \<noteq> t \<and> ts_less_equal ts s t"

text \<open>\<open>UnitTimestamp\<close>, a unit type of its own in the source.\<close>

datatype unit_timestamp = UnitTimestamp

definition unit_timestamp_ops :: "unit_timestamp timestamp" where
  "unit_timestamp_ops =
     \<lparr> ts_less_equal = (\<lambda>_ _. True), ts_join = (\<lambda>_ _. UnitTimestamp), ts_meet = (\<lambda>_ _. UnitTimestamp),
       ts_nesting_depth = 0, ts_minimum = UnitTimestamp, ts_clock_start = UnitTimestamp,
       ts_advance = (\<lambda>_ _. UnitTimestamp), ts_recede = (\<lambda>_ _. UnitTimestamp),
       ts_checked_recede = (\<lambda>_ _. None), ts_epoch_start = (\<lambda>_ _. UnitTimestamp),
       ts_epoch_end = (\<lambda>_ _. UnitTimestamp) \<rparr>"

definition unit_ops :: "unit timestamp" where
  "unit_ops =
     \<lparr> ts_less_equal = (\<le>), ts_join = max, ts_meet = min, ts_nesting_depth = 0,
       ts_minimum = (), ts_clock_start = (), ts_advance = (\<lambda>_ _. ()), ts_recede = (\<lambda>_ _. ()),
       ts_checked_recede = (\<lambda>_ _. Some ()), ts_epoch_start = (\<lambda>_ _. ()), ts_epoch_end = (\<lambda>_ _. ()) \<rparr>"

definition u32_ops :: "32 word timestamp" where
  "u32_ops =
     \<lparr> ts_less_equal = (\<le>), ts_join = max, ts_meet = min, ts_nesting_depth = 0,
       ts_minimum = 0, ts_clock_start = 0, ts_advance = (\<lambda>_ t. t + 1), ts_recede = (\<lambda>_ t. t - 1),
       ts_checked_recede = (\<lambda>_ t. if t < 1 then None else Some (t - 1)),
       ts_epoch_start = (\<lambda>_ _. 0), ts_epoch_end = (\<lambda>_ _. - 1) \<rparr>"

datatype ('o, 'i) product = Product (outer: 'o) (inner: 'i)

fun product_advance ::
  "'o timestamp \<Rightarrow> 'i timestamp \<Rightarrow> scope \<Rightarrow> ('o, 'i) product \<Rightarrow> ('o, 'i) product" where
  "product_advance to ti scope (Product o' i) =
     (if scope = 0 then Product o' (ts_advance ti 0 i)
      else Product (ts_advance to (scope - 1) o') (ts_minimum ti))"

fun product_recede ::
  "'o timestamp \<Rightarrow> 'i timestamp \<Rightarrow> scope \<Rightarrow> ('o, 'i) product \<Rightarrow> ('o, 'i) product" where
  "product_recede to ti scope (Product o' i) =
     (if scope = 0 then Product o' (ts_recede ti 0 i)
      else Product (ts_recede to (scope - 1) o') i)"

fun product_checked_recede ::
  "'o timestamp \<Rightarrow> 'i timestamp \<Rightarrow> scope \<Rightarrow> ('o, 'i) product \<Rightarrow> ('o, 'i) product option" where
  "product_checked_recede to ti scope (Product o' i) =
     (if scope = 0 then map_option (\<lambda>i'. Product o' i') (ts_checked_recede ti 0 i)
      else map_option (\<lambda>o''. Product o'' i) (ts_checked_recede to (scope - 1) o'))"

fun product_epoch_start ::
  "'o timestamp \<Rightarrow> 'i timestamp \<Rightarrow> scope \<Rightarrow> ('o, 'i) product \<Rightarrow> ('o, 'i) product" where
  "product_epoch_start to ti scope (Product o' i) =
     (if scope = 0 then Product o' (ts_minimum ti)
      else Product (ts_epoch_start to (scope - 1) o') (ts_minimum ti))"

fun product_epoch_end ::
  "'o timestamp \<Rightarrow> 'i timestamp \<Rightarrow> scope \<Rightarrow> ('o, 'i) product \<Rightarrow> ('o, 'i) product" where
  "product_epoch_end to ti scope (Product o' i) =
     (if scope = 0 then Product o' (ts_epoch_end ti 0 i)
      else Product (ts_epoch_end to (scope - 1) o') (ts_epoch_end ti 0 i))"

definition product_less_equal ::
  "'o timestamp \<Rightarrow> 'i timestamp \<Rightarrow> ('o, 'i) product \<Rightarrow> ('o, 'i) product \<Rightarrow> bool" where
  "product_less_equal to ti s t \<longleftrightarrow>
     ts_less_equal to (outer s) (outer t) \<and> ts_less_equal ti (inner s) (inner t)"

definition product_join ::
  "'o timestamp \<Rightarrow> 'i timestamp \<Rightarrow> ('o, 'i) product \<Rightarrow> ('o, 'i) product \<Rightarrow> ('o, 'i) product" where
  "product_join to ti s t =
     Product (ts_join to (outer s) (outer t)) (ts_join ti (inner s) (inner t))"

definition product_meet ::
  "'o timestamp \<Rightarrow> 'i timestamp \<Rightarrow> ('o, 'i) product \<Rightarrow> ('o, 'i) product \<Rightarrow> ('o, 'i) product" where
  "product_meet to ti s t =
     Product (ts_meet to (outer s) (outer t)) (ts_meet ti (inner s) (inner t))"

definition product_ops :: "'o timestamp \<Rightarrow> 'i timestamp \<Rightarrow> ('o, 'i) product timestamp" where
  "product_ops to ti =
     \<lparr> ts_less_equal = product_less_equal to ti, ts_join = product_join to ti, ts_meet = product_meet to ti,
       ts_nesting_depth = ts_nesting_depth to + 1,
       ts_minimum = Product (ts_minimum to) (ts_minimum ti),
       ts_clock_start = Product (ts_clock_start to) (ts_clock_start ti),
       ts_advance = product_advance to ti, ts_recede = product_recede to ti,
       ts_checked_recede = product_checked_recede to ti,
       ts_epoch_start = product_epoch_start to ti, ts_epoch_end = product_epoch_end to ti \<rparr>"

text \<open>\<open>Lattice::advance_by\<close>, with the frontier as the slice of its elements.\<close>

definition advance_by :: "'t timestamp \<Rightarrow> 't list \<Rightarrow> 't \<Rightarrow> 't" where
  "advance_by ts frontier t =
     (case frontier of
        [] \<Rightarrow> t
      | first # rest \<Rightarrow>
          fold (\<lambda>f result. ts_meet ts result (ts_join ts t f)) rest (ts_join ts t first))"

section \<open>The contract of a lattice of times\<close>

locale time_lattice =
  fixes ts :: "'t timestamp"
  assumes le_refl: "ts_less_equal ts t t"
    and le_trans: "ts_less_equal ts r s \<Longrightarrow> ts_less_equal ts s t \<Longrightarrow> ts_less_equal ts r t"
    and le_antisym: "ts_less_equal ts s t \<Longrightarrow> ts_less_equal ts t s \<Longrightarrow> s = t"
    and join_upper1: "ts_less_equal ts s (ts_join ts s t)"
    and join_upper2: "ts_less_equal ts t (ts_join ts s t)"
    and join_least: "ts_less_equal ts s u \<Longrightarrow> ts_less_equal ts t u \<Longrightarrow> ts_less_equal ts (ts_join ts s t) u"
    and meet_lower1: "ts_less_equal ts (ts_meet ts s t) s"
    and meet_lower2: "ts_less_equal ts (ts_meet ts s t) t"
    and meet_greatest: "ts_less_equal ts u s \<Longrightarrow> ts_less_equal ts u t \<Longrightarrow> ts_less_equal ts u (ts_meet ts s t)"
    and minimum_least: "ts_less_equal ts (ts_minimum ts) t"
begin

lemma join_le_iff: "ts_less_equal ts (ts_join ts s t) u \<longleftrightarrow> ts_less_equal ts s u \<and> ts_less_equal ts t u"
  using join_upper1 join_upper2 join_least le_trans by blast

lemma le_meet_iff: "ts_less_equal ts u (ts_meet ts s t) \<longleftrightarrow> ts_less_equal ts u s \<and> ts_less_equal ts u t"
  using meet_lower1 meet_lower2 meet_greatest le_trans by blast

lemma join_commute: "ts_join ts s t = ts_join ts t s"
  by (rule le_antisym) (simp_all add: join_le_iff join_upper1 join_upper2)

lemma meet_commute: "ts_meet ts s t = ts_meet ts t s"
  by (rule le_antisym) (simp_all add: le_meet_iff meet_lower1 meet_lower2)

lemma join_assoc: "ts_join ts (ts_join ts r s) t = ts_join ts r (ts_join ts s t)"
  by (rule le_antisym) (meson join_le_iff le_refl)+

lemma meet_assoc: "ts_meet ts (ts_meet ts r s) t = ts_meet ts r (ts_meet ts s t)"
  by (rule le_antisym) (meson le_meet_iff le_refl)+

lemma join_minimum: "ts_join ts (ts_minimum ts) t = t"
  by (rule le_antisym) (simp_all add: join_le_iff minimum_least le_refl join_upper2)

lemma le_fold_meet:
  "ts_less_equal ts u (fold (\<lambda>f result. ts_meet ts result (g f)) fs r) \<longleftrightarrow>
     ts_less_equal ts u r \<and> (\<forall>f \<in> set fs. ts_less_equal ts u (g f))"
  by (induction fs arbitrary: r) (auto simp: le_meet_iff)

lemma fold_meet_le:
  "f \<in> set fs \<Longrightarrow> ts_less_equal ts (fold (\<lambda>f result. ts_meet ts result (g f)) fs r) (g f)"
  "ts_less_equal ts (fold (\<lambda>f result. ts_meet ts result (g f)) fs r) r"
  using le_fold_meet [of "fold (\<lambda>f result. ts_meet ts result (g f)) fs r" g fs r] le_refl by blast+

lemma le_advance_by_iff:
  assumes "frontier \<noteq> []"
  shows "ts_less_equal ts u (advance_by ts frontier t) \<longleftrightarrow>
    (\<forall>f \<in> set frontier. ts_less_equal ts u (ts_join ts t f))"
  using assms by (cases frontier) (simp_all add: advance_by_def le_fold_meet)

lemma advance_by_le_join:
  "f \<in> set frontier \<Longrightarrow> ts_less_equal ts (advance_by ts frontier t) (ts_join ts t f)"
  using le_advance_by_iff [of frontier "advance_by ts frontier t" t] le_refl by fastforce

lemma advance_by_increases: "ts_less_equal ts t (advance_by ts frontier t)"
  using le_advance_by_iff [of frontier t t] join_upper1 le_refl
  by (cases frontier) (auto simp: advance_by_def)

lemma advance_by_indistinguishable:
  assumes "f \<in> set frontier" "ts_less_equal ts f u"
  shows "ts_less_equal ts (advance_by ts frontier t) u \<longleftrightarrow> ts_less_equal ts t u"
  using assms advance_by_le_join advance_by_increases join_least le_trans by meson

lemma advance_by_largest:
  assumes ne: "frontier \<noteq> []"
    and same: "\<And>f u. f \<in> set frontier \<Longrightarrow> ts_less_equal ts f u \<Longrightarrow>
      ts_less_equal ts x u \<longleftrightarrow> ts_less_equal ts t u"
  shows "ts_less_equal ts x (advance_by ts frontier t)"
  unfolding le_advance_by_iff [OF ne]
proof
  fix f assume "f \<in> set frontier"
  from same [OF this, of "ts_join ts t f"] show "ts_less_equal ts x (ts_join ts t f)"
    by (simp add: join_upper1 join_upper2)
qed

end

section \<open>The contract of a clock\<close>

text \<open>
  What a clock adds to the lattice: an epoch contains its times, and \<open>checked_recede\<close> goes back in
  time and agrees with \<open>recede\<close> when it succeeds.
\<close>

locale clock = time_lattice +
  assumes epoch_start_le: "ts_less_equal ts (ts_epoch_start ts scope t) t"
    and le_epoch_end: "ts_less_equal ts t (ts_epoch_end ts scope t)"
    and checked_recede_back: "ts_checked_recede ts scope t = Some t' \<Longrightarrow> ts_less_equal ts t' t"
    and checked_recede_recede: "ts_checked_recede ts scope t = Some t' \<Longrightarrow> ts_recede ts scope t = t'"
begin

lemma epoch_nonempty: "ts_less_equal ts (ts_epoch_start ts scope t) (ts_epoch_end ts scope t)"
  using epoch_start_le le_epoch_end le_trans by blast

lemma epoch_contains_recede:
  "ts_checked_recede ts scope t = Some t' \<Longrightarrow> ts_less_equal ts t' (ts_epoch_end ts scope t)"
  using checked_recede_back le_epoch_end le_trans by blast

end

lemmas unit_clock_simps = unit_ops_def unit_timestamp_ops_def

interpretation unit_timestamp_clock: clock unit_timestamp_ops
  by unfold_locales (simp_all add: unit_timestamp_ops_def, metis unit_timestamp.exhaust)

interpretation unit_clock: clock unit_ops
  by unfold_locales (simp_all add: unit_ops_def)

lemma u32_max_greatest: "(t :: 32 word) \<le> - 1"
  by (rule word_n1_ge)

lemma u32_minus_one_le: "\<not> (t :: 32 word) < 1 \<Longrightarrow> t - 1 \<le> t"
  by (simp add: word_le_nat_alt word_less_nat_alt unat_sub not_less)

interpretation u32_clock: clock u32_ops
  by unfold_locales
    (auto simp: u32_ops_def u32_max_greatest u32_minus_one_le split: if_splits)

lemma product_lattice:
  assumes "time_lattice to" "time_lattice ti"
  shows "time_lattice (product_ops to ti)"
proof -
  note o = time_lattice.le_refl [OF assms(1)] time_lattice.join_upper1 [OF assms(1)]
    time_lattice.join_upper2 [OF assms(1)] time_lattice.join_least [OF assms(1)]
    time_lattice.meet_lower1 [OF assms(1)] time_lattice.meet_lower2 [OF assms(1)]
    time_lattice.meet_greatest [OF assms(1)] time_lattice.minimum_least [OF assms(1)]
  note i = time_lattice.le_refl [OF assms(2)] time_lattice.join_upper1 [OF assms(2)]
    time_lattice.join_upper2 [OF assms(2)] time_lattice.join_least [OF assms(2)]
    time_lattice.meet_lower1 [OF assms(2)] time_lattice.meet_lower2 [OF assms(2)]
    time_lattice.meet_greatest [OF assms(2)] time_lattice.minimum_least [OF assms(2)]
  note trans = time_lattice.le_trans [OF assms(1)] time_lattice.le_trans [OF assms(2)]
  note antisym = time_lattice.le_antisym [OF assms(1)] time_lattice.le_antisym [OF assms(2)]
  note defs = product_ops_def product_less_equal_def product_join_def product_meet_def
  show ?thesis
  proof (unfold_locales, goal_cases)
    case (2 r s t)
    then show ?case by (simp add: defs) (blast intro: trans)
  next
    case (3 s t)
    then show ?case by (simp add: defs product.expand antisym)
  qed (simp_all add: defs o i)
qed

lemma product_clock:
  assumes "clock to" "clock ti"
  shows "clock (product_ops to ti)"
proof -
  note lat = clock.axioms(1) [OF assms(1)] clock.axioms(1) [OF assms(2)]
  note co = clock.epoch_start_le [OF assms(1)] clock.le_epoch_end [OF assms(1)]
    clock.checked_recede_back [OF assms(1)] clock.checked_recede_recede [OF assms(1)]
  note ci = clock.epoch_start_le [OF assms(2)] clock.le_epoch_end [OF assms(2)]
    clock.checked_recede_back [OF assms(2)] clock.checked_recede_recede [OF assms(2)]
  note refl = time_lattice.le_refl [OF lat(1)] time_lattice.le_refl [OF lat(2)]
    time_lattice.minimum_least [OF lat(2)]
  show ?thesis
  proof (rule clock.intro [OF product_lattice [OF lat]], unfold_locales, goal_cases)
    case (1 scope t)
    show ?case
      by (cases t) (simp add: product_ops_def product_less_equal_def co ci refl)
  next
    case (2 t scope)
    show ?case
      by (cases t) (simp add: product_ops_def product_less_equal_def co ci refl)
  next
    case (3 scope t t')
    then show ?case
      by (cases t) (auto simp: product_ops_def product_less_equal_def co ci refl split: if_splits)
  next
    case (4 scope t t')
    then show ?case
      by (cases t) (auto simp: product_ops_def co ci split: if_splits)
  qed
qed

interpretation nested_clock: clock "product_ops u32_ops u32_ops"
  by (rule product_clock) (rule u32_clock.clock_axioms)+

interpretation nested2_clock: clock "product_ops (product_ops u32_ops u32_ops) u32_ops"
  by (rule product_clock) (rule nested_clock.clock_axioms u32_clock.clock_axioms)+

section \<open>Properties\<close>

text \<open>
  C25: \<open>advance_by\<close> returns the largest time that is indistinguishable from the given one by the times
  at or beyond the frontier: it compares with each of them as the given time does, and every time
  with that property is at most the result.
\<close>

theorem advance_by_largest_indistinguishable:
  assumes "time_lattice ts" "frontier \<noteq> []"
  shows "(\<forall>u. (\<exists>f \<in> set frontier. ts_less_equal ts f u) \<longrightarrow>
      ts_less_equal ts (advance_by ts frontier t) u = ts_less_equal ts t u) \<and>
    (\<forall>x. (\<forall>u. (\<exists>f \<in> set frontier. ts_less_equal ts f u) \<longrightarrow> ts_less_equal ts x u = ts_less_equal ts t u)
      \<longrightarrow> ts_less_equal ts x (advance_by ts frontier t))"
  using time_lattice.advance_by_indistinguishable [OF assms(1)]
    time_lattice.advance_by_largest [OF assms] by blast

theorem advance_by_largest_indistinguishable_witness:
  "advance_by (product_ops u32_ops u32_ops) [Product 4 8, Product 5 3] (Product 3 7) = Product 4 7 \<and>
    ts_less_equal (product_ops u32_ops u32_ops) (Product 4 7) (Product 5 9) =
      ts_less_equal (product_ops u32_ops u32_ops) (Product 3 7) (Product 5 9)"
proof -
  have v: "advance_by (product_ops u32_ops u32_ops) [Product 4 8, Product 5 3] (Product 3 7) = Product 4 7"
    by (simp add: advance_by_def product_ops_def product_join_def product_meet_def u32_ops_def)
  have "ts_less_equal (product_ops u32_ops u32_ops) (Product 4 8) (Product 5 9)"
    by (simp add: product_ops_def product_less_equal_def u32_ops_def)
  with advance_by_largest_indistinguishable [OF nested_clock.time_lattice_axioms,
      of "[Product 4 8, Product 5 3]" "Product 3 7"] v
  show ?thesis by auto
qed

text \<open>
  C26: the product of two clocks is a clock: the componentwise order with componentwise join and meet
  is a lattice with the pair of minima at the bottom, every time lies in its epoch at every scope,
  and \<open>checked_recede\<close> goes back in time and agrees with \<open>recede\<close>.
\<close>

theorem product_of_clocks:
  assumes "clock to" "clock ti"
  shows "clock (product_ops to ti) \<and>
    ts_nesting_depth (product_ops to ti) = Suc (ts_nesting_depth to)"
  using product_clock [OF assms] by (simp add: product_ops_def)

theorem product_of_clocks_witness:
  "clock (product_ops u32_ops unit_ops) \<and> ts_nesting_depth (product_ops u32_ops unit_ops) = 1"
  using product_of_clocks [OF u32_clock.clock_axioms unit_clock.clock_axioms] by (simp add: u32_ops_def)

text \<open>
  Ticks on a nested clock: a tick of the inner clock can be taken back, a tick of the outer clock
  resets the inner one, and at the first tick \<open>checked_recede\<close> fails.
\<close>

theorem nested_clock_ticks:
  assumes "i \<noteq> - 1" "o' \<noteq> - 1"
  shows "ts_checked_recede (product_ops u32_ops u32_ops) 0
      (ts_advance (product_ops u32_ops u32_ops) 0 (Product o' i)) = Some (Product o' i) \<and>
    ts_advance (product_ops u32_ops u32_ops) 1 (Product o' i) = Product (o' + 1) 0 \<and>
    ts_checked_recede (product_ops u32_ops u32_ops) 1
      (ts_advance (product_ops u32_ops u32_ops) 1 (Product o' i)) = Some (Product o' 0) \<and>
    ts_checked_recede (product_ops u32_ops u32_ops) 0 (Product o' 0) = None"
proof -
  have "\<not> t + 1 < (1 :: 32 word)" if "t \<noteq> - 1" for t
    using that by (simp add: word_less_1 add_eq_0_iff2)
  with assms show ?thesis by (simp add: product_ops_def u32_ops_def)
qed

theorem nested_clock_ticks_witness:
  "ts_checked_recede (product_ops u32_ops u32_ops) 0
     (ts_advance (product_ops u32_ops u32_ops) 0 (Product 2 3)) = Some (Product 2 3) \<and>
   ts_advance (product_ops u32_ops u32_ops) 1 (Product 2 3) = Product 3 0"
  using nested_clock_ticks [of 3 2] by simp


end
