(* ===== verification/Antichains.thy ===== *)
theory Antichains
  imports Logical_Time
begin

text \<open>
  Frontiers of logical time: \<open>Antichain\<close> and \<open>AntichainRef\<close> of \<open>crates/dbsp/src/time/antichain.rs\<close> with
  their \<open>Lattice\<close> implementation in \<open>crates/dbsp/src/algebra/lattice.rs\<close>. An antichain is the vector of
  its elements, a list; the reference type has the same methods. What an antichain denotes is the set
  of times at or beyond it.
\<close>

section \<open>Definitions\<close>

type_synonym 't antichain = "'t list"

definition ac_new :: "'t antichain" where
  "ac_new = []"

definition ac_from_elem :: "'t \<Rightarrow> 't antichain" where
  "ac_from_elem element = [element]"

definition ac_clear :: "'t antichain \<Rightarrow> 't antichain" where
  "ac_clear a = []"

definition ac_insert :: "'t timestamp \<Rightarrow> 't \<Rightarrow> 't antichain \<Rightarrow> bool \<times> 't antichain" where
  "ac_insert ts element a =
     (if \<not> list_ex (\<lambda>x. ts_less_equal ts x element) a
      then (True, filter (\<lambda>x. \<not> ts_less_equal ts element x) a @ [element])
      else (False, a))"

fun ac_extend_loop :: "'t timestamp \<Rightarrow> 't list \<Rightarrow> bool \<Rightarrow> 't antichain \<Rightarrow> bool \<times> 't antichain" where
  "ac_extend_loop ts [] added a = (added, a)"
| "ac_extend_loop ts (x # xs) added a =
     (case ac_insert ts x a of (b, a) \<Rightarrow> ac_extend_loop ts xs (added \<or> b) a)"

definition ac_extend :: "'t timestamp \<Rightarrow> 't list \<Rightarrow> 't antichain \<Rightarrow> bool \<times> 't antichain" where
  "ac_extend ts xs a = ac_extend_loop ts xs False a"

definition ac_less_than :: "'t timestamp \<Rightarrow> 't antichain \<Rightarrow> 't \<Rightarrow> bool" where
  "ac_less_than ts a time \<longleftrightarrow> list_ex (\<lambda>x. ts_less_than ts x time) a"

definition ac_less_equal :: "'t timestamp \<Rightarrow> 't antichain \<Rightarrow> 't \<Rightarrow> bool" where
  "ac_less_equal ts a time \<longleftrightarrow> list_ex (\<lambda>x. ts_less_equal ts x time) a"

text \<open>\<open>into_option\<close> and \<open>as_option\<close>: the last element; the length is asserted to be at most one.\<close>

definition ac_as_option :: "'t antichain \<Rightarrow> 't option" where
  "ac_as_option a = (if a = [] then None else Some (last a))"

definition ac_eq :: "'t antichain \<Rightarrow> 't antichain \<Rightarrow> bool" where
  "ac_eq a b \<longleftrightarrow> length a = length b \<and>
     (list_all (\<lambda>(t1, t2). t1 = t2) (zip a b) \<or> list_all (\<lambda>t1. list_ex (\<lambda>t2. t1 = t2) b) a)"

definition ac_order :: "'t timestamp \<Rightarrow> 't antichain \<Rightarrow> 't antichain \<Rightarrow> bool" where
  "ac_order ts a b \<longleftrightarrow> list_all (\<lambda>t2. list_ex (\<lambda>t1. ts_less_equal ts t1 t2) a) b"

definition ac_insert_all :: "'t timestamp \<Rightarrow> 't list \<Rightarrow> 't antichain \<Rightarrow> 't antichain" where
  "ac_insert_all ts xs a = fold (\<lambda>x a. snd (ac_insert ts x a)) xs a"

definition ac_from_vec :: "'t timestamp \<Rightarrow> 't list \<Rightarrow> 't antichain" where
  "ac_from_vec ts vec = ac_insert_all ts vec ac_new"

definition ac_from_iter :: "'t timestamp \<Rightarrow> 't list \<Rightarrow> 't antichain" where
  "ac_from_iter ts xs = snd (ac_extend ts xs ac_new)"

definition ac_join :: "'t timestamp \<Rightarrow> 't antichain \<Rightarrow> 't antichain \<Rightarrow> 't antichain" where
  "ac_join ts a b =
     fold (\<lambda>time1 upper. fold (\<lambda>time2 upper. snd (ac_insert ts (ts_join ts time1 time2) upper)) b upper)
       a ac_new"

definition ac_meet :: "'t timestamp \<Rightarrow> 't antichain \<Rightarrow> 't antichain \<Rightarrow> 't antichain" where
  "ac_meet ts a b = ac_insert_all ts b (ac_insert_all ts a ac_new)"

section \<open>What an antichain denotes\<close>

definition beyond :: "'t timestamp \<Rightarrow> 't antichain \<Rightarrow> 't set" where
  "beyond ts a = {t. ac_less_equal ts a t}"

definition is_antichain :: "'t timestamp \<Rightarrow> 't antichain \<Rightarrow> bool" where
  "is_antichain ts a \<longleftrightarrow> sorted_wrt (\<lambda>x y. \<not> ts_less_equal ts x y \<and> \<not> ts_less_equal ts y x) a"

context time_lattice
begin

lemma antichain_iff:
  "is_antichain ts a \<longleftrightarrow>
    distinct a \<and> (\<forall>x \<in> set a. \<forall>y \<in> set a. ts_less_equal ts x y \<longrightarrow> x = y)"
proof (induction a)
  case (Cons z a)
  then show ?case using le_refl by (fastforce simp: is_antichain_def)
qed (simp add: is_antichain_def)

lemma beyond_iff: "t \<in> beyond ts a \<longleftrightarrow> (\<exists>x \<in> set a. ts_less_equal ts x t)"
  by (simp add: beyond_def ac_less_equal_def list_ex_iff)

lemma beyond_insert: "beyond ts (snd (ac_insert ts e a)) = beyond ts a \<union> {t. ts_less_equal ts e t}"
proof (rule set_eqI)
  fix t
  show "t \<in> beyond ts (snd (ac_insert ts e a)) \<longleftrightarrow> t \<in> beyond ts a \<union> {t. ts_less_equal ts e t}"
  proof (cases "list_ex (\<lambda>x. ts_less_equal ts x e) a")
    case True
    then show ?thesis using le_trans by (auto simp: beyond_iff ac_insert_def list_ex_iff; blast)
  next
    case False
    then show ?thesis using le_trans by (auto simp: beyond_iff ac_insert_def; blast)
  qed
qed

lemma antichain_insert:
  assumes "is_antichain ts a"
  shows "is_antichain ts (snd (ac_insert ts e a))"
proof (cases "list_ex (\<lambda>x. ts_less_equal ts x e) a")
  case False
  then have "\<forall>x \<in> set a. \<not> ts_less_equal ts x e" by (simp add: list_ex_iff)
  with assms False show ?thesis
    by (auto simp: ac_insert_def is_antichain_def sorted_wrt_append sorted_wrt_filter)
qed (use assms in \<open>simp add: ac_insert_def\<close>)

lemma insert_changes_iff: "fst (ac_insert ts e a) \<longleftrightarrow> e \<notin> beyond ts a"
  by (simp add: ac_insert_def beyond_iff list_ex_iff)

lemma antichain_insert_all:
  "is_antichain ts a \<Longrightarrow> is_antichain ts (ac_insert_all ts xs a)"
  by (induction xs arbitrary: a) (simp_all add: ac_insert_all_def antichain_insert)

lemma beyond_insert_all:
  "beyond ts (ac_insert_all ts xs a) = beyond ts a \<union> beyond ts xs"
proof (induction xs arbitrary: a)
  case (Cons x xs)
  have "beyond ts (ac_insert_all ts (x # xs) a) = beyond ts (snd (ac_insert ts x a)) \<union> beyond ts xs"
    using Cons.IH [of "snd (ac_insert ts x a)"] by (simp add: ac_insert_all_def)
  also have "\<dots> = beyond ts a \<union> beyond ts (x # xs)"
    unfolding beyond_insert by (auto simp: beyond_iff)
  finally show ?case .
qed (simp add: ac_insert_all_def beyond_iff set_eq_iff)

lemma extend_loop_elements: "snd (ac_extend_loop ts xs added a) = ac_insert_all ts xs a"
  by (induction xs arbitrary: added a) (auto simp: ac_insert_all_def split: prod.splits)

lemma extend_loop_added:
  "fst (ac_extend_loop ts xs added a) \<longleftrightarrow> added \<or> \<not> beyond ts xs \<subseteq> beyond ts a"
proof (induction xs arbitrary: added a)
  case (Cons x xs)
  obtain b a' where i: "ac_insert ts x a = (b, a')" by force
  have b: "b \<longleftrightarrow> x \<notin> beyond ts a" using insert_changes_iff [of x a] i by simp
  have a': "beyond ts a' = beyond ts a \<union> {t. ts_less_equal ts x t}" using beyond_insert [of x a] i by simp
  have up: "{t. ts_less_equal ts x t} \<subseteq> beyond ts a \<longleftrightarrow> x \<in> beyond ts a"
  proof
    assume "x \<in> beyond ts a"
    then obtain z where "z \<in> set a" "ts_less_equal ts z x" by (auto simp: beyond_iff)
    with le_trans show "{t. ts_less_equal ts x t} \<subseteq> beyond ts a" unfolding beyond_iff subset_iff by blast
  qed (use le_refl in blast)
  have c: "beyond ts (x # xs) = {t. ts_less_equal ts x t} \<union> beyond ts xs" by (auto simp: beyond_iff)
  have "fst (ac_extend_loop ts (x # xs) added a) \<longleftrightarrow> (added \<or> b) \<or> \<not> beyond ts xs \<subseteq> beyond ts a'"
    using Cons.IH [of "added \<or> b" a'] i by simp
  also have "\<dots> \<longleftrightarrow> added \<or> \<not> beyond ts (x # xs) \<subseteq> beyond ts a"
    unfolding a' c b Un_subset_iff up using up by blast
  finally show ?case .
qed (simp add: beyond_iff subset_iff)

lemma order_iff_beyond: "ac_order ts a b \<longleftrightarrow> beyond ts b \<subseteq> beyond ts a"
proof
  assume "ac_order ts a b"
  then show "beyond ts b \<subseteq> beyond ts a"
    using le_trans by (auto simp: ac_order_def beyond_iff list_all_iff list_ex_iff) blast
next
  assume sub: "beyond ts b \<subseteq> beyond ts a"
  have "t \<in> beyond ts a" if "t \<in> set b" for t
    using sub that le_refl by (auto simp: beyond_iff subset_iff)
  then show "ac_order ts a b"
    by (auto simp: ac_order_def beyond_iff list_all_iff list_ex_iff)
qed

lemma antichain_determined:
  assumes "is_antichain ts a" "is_antichain ts b" "beyond ts a = beyond ts b"
  shows "set a = set b"
proof -
  have sub: "set x \<subseteq> set y"
    if x: "is_antichain ts x" and y: "is_antichain ts y" and eq: "beyond ts x = beyond ts y" for x y
  proof
    fix t assume t: "t \<in> set x"
    then have "t \<in> beyond ts x" using le_refl by (auto simp: beyond_iff)
    then have "t \<in> beyond ts y" using eq by simp
    then obtain u where u: "u \<in> set y" "ts_less_equal ts u t" by (auto simp: beyond_iff)
    then have "u \<in> beyond ts y" using le_refl by (auto simp: beyond_iff)
    then have "u \<in> beyond ts x" using eq by simp
    then obtain w where w: "w \<in> set x" "ts_less_equal ts w u" by (auto simp: beyond_iff)
    then have "w = t" using x t u(2) le_trans unfolding antichain_iff by blast
    with w u le_antisym have "u = t" by blast
    with u show "t \<in> set y" by simp
  qed
  show ?thesis using sub assms by blast
qed

lemma eq_iff_set:
  assumes "is_antichain ts a" "is_antichain ts b"
  shows "ac_eq a b \<longleftrightarrow> set a = set b"
proof
  assume eq: "ac_eq a b"
  then have len: "length a = length b" by (simp add: ac_eq_def)
  have d: "distinct a" "distinct b" using assms by (simp_all add: antichain_iff)
  from eq have "a = b \<or> set a \<subseteq> set b"
    by (auto simp: ac_eq_def list_all_iff list_ex_iff list_eq_iff_zip_eq)
  then have "set a \<subseteq> set b" by blast
  with d len show "set a = set b" by (metis card_subset_eq distinct_card finite_set)
next
  assume "set a = set b"
  with assms show "ac_eq a b"
    by (auto simp: ac_eq_def list_all_iff list_ex_iff antichain_iff) (metis distinct_card)
qed

lemma beyond_Nil: "beyond ts [] = {}"
  by (simp add: beyond_iff set_eq_iff)

lemma antichain_Nil: "is_antichain ts []"
  by (simp add: is_antichain_def)

lemma join_row:
  "beyond ts (fold (\<lambda>t2 u. snd (ac_insert ts (ts_join ts t1 t2) u)) b u) =
     beyond ts u \<union> ({t. ts_less_equal ts t1 t} \<inter> beyond ts b)"
proof (induction b arbitrary: u)
  case (Cons t2 b)
  have "beyond ts (t2 # b) = {t. ts_less_equal ts t2 t} \<union> beyond ts b" by (auto simp: beyond_iff)
  with Cons.IH show ?case by (auto simp: beyond_insert join_le_iff)
qed (simp add: beyond_Nil)

lemma antichain_row:
  "is_antichain ts u \<Longrightarrow> is_antichain ts (fold (\<lambda>t2 u. snd (ac_insert ts (ts_join ts t1 t2) u)) b u)"
  by (induction b arbitrary: u) (simp_all add: antichain_insert)

lemma beyond_join: "beyond ts (ac_join ts a b) = beyond ts a \<inter> beyond ts b"
proof -
  have "beyond ts (fold (\<lambda>t1 u. fold (\<lambda>t2 u. snd (ac_insert ts (ts_join ts t1 t2) u)) b u) a u) =
      beyond ts u \<union> (beyond ts a \<inter> beyond ts b)" for u
  proof (induction a arbitrary: u)
    case (Cons t1 a)
    have "beyond ts (t1 # a) = {t. ts_less_equal ts t1 t} \<union> beyond ts a" by (auto simp: beyond_iff)
    with Cons.IH show ?case by (auto simp: join_row)
  qed (simp add: beyond_Nil)
  then show ?thesis by (simp add: ac_join_def ac_new_def beyond_Nil)
qed

lemma antichain_join: "is_antichain ts (ac_join ts a b)"
proof -
  have "is_antichain ts u \<Longrightarrow>
      is_antichain ts (fold (\<lambda>t1 u. fold (\<lambda>t2 u. snd (ac_insert ts (ts_join ts t1 t2) u)) b u) a u)" for u
    by (induction a arbitrary: u) (simp_all add: antichain_row)
  then show ?thesis by (simp add: ac_join_def ac_new_def is_antichain_def)
qed

lemma beyond_meet: "beyond ts (ac_meet ts a b) = beyond ts a \<union> beyond ts b"
  by (simp add: ac_meet_def beyond_insert_all ac_new_def beyond_Nil)

lemma antichain_meet: "is_antichain ts (ac_meet ts a b)"
  by (simp add: ac_meet_def antichain_insert_all ac_new_def antichain_Nil)

lemma from_vec_spec: "is_antichain ts (ac_from_vec ts v)" "beyond ts (ac_from_vec ts v) = beyond ts v"
  by (simp_all add: ac_from_vec_def antichain_insert_all beyond_insert_all ac_new_def beyond_Nil
      antichain_Nil)

lemma insert_all_subset: "set (ac_insert_all ts xs a) \<subseteq> set xs \<union> set a"
proof (induction xs arbitrary: a)
  case (Cons x xs)
  have "set (snd (ac_insert ts x a)) \<subseteq> insert x (set a)" by (auto simp: ac_insert_def)
  with Cons.IH [of "snd (ac_insert ts x a)"] show ?case by (auto simp: ac_insert_all_def)
qed (simp add: ac_insert_all_def)

lemma from_vec_minimal:
  "set (ac_from_vec ts v) = {x \<in> set v. \<forall>y \<in> set v. ts_less_equal ts y x \<longrightarrow> y = x}"
proof (rule set_eqI, rule iffI)
  let ?a = "ac_from_vec ts v"
  have sub: "set ?a \<subseteq> set v"
    using insert_all_subset [of v ac_new] by (simp add: ac_from_vec_def ac_new_def)
  have cover: "\<exists>z \<in> set ?a. ts_less_equal ts z y" if "y \<in> set v" for y
  proof -
    have "y \<in> beyond ts v" using that le_refl by (auto simp: beyond_iff)
    then show ?thesis unfolding from_vec_spec(2) [of v, symmetric] beyond_iff by simp
  qed
  fix x
  { assume x: "x \<in> set ?a"
    have "y = x" if y: "y \<in> set v" "ts_less_equal ts y x" for y
    proof -
      obtain z where z: "z \<in> set ?a" "ts_less_equal ts z y" using cover y(1) by blast
      then have "z = x" using from_vec_spec(1) [of v] x le_trans y(2) unfolding antichain_iff by blast
      with z y le_antisym show ?thesis by blast
    qed
    with sub x show "x \<in> {x \<in> set v. \<forall>y \<in> set v. ts_less_equal ts y x \<longrightarrow> y = x}" by blast }
  { assume "x \<in> {x \<in> set v. \<forall>y \<in> set v. ts_less_equal ts y x \<longrightarrow> y = x}"
    with cover sub show "x \<in> set ?a" by blast }
qed

lemma total_antichain_short:
  assumes "\<And>s t. ts_less_equal ts s t \<or> ts_less_equal ts t s" "is_antichain ts a"
  shows "length a \<le> 1"
proof (cases a)
  case (Cons x xs)
  then show ?thesis using assms by (cases xs) (auto simp: is_antichain_def)
qed simp

end

section \<open>Properties\<close>

text \<open>
  C10: antichains refine up-closed sets of times. With an antichain read as the set of times at or
  beyond it, \<open>less_equal\<close> is membership, \<open>insert\<close> adds the times at or beyond the new element and says
  whether that changed the set, the order of antichains is reverse inclusion, \<open>join\<close> is intersection
  and \<open>meet\<close> is union; all results are antichains again.
\<close>

theorem antichain_refines_upper_sets:
  assumes "time_lattice ts" "is_antichain ts a" "is_antichain ts b"
  shows "(ac_less_equal ts a t \<longleftrightarrow> t \<in> beyond ts a) \<and>
    beyond ts (snd (ac_insert ts e a)) = beyond ts a \<union> beyond ts (ac_from_elem e) \<and>
    (fst (ac_insert ts e a) \<longleftrightarrow> e \<notin> beyond ts a) \<and>
    (ac_order ts a b \<longleftrightarrow> beyond ts b \<subseteq> beyond ts a) \<and>
    (ac_eq a b \<longleftrightarrow> beyond ts a = beyond ts b) \<and>
    beyond ts (ac_join ts a b) = beyond ts a \<inter> beyond ts b \<and>
    beyond ts (ac_meet ts a b) = beyond ts a \<union> beyond ts b \<and>
    is_antichain ts (snd (ac_insert ts e a)) \<and> is_antichain ts (ac_join ts a b) \<and>
    is_antichain ts (ac_meet ts a b)"
proof -
  note l = assms(1)
  have "ac_eq a b \<longleftrightarrow> beyond ts a = beyond ts b"
    using time_lattice.eq_iff_set [OF assms] time_lattice.antichain_determined [OF assms]
      time_lattice.beyond_iff [OF l] by blast
  moreover have "beyond ts (ac_from_elem e) = {t. ts_less_equal ts e t}"
    by (simp add: time_lattice.beyond_iff [OF l] ac_from_elem_def set_eq_iff)
  ultimately show ?thesis
    using time_lattice.beyond_insert [OF l] time_lattice.insert_changes_iff [OF l]
      time_lattice.order_iff_beyond [OF l] time_lattice.beyond_join [OF l]
      time_lattice.beyond_meet [OF l] time_lattice.antichain_insert [OF l assms(2)]
      time_lattice.antichain_join [OF l] time_lattice.antichain_meet [OF l]
    by (simp add: beyond_def)
qed

theorem antichain_refines_upper_sets_witness:
  "is_antichain u32_ops [7] \<and> beyond u32_ops (ac_join u32_ops [7] [9]) = beyond u32_ops [7] \<inter> beyond u32_ops [9] \<and>
    fst (ac_insert u32_ops 3 [7])"
proof -
  have a: "is_antichain u32_ops [7]" "is_antichain u32_ops [9]" by (simp_all add: is_antichain_def)
  have "(3 :: 32 word) \<notin> beyond u32_ops [7]"
    by (simp add: beyond_def ac_less_equal_def u32_ops_def)
  with antichain_refines_upper_sets [OF u32_clock.time_lattice_axioms a, of 0 3] a(1)
  show ?thesis by blast
qed

text \<open>
  The antichain built from a vector holds exactly the minimal elements of the vector, each once,
  whatever the order of the vector, and bulk insertion through \<open>extend\<close> builds the same.
\<close>

theorem antichain_from_vec_minimal:
  assumes "time_lattice ts"
  shows "set (ac_from_vec ts v) = {x \<in> set v. \<forall>y \<in> set v. ts_less_equal ts y x \<longrightarrow> y = x} \<and>
    distinct (ac_from_vec ts v) \<and> ac_from_iter ts v = ac_from_vec ts v"
  using time_lattice.from_vec_minimal [OF assms] time_lattice.from_vec_spec(1) [OF assms]
    time_lattice.antichain_iff [OF assms] time_lattice.extend_loop_elements [OF assms]
  by (simp add: ac_from_iter_def ac_extend_def ac_from_vec_def)

theorem antichain_from_vec_minimal_witness:
  "set (ac_from_vec (product_ops u32_ops u32_ops) [Product 2 2, Product 1 3, Product 2 5]) =
     {Product 2 2, Product 1 3}"
proof -
  have "set (ac_from_vec (product_ops u32_ops u32_ops) [Product 2 2, Product 1 3, Product 2 5]) =
    {x \<in> set [Product 2 2, Product 1 3, Product 2 5]. \<forall>y \<in> set [Product 2 2, Product 1 3, Product 2 5].
      ts_less_equal (product_ops u32_ops u32_ops) y x \<longrightarrow> y = x}"
    by (rule antichain_from_vec_minimal [OF nested_clock.time_lattice_axioms, THEN conjunct1])
  also have "\<dots> = {Product 2 2, Product 1 3}"
    by (rule set_eqI) (auto simp: product_ops_def product_less_equal_def u32_ops_def word_le_nat_alt)
  finally show ?thesis .
qed

end
