(* ===== verification/Delay_Operators.thy ===== *)
theory Delay_Operators
  imports Prelude
begin

text \<open>
  The delay operators and the operators built from them: \<open>Z1\<close> and \<open>Z1Nested\<close>
  (\<open>crates/dbsp/src/operator/z1.rs\<close>), \<open>TransactionZ1\<close> (\<open>operator/transaction_z1.rs\<close>), \<open>Plus\<close> and \<open>Minus\<close>
  (\<open>operator/plus.rs\<close>), \<open>Delta0\<close> (\<open>operator/delta0.rs\<close>), and one clock tick of the circuits that
  \<open>integrate\<close>, \<open>integrate_nested\<close> (\<open>operator/integrate.rs\<close>), \<open>differentiate_with_initial_value\<close> and
  \<open>differentiate_nested\<close> (\<open>operator/differentiate.rs\<close>) wire up. An operator is a record of its state and
  a method is a function from the state to its result and the next state. The number of entries of a
  value, a method of its type, is a parameter.
\<close>

section \<open>Definitions\<close>

subsection \<open>Z1\<close>

record 'd z1 =
  z1_zero :: 'd
  z1_empty_output :: bool
  z1_values :: 'd

definition z1_new :: "'d \<Rightarrow> 'd z1" where
  "z1_new zero = \<lparr>z1_zero = zero, z1_empty_output = False, z1_values = zero\<rparr>"

definition z1_clock_end :: "'d z1 \<Rightarrow> 'd z1" where
  "z1_clock_end z = z\<lparr>z1_empty_output := False, z1_values := z1_zero z\<rparr>"

definition z1_clear_state :: "'d z1 \<Rightarrow> 'd z1" where
  "z1_clear_state z = z\<lparr>z1_empty_output := False, z1_values := z1_zero z\<rparr>"

definition z1_fixedpoint :: "('d \<Rightarrow> nat) \<Rightarrow> nat \<Rightarrow> 'd z1 \<Rightarrow> bool" where
  "z1_fixedpoint num_entries_shallow scope z =
     (if scope = 0 then num_entries_shallow (z1_values z) = 0 \<and> z1_empty_output z else True)"

definition z1_eval :: "'d \<Rightarrow> 'd z1 \<Rightarrow> 'd \<times> 'd z1" where
  "z1_eval i z = (z1_values z, z\<lparr>z1_values := i\<rparr>)"

definition z1_get_output :: "('d \<Rightarrow> nat) \<Rightarrow> 'd z1 \<Rightarrow> 'd \<times> 'd z1" where
  "z1_get_output num_entries_shallow z =
     (z1_values z, z\<lparr>z1_empty_output := (num_entries_shallow (z1_values z) = 0), z1_values := z1_zero z\<rparr>)"

definition z1_eval_strict :: "'d \<Rightarrow> 'd z1 \<Rightarrow> 'd z1" where
  "z1_eval_strict i z = z\<lparr>z1_values := i\<rparr>"

text \<open>
  Checkpoints. The storage backend is a map from paths to file contents; how a value is turned into
  bytes and back, the \<open>Checkpoint\<close> trait of its type, is a parameter, as is the archive format that
  wraps the bytes.
\<close>

datatype storage_error = NoPersistentId | StorageRead | CheckpointFailed

type_synonym storage_path = "string list"

definition require_persistent_id :: "string option \<Rightarrow> storage_error + string" where
  "require_persistent_id persistent_id =
     (case persistent_id of None \<Rightarrow> Inl NoPersistentId | Some pid \<Rightarrow> Inr pid)"




subsection \<open>Z1Nested\<close>

record 'd z1_nested =
  zn_zero :: 'd
  zn_timestamp :: nat
  zn_values :: "'d list"

definition zn_new :: "'d \<Rightarrow> 'd z1_nested" where
  "zn_new zero = \<lparr>zn_zero = zero, zn_timestamp = 0, zn_values = []\<rparr>"

definition zn_reset :: "'d z1_nested \<Rightarrow> 'd z1_nested" where
  "zn_reset z = z\<lparr>zn_timestamp := 0, zn_values := []\<rparr>"

definition zn_clock_start :: "nat \<Rightarrow> 'd z1_nested \<Rightarrow> 'd z1_nested" where
  "zn_clock_start scope z =
     (if scope = 0 then z\<lparr>zn_values := take (zn_timestamp z) (zn_values z), zn_timestamp := 0\<rparr>
      else z\<lparr>zn_timestamp := 0\<rparr>)"

definition zn_clock_end :: "nat \<Rightarrow> 'd z1_nested \<Rightarrow> 'd z1_nested" where
  "zn_clock_end scope z = (if scope > 0 then zn_reset z else z)"

text \<open>\<open>skip(self.timestamp - 1)\<close>, with the subtraction wrapping around at zero.\<close>

definition zn_fixedpoint :: "nat \<Rightarrow> 'd z1_nested \<Rightarrow> bool" where
  "zn_fixedpoint scope z =
     (if scope = 0
      then list_all (\<lambda>v. v = zn_zero z) (drop (nat ((int (zn_timestamp z) - 1) mod 2 ^ 64)) (zn_values z))
      else False)"

definition zn_eval :: "'d \<Rightarrow> 'd z1_nested \<Rightarrow> ('d \<times> 'd z1_nested) option" where
  "zn_eval i z =
     (let t = zn_timestamp z; vs = zn_values z;
          vs' = (if t = length vs then vs @ [zn_zero z]
                 else if t = length vs - 1 then vs @ [last vs] else vs)
      in if t < length vs'
         then Some (vs' ! t, z\<lparr>zn_values := vs'[t := i], zn_timestamp := t + 1\<rparr>) else None)"

definition zn_get_output :: "'d z1_nested \<Rightarrow> ('d \<times> 'd z1_nested) option" where
  "zn_get_output z =
     (let t = zn_timestamp z; vs = zn_values z
      in if t \<ge> length vs \<and> t \<noteq> length vs then None
         else (let vs' = (if t \<ge> length vs then vs @ [zn_zero z]
                          else if t = length vs - 1 then vs @ [last vs] else vs)
               in Some (vs' ! t, z\<lparr>zn_values := vs'[t := zn_zero z]\<rparr>)))"

definition zn_eval_strict :: "'d \<Rightarrow> 'd z1_nested \<Rightarrow> 'd z1_nested option" where
  "zn_eval_strict i z =
     (if zn_timestamp z < length (zn_values z)
      then Some (z\<lparr>zn_values := (zn_values z)[zn_timestamp z := i], zn_timestamp := zn_timestamp z + 1\<rparr>)
      else None)"

subsection \<open>TransactionZ1\<close>

record 'd transaction_z1 =
  tz_zero :: 'd
  tz_empty_output :: bool
  tz_flush :: bool
  tz_old_value :: 'd
  tz_new_value :: 'd

definition tz_new :: "'d \<Rightarrow> 'd transaction_z1" where
  "tz_new zero =
     \<lparr>tz_zero = zero, tz_empty_output = False, tz_flush = False, tz_old_value = zero, tz_new_value = zero\<rparr>"

definition tz_clock_end :: "'d transaction_z1 \<Rightarrow> 'd transaction_z1" where
  "tz_clock_end z = z\<lparr>tz_empty_output := False, tz_new_value := tz_zero z, tz_old_value := tz_zero z\<rparr>"

definition tz_fixedpoint :: "('d \<Rightarrow> nat) \<Rightarrow> nat \<Rightarrow> 'd transaction_z1 \<Rightarrow> bool" where
  "tz_fixedpoint num_entries_shallow scope z =
     (if scope = 0
      then num_entries_shallow (tz_new_value z) = 0 \<and> num_entries_shallow (tz_old_value z) = 0 \<and> tz_empty_output z
      else True)"

definition tz_clear_state :: "'d transaction_z1 \<Rightarrow> 'd transaction_z1" where
  "tz_clear_state z = z\<lparr>tz_empty_output := False, tz_old_value := tz_zero z, tz_new_value := tz_zero z\<rparr>"

definition tz_checkpoint_file :: "storage_path \<Rightarrow> string \<Rightarrow> storage_path" where
  "tz_checkpoint_file base persistent_id = base @ [''transaction-z1-'' @ persistent_id @ ''.dat'']"

definition tz_checkpoint ::
  "('d \<Rightarrow> 'b option) \<Rightarrow> storage_path \<Rightarrow> string option \<Rightarrow> 'd transaction_z1 \<Rightarrow> (storage_path \<rightharpoonup> 'b \<times> 'b)
    \<Rightarrow> storage_error + (storage_path \<rightharpoonup> 'b \<times> 'b)" where
  "tz_checkpoint checkpoint base persistent_id z files =
     (case require_persistent_id persistent_id of
        Inl e \<Rightarrow> Inl e
      | Inr pid \<Rightarrow> (case checkpoint (tz_old_value z) of
          None \<Rightarrow> Inl CheckpointFailed
        | Some old \<Rightarrow> (case checkpoint (tz_new_value z) of
            None \<Rightarrow> Inl CheckpointFailed
          | Some new \<Rightarrow> Inr (files(tz_checkpoint_file base pid \<mapsto> (old, new))))))"

definition tz_restore ::
  "('d \<Rightarrow> 'b \<Rightarrow> 'd option) \<Rightarrow> storage_path \<Rightarrow> string option \<Rightarrow> 'd transaction_z1 \<Rightarrow> (storage_path \<rightharpoonup> 'b \<times> 'b)
    \<Rightarrow> storage_error + 'd transaction_z1" where
  "tz_restore restore base persistent_id z files =
     (case require_persistent_id persistent_id of
        Inl e \<Rightarrow> Inl e
      | Inr pid \<Rightarrow> (case files (tz_checkpoint_file base pid) of
          None \<Rightarrow> Inl StorageRead
        | Some (old, new) \<Rightarrow> (case restore (tz_zero z) old of
            None \<Rightarrow> Inl CheckpointFailed
          | Some old_value \<Rightarrow> (case restore (tz_zero z) new of
              None \<Rightarrow> Inl CheckpointFailed
            | Some new_value \<Rightarrow>
                Inr (z\<lparr>tz_empty_output := False, tz_old_value := old_value, tz_new_value := new_value\<rparr>)))))"

definition tz_set_flush :: "'d transaction_z1 \<Rightarrow> 'd transaction_z1" where
  "tz_set_flush z = z\<lparr>tz_flush := True\<rparr>"

definition tz_eval :: "'d \<Rightarrow> 'd transaction_z1 \<Rightarrow> 'd \<times> 'd transaction_z1" where
  "tz_eval i z =
     (let z' = (if tz_flush z
                then z\<lparr>tz_flush := False, tz_old_value := tz_new_value z, tz_new_value := i\<rparr> else z)
      in (tz_old_value z', z'))"

text \<open>The calls the circuit makes on the operator, in any order.\<close>

inductive tz_step :: "('d \<Rightarrow> 'b \<Rightarrow> 'd option) \<Rightarrow> 'd transaction_z1 \<Rightarrow> 'd transaction_z1 \<Rightarrow> bool"
  for restore where
  "tz_step restore z (snd (tz_eval i z))"
| "tz_step restore z (tz_set_flush z)"
| "tz_step restore z (tz_clock_end z)"
| "tz_step restore z (tz_clear_state z)"
| "tz_restore restore base persistent_id z files = Inr z' \<Longrightarrow> tz_step restore z z'"

inductive_cases tz_stepE: "tz_step restore z z'"

subsection \<open>Delta0, Plus and Minus\<close>

record 'd delta0 =
  d0_val :: "'d option"
  d0_fixedpoint :: bool

definition d0_new :: "'d delta0" where
  "d0_new = \<lparr>d0_val = None, d0_fixedpoint = False\<rparr>"

definition d0_import :: "'d \<Rightarrow> 'd delta0 \<Rightarrow> 'd delta0" where
  "d0_import val z = z\<lparr>d0_val := Some val, d0_fixedpoint := False\<rparr>"

definition d0_eval :: "('d::zero) delta0 \<Rightarrow> 'd \<times> 'd delta0" where
  "d0_eval z =
     (let z' = (if d0_val z = None then z\<lparr>d0_fixedpoint := True\<rparr> else z)
      in (unwrap_or (d0_val z') 0, z'\<lparr>d0_val := None\<rparr>))"

definition d0_at_fixedpoint :: "nat \<Rightarrow> 'd delta0 \<Rightarrow> bool" where
  "d0_at_fixedpoint scope z = (if scope = 0 then d0_fixedpoint z else True)"

text \<open>The four ways \<open>Plus\<close> and \<open>Minus\<close> are evaluated, by which inputs are owned.\<close>

datatype ownership = RefRef | OwnedRef | RefOwned | OwnedOwned

fun plus_eval :: "ownership \<Rightarrow> ('d::plus) \<Rightarrow> 'd \<Rightarrow> 'd" where
  "plus_eval RefRef i1 i2 = i1 + i2"
| "plus_eval OwnedRef i1 i2 = i1 + i2"
| "plus_eval RefOwned i1 i2 = i2 + i1"
| "plus_eval OwnedOwned i1 i2 = i1 + i2"

fun minus_eval :: "ownership \<Rightarrow> ('d::{plus,uminus}) \<Rightarrow> 'd \<Rightarrow> 'd" where
  "minus_eval RefRef i1 i2 = - i2 + i1"
| "minus_eval OwnedRef i1 i2 = i1 + - i2"
| "minus_eval RefOwned i1 i2 = - i2 + i1"
| "minus_eval OwnedOwned i1 i2 = i1 + - i2"

subsection \<open>One clock tick of the circuits\<close>

text \<open>
  \<open>integrate\<close>: the feedback operator gives its output, the sum of it and the input is the integral, and
  the integral is fed back. \<open>differentiate\<close>: the input minus the delayed input. The nested versions
  use the nested delay.
\<close>

definition integrate_tick ::
  "('d \<Rightarrow> nat) \<Rightarrow> ownership \<Rightarrow> ('d::plus) \<Rightarrow> 'd z1 \<Rightarrow> 'd \<times> 'd z1" where
  "integrate_tick num_entries_shallow own i z =
     (case z1_get_output num_entries_shallow z of
        (delayed, z') \<Rightarrow> (let integral = plus_eval own delayed i in (integral, z1_eval_strict integral z')))"

definition differentiate_tick :: "ownership \<Rightarrow> ('d::{plus,uminus}) \<Rightarrow> 'd z1 \<Rightarrow> 'd \<times> 'd z1" where
  "differentiate_tick own i z = (case z1_eval i z of (delayed, z') \<Rightarrow> (minus_eval own i delayed, z'))"



text \<open>A clock epoch: one tick per input, the outputs in order.\<close>

fun run_epoch :: "('i \<Rightarrow> 's \<Rightarrow> 'o \<times> 's) \<Rightarrow> 'i list \<Rightarrow> 's \<Rightarrow> 'o list \<times> 's" where
  "run_epoch tick [] s = ([], s)"
| "run_epoch tick (i # is) s =
     (case tick i s of (o', s') \<Rightarrow> (case run_epoch tick is s' of (os, s'') \<Rightarrow> (o' # os, s'')))"

fun run_epoch_fallible :: "('i \<Rightarrow> 's \<Rightarrow> ('o \<times> 's) option) \<Rightarrow> 'i list \<Rightarrow> 's \<Rightarrow> ('o list \<times> 's) option" where
  "run_epoch_fallible tick [] s = Some ([], s)"
| "run_epoch_fallible tick (i # is) s =
     (case tick i s of
        None \<Rightarrow> None
      | Some (o', s') \<Rightarrow> map_option (\<lambda>(os, s''). (o' # os, s'')) (run_epoch_fallible tick is s'))"

section \<open>Integration and differentiation\<close>

lemma plus_eval_any: "plus_eval own i1 i2 = (i1 :: 'd::ab_semigroup_add) + i2"
  by (cases own) (simp_all add: add.commute)

lemma minus_eval_any: "minus_eval own i1 i2 = (i1 :: 'd::ab_group_add) - i2"
  by (cases own) simp_all

lemma integrate_tick_values:
  fixes i :: "'d::ab_semigroup_add"
  shows "fst (integrate_tick ne own i z) = z1_values z + i"
    "z1_values (snd (integrate_tick ne own i z)) = z1_values z + i"
  by (simp_all add: integrate_tick_def z1_get_output_def z1_eval_strict_def plus_eval_any Let_def)

lemma differentiate_tick_values:
  fixes i :: "'d::ab_group_add"
  shows "fst (differentiate_tick own i z) = i - z1_values z"
    "z1_values (snd (differentiate_tick own i z)) = i"
  by (simp_all add: differentiate_tick_def z1_eval_def minus_eval_any)

lemmas tick_values = integrate_tick_values differentiate_tick_values

lemma fst_run_epoch_Cons:
  "fst (run_epoch tick (i # is) s) = fst (tick i s) # fst (run_epoch tick is (snd (tick i s)))"
  by (simp split: prod.splits)

lemma snd_run_epoch_Cons: "snd (run_epoch tick (i # is) s) = snd (run_epoch tick is (snd (tick i s)))"
  by (simp split: prod.splits)

declare run_epoch.simps(2) [simp del]

lemma snd_run_epoch_append:
  "snd (run_epoch tick (xs @ ys) s) = snd (run_epoch tick ys (snd (run_epoch tick xs s)))"
  by (induction xs arbitrary: s) (simp_all add: snd_run_epoch_Cons)

text \<open>Two chained operators: what one undoes, when their states agree on the last integral.\<close>

lemma differentiate_integrate:
  fixes z w :: "('d::ab_group_add) z1"
  assumes "z1_values w = z1_values z"
  shows "fst (run_epoch (differentiate_tick own2) (fst (run_epoch (integrate_tick ne own1) xs z)) w) = xs"
  using assms by (induction xs arbitrary: z w) (simp_all add: fst_run_epoch_Cons tick_values)

lemma integrate_differentiate:
  fixes z w :: "('d::ab_group_add) z1"
  shows "fst (run_epoch (integrate_tick ne own1) (fst (run_epoch (differentiate_tick own2) xs w)) z) =
    map (\<lambda>x. x - z1_values w + z1_values z) xs"
  by (induction xs arbitrary: z w) (simp_all add: fst_run_epoch_Cons tick_values algebra_simps)

lemma integrate_prefix_sums:
  fixes z :: "('d::ab_group_add) z1"
  shows "fst (run_epoch (integrate_tick ne own) xs z) =
    map (\<lambda>n. z1_values z + sum_list (take (Suc n) xs)) [0..<length xs]"
proof (induction xs arbitrary: z)
  case (Cons x xs)
  have "[0..<length (x # xs)] = 0 # map Suc [0..<length xs]"
    by (simp only: list.size upt_conv_Cons map_Suc_upt) simp
  then show ?case
    unfolding fst_run_epoch_Cons Cons.IH by (simp add: tick_values add.assoc o_def del: upt_Suc)
qed simp

section \<open>Nested delays\<close>

text \<open>
  What the nested delay returns at the \<open>j\<close>-th tick after the row \<open>r\<close> of the previous epoch: the value at
  that place, the last value of the row beyond its end, zero after an empty row.
\<close>

definition row_at :: "'d \<Rightarrow> 'd list \<Rightarrow> nat \<Rightarrow> 'd" where
  "row_at zero r j = (if j < length r then r ! j else if r = [] then zero else last r)"

definition row_rest :: "'d list \<Rightarrow> 'd list" where
  "row_rest r = (if length r = 1 then r else tl r)"

lemma row_at_Suc: "row_at zero r (Suc j) = row_at zero (row_rest r) j"
proof (cases r)
  case (Cons a s)
  then show ?thesis by (cases s) (auto simp: row_at_def row_rest_def)
qed (simp add: row_at_def row_rest_def)

lemma zn_eval_row:
  assumes "zn_values z = ys @ r" "zn_timestamp z = length ys"
  shows "zn_eval i z = Some (row_at (zn_zero z) r 0,
    z\<lparr>zn_values := (ys @ [i]) @ row_rest r, zn_timestamp := length (ys @ [i])\<rparr>)"
proof (cases r)
  case (Cons a s)
  with assms show ?thesis
    by (cases s) (auto simp: zn_eval_def row_at_def row_rest_def Let_def nth_append list_update_append)
qed (use assms in \<open>simp add: zn_eval_def row_at_def row_rest_def Let_def nth_append list_update_append\<close>)

text \<open>The strict interface does in two calls what \<open>eval\<close> does in one.\<close>

lemma zn_strict_row:
  assumes "zn_values z = ys @ r" "zn_timestamp z = length ys"
  obtains z' where "zn_get_output z = Some (row_at (zn_zero z) r 0, z')"
    "zn_eval_strict i z' = Some (z\<lparr>zn_values := (ys @ [i]) @ row_rest r, zn_timestamp := length (ys @ [i])\<rparr>)"
proof -
  let ?z = "z\<lparr>zn_values := (ys @ [zn_zero z]) @ row_rest r\<rparr>"
  have "zn_get_output z = Some (row_at (zn_zero z) r 0, ?z)"
  proof (cases r)
    case (Cons a s)
    with assms show ?thesis
      by (cases s) (auto simp: zn_get_output_def row_at_def row_rest_def Let_def nth_append list_update_append)
  qed (use assms in \<open>simp add: zn_get_output_def row_at_def row_rest_def Let_def nth_append list_update_append\<close>)
  moreover have "zn_eval_strict i ?z =
      Some (z\<lparr>zn_values := (ys @ [i]) @ row_rest r, zn_timestamp := length (ys @ [i])\<rparr>)"
    using assms(2) by (simp add: zn_eval_strict_def list_update_append)
  ultimately show thesis by (rule that)
qed



text \<open>
  Epoch after epoch, for any operator that combines its input with the nested delay: \<open>out\<close> is what it
  returns and \<open>st\<close> what it stores, from the delayed value and the input.
\<close>

fun run_nested :: "('i \<Rightarrow> 'd z1_nested \<Rightarrow> ('o \<times> 'd z1_nested) option) \<Rightarrow> 'i list list \<Rightarrow> 'd z1_nested \<Rightarrow> 'o list list option" where
  "run_nested tick [] z = Some []"
| "run_nested tick (xs # xss) z =
     (case run_epoch_fallible tick xs (zn_clock_start 0 z) of
        None \<Rightarrow> None
      | Some (os, z') \<Rightarrow> map_option ((#) os) (run_nested tick xss (zn_clock_end 0 z')))"

fun nested_rows :: "('d \<Rightarrow> 'i \<Rightarrow> 'o) \<Rightarrow> ('d \<Rightarrow> 'i \<Rightarrow> 'd) \<Rightarrow> 'd \<Rightarrow> 'd list \<Rightarrow> 'i list list \<Rightarrow> 'o list list" where
  "nested_rows out st zero r [] = []"
| "nested_rows out st zero r (xs # xss) =
     (let ds = map (row_at zero r) [0..<length xs]
      in map2 out ds xs # nested_rows out st zero (map2 st ds xs) xss)"

lemma upt_0_Suc: "[0..<Suc n] = 0 # map Suc [0..<n]"
  by (simp only: map_Suc_upt upt_conv_Cons zero_less_Suc)

lemma nested_epoch:
  assumes tick: "\<And>z ys r i. zn_values z = ys @ r \<Longrightarrow> zn_timestamp z = length ys \<Longrightarrow>
      tick i z = Some (out (row_at (zn_zero z) r 0) i,
        z\<lparr>zn_values := (ys @ [st (row_at (zn_zero z) r 0) i]) @ row_rest r, zn_timestamp := Suc (length ys)\<rparr>)"
    and "zn_values z = ys @ r" "zn_timestamp z = length ys"
  shows "\<exists>r'. run_epoch_fallible tick xs z = Some (map2 out (map (row_at (zn_zero z) r) [0..<length xs]) xs,
    z\<lparr>zn_values := (ys @ map2 st (map (row_at (zn_zero z) r) [0..<length xs]) xs) @ r',
      zn_timestamp := length ys + length xs\<rparr>)"
  using assms(2,3)
proof (induction xs arbitrary: z ys r)
  case Nil
  then show ?case by (intro exI [of _ r]) (cases z; simp)
next
  case (Cons x xs)
  let ?d = "row_at (zn_zero z) r 0"
  let ?z = "z\<lparr>zn_values := (ys @ [st ?d x]) @ row_rest r, zn_timestamp := Suc (length ys)\<rparr>"
  obtain r' where "run_epoch_fallible tick xs ?z =
      Some (map2 out (map (row_at (zn_zero z) (row_rest r)) [0..<length xs]) xs,
        ?z\<lparr>zn_values := ((ys @ [st ?d x]) @ map2 st (map (row_at (zn_zero z) (row_rest r)) [0..<length xs]) xs) @ r',
          zn_timestamp := length (ys @ [st ?d x]) + length xs\<rparr>)"
    using Cons.IH [of ?z "ys @ [st ?d x]" "row_rest r"] by auto
  moreover have "map (row_at (zn_zero z) r) [0..<length (x # xs)] =
      ?d # map (row_at (zn_zero z) (row_rest r)) [0..<length xs]"
    by (simp only: list.size upt_0_Suc One_nat_def add_Suc_right add_0_right list.map map_map o_def row_at_Suc)
  ultimately show ?case
    using tick [OF Cons.prems, of x] by (intro exI [of _ r']) (simp del: upt_Suc)
qed

lemma nested_epochs:
  assumes tick: "\<And>z ys r i. zn_values z = ys @ r \<Longrightarrow> zn_timestamp z = length ys \<Longrightarrow>
      tick i z = Some (out (row_at (zn_zero z) r 0) i,
        z\<lparr>zn_values := (ys @ [st (row_at (zn_zero z) r 0) i]) @ row_rest r, zn_timestamp := Suc (length ys)\<rparr>)"
    and "take (zn_timestamp z) (zn_values z) = r"
  shows "run_nested tick xss z = Some (nested_rows out st (zn_zero z) r xss)"
  using assms(2)
proof (induction xss arbitrary: z r)
  case (Cons xs xss)
  let ?z = "zn_clock_start 0 z" and ?ds = "map (row_at (zn_zero z) r) [0..<length xs]"
  have "zn_values ?z = [] @ r" "zn_timestamp ?z = length []" "zn_zero ?z = zn_zero z"
    using Cons.prems by (simp_all add: zn_clock_start_def)
  from nested_epoch [where tick = tick and out = out and st = st and xs = xs, OF tick this(1,2)] this(3) obtain r' where
    run: "run_epoch_fallible tick xs ?z = Some (map2 out ?ds xs,
      ?z\<lparr>zn_values := map2 st ?ds xs @ r', zn_timestamp := length xs\<rparr>)" by auto
  let ?z' = "?z\<lparr>zn_values := map2 st ?ds xs @ r', zn_timestamp := length xs\<rparr>"
  have "take (zn_timestamp ?z') (zn_values ?z') = map2 st ?ds xs" "zn_zero ?z' = zn_zero z"
    by (simp_all add: zn_clock_start_def)
  with Cons.IH [of ?z' "map2 st ?ds xs"] run show ?case by (simp add: zn_clock_end_def Let_def)
qed simp





section \<open>Fixed points\<close>

text \<open>
  One tick of \<open>Z1\<close> in a feedback loop, and the two consecutive ticks after which its fixed point test
  has seen both the last output and the last input.
\<close>

definition z1_strict_tick :: "('d \<Rightarrow> nat) \<Rightarrow> 'd \<Rightarrow> 'd z1 \<Rightarrow> 'd \<times> 'd z1" where
  "z1_strict_tick ne i z = (case z1_get_output ne z of (out, z') \<Rightarrow> (out, z1_eval_strict i z'))"

lemma z1_strict_tick_simps:
  "fst (z1_strict_tick ne i z) = z1_values z"
  "z1_values (snd (z1_strict_tick ne i z)) = i"
  "z1_empty_output (snd (z1_strict_tick ne i z)) \<longleftrightarrow> ne (z1_values z) = 0"
  by (simp_all add: z1_strict_tick_def z1_get_output_def z1_eval_strict_def)

lemma z1_strict_outputs:
  "fst (run_epoch (z1_strict_tick ne) xs z) = butlast (z1_values z # xs)"
  by (induction xs arbitrary: z) (auto simp: fst_run_epoch_Cons z1_strict_tick_simps)

lemma z1_plain_outputs: "fst (run_epoch z1_eval xs z) = butlast (z1_values z # xs)"
  by (induction xs arbitrary: z) (auto simp: fst_run_epoch_Cons z1_eval_def)

lemma tz_never_empty_output:
  assumes "(tz_step restore)\<^sup>*\<^sup>* (tz_new zero) z"
  shows "\<not> tz_empty_output z"
  using assms
proof (induction rule: rtranclp_induct)
  case (step y z)
  from step.hyps(2) step.IH show ?case
    by (cases rule: tz_stepE)
      (auto simp: tz_eval_def tz_set_flush_def tz_clock_end_def tz_clear_state_def tz_restore_def Let_def
        split: if_splits sum.splits option.splits prod.splits)
qed (simp add: tz_new_def)

section \<open>Properties\<close>

text \<open>
  C9: integration and differentiation undo each other: the changes of the prefix sums of a stream are
  the stream, and the prefix sums of its changes are the stream, whichever inputs the operators own;
  the integral is the stream of prefix sums.
\<close>

theorem integrate_differentiate_inverse:
  fixes xs :: "('d::ab_group_add) list"
  shows "fst (run_epoch (integrate_tick ne own) xs (z1_new 0)) =
      map (\<lambda>n. sum_list (take (Suc n) xs)) [0..<length xs] \<and>
    fst (run_epoch (differentiate_tick own') (fst (run_epoch (integrate_tick ne own) xs (z1_new 0))) (z1_new 0)) = xs \<and>
    fst (run_epoch (integrate_tick ne own) (fst (run_epoch (differentiate_tick own') xs (z1_new 0))) (z1_new 0)) = xs"
proof -
  have "z1_values (z1_new (0 :: 'd)) = 0" by (simp add: z1_new_def)
  then show ?thesis
    using differentiate_integrate [of "z1_new 0" "z1_new 0" own' ne own xs]
      integrate_differentiate [of ne own own' xs "z1_new 0" "z1_new 0"]
      integrate_prefix_sums [of ne own xs "z1_new 0"] by simp
qed


text \<open>
  C35: the nested delay outputs, epoch by epoch, the row of the previous epoch; beyond its end it
  repeats the last value of that row, and in the first epoch it outputs zeros. The plain and the
  strict interface agree.
\<close>

theorem nested_delay_rows:
  "run_nested zn_eval xss (zn_new zero) = Some (nested_rows (\<lambda>d i. d) (\<lambda>d i. i) zero [] xss) \<and>
   run_nested (\<lambda>i z. case zn_get_output z of None \<Rightarrow> None
       | Some (out, z') \<Rightarrow> map_option (Pair out) (zn_eval_strict i z')) xss (zn_new zero) =
     Some (nested_rows (\<lambda>d i. d) (\<lambda>d i. i) zero [] xss)"
proof
  show "run_nested zn_eval xss (zn_new zero) = Some (nested_rows (\<lambda>d i. d) (\<lambda>d i. i) zero [] xss)"
    using nested_epochs [where tick = zn_eval and out = "\<lambda>d i. d" and st = "\<lambda>d i. i" and z = "zn_new zero" and r = "[]" and xss = xss]
    by (simp add: zn_eval_row zn_new_def)
next
  let ?tick = "\<lambda>i z. case zn_get_output z of None \<Rightarrow> None
       | Some (out, z') \<Rightarrow> map_option (Pair out) (zn_eval_strict i z')"
  have "?tick i z = Some (row_at (zn_zero z) r 0,
      z\<lparr>zn_values := (ys @ [i]) @ row_rest r, zn_timestamp := Suc (length ys)\<rparr>)"
    if "zn_values z = ys @ r" "zn_timestamp z = length ys" for z :: "'a z1_nested" and ys r i
    by (rule zn_strict_row [OF that, of i]) simp
  then show "run_nested ?tick xss (zn_new zero) = Some (nested_rows (\<lambda>d i. d) (\<lambda>d i. i) zero [] xss)"
    using nested_epochs [where tick = ?tick and out = "\<lambda>d i. d" and st = "\<lambda>d i. i" and z = "zn_new zero" and r = "[]" and xss = xss]
    by (simp add: zn_new_def)
qed

text \<open>
  C36: the fixed point test of \<open>Z1\<close> in a feedback loop is exact after two ticks: it holds if and only if
  the last output and the last input have no entries. So it never reports a fixed point early, and it
  does report one as soon as two consecutive inputs are empty.
\<close>

theorem z1_fixedpoint_exact:
  "z1_fixedpoint ne 0 (snd (run_epoch (z1_strict_tick ne) (xs @ [a, b]) (z1_new zero))) \<longleftrightarrow> ne a = 0 \<and> ne b = 0"
  by (auto simp: snd_run_epoch_append snd_run_epoch_Cons z1_fixedpoint_def z1_strict_tick_simps)

text \<open>
  C37: \<open>TransactionZ1\<close> never reports a fixed point of its own circuit: in every state that any sequence
  of calls reaches, the test in scope 0 is false, because nothing sets the flag for an empty output.
  The contract of \<open>fixedpoint\<close> accepts a false negative only for finitely many clock cycles.
\<close>

theorem transaction_z1_no_fixedpoint:
  assumes "(tz_step restore)\<^sup>*\<^sup>* (tz_new zero) z"
  shows "\<not> tz_fixedpoint ne 0 z"
  using tz_never_empty_output [OF assms] by (simp add: tz_fixedpoint_def)

theorem transaction_z1_no_fixedpoint_witness:
  "\<not> tz_fixedpoint (\<lambda>_. 0) 0 (snd (tz_eval (0 :: nat) (tz_set_flush (tz_new 0))))"
proof (rule transaction_z1_no_fixedpoint)
  show "(tz_step (\<lambda>_ (b :: nat). Some b))\<^sup>*\<^sup>* (tz_new 0) (snd (tz_eval (0 :: nat) (tz_set_flush (tz_new 0))))"
    by (rule rtranclp.rtrancl_into_rtrancl [OF rtranclp.rtrancl_into_rtrancl [OF rtranclp.rtrancl_refl]])
      (rule tz_step.intros(2), rule tz_step.intros(1))
qed



end
