(* ===== verification/Circuit_Cache.thy ===== *)
theory Circuit_Cache
  imports Delay_Operators
begin

text \<open>
  How \<open>integrate\<close>, \<open>differentiate\<close> and \<open>delay\<close> build circuits: the methods of \<open>Stream\<close> in
  \<open>crates/dbsp/src/operator/integrate.rs\<close>, \<open>differentiate.rs\<close> and \<open>z1.rs\<close> add nodes to the circuit and
  remember the streams they build in the circuit's cache (\<open>cache_get_or_insert_with\<close> of
  \<open>circuit/circuit_builder.rs\<close>), so that a second request returns the stream of the first. A circuit is
  its list of nodes and its cache; a stream is the index of the node that produces it. Streams are
  taken on one worker, where the sharded version of a stream is the stream.
\<close>

section \<open>Definitions\<close>

type_synonym stream_id = nat

datatype 'd node =
    Source
  | PlusNode stream_id stream_id
  | MinusNode stream_id stream_id
  | Z1Node 'd stream_id

datatype cache_key = IntegralId stream_id | DifferentiateId stream_id | DelayedId stream_id

record 'd circuit =
  c_nodes :: "'d node list"
  c_store :: "cache_key \<rightharpoonup> stream_id"



definition cache_insert :: "cache_key \<Rightarrow> stream_id \<Rightarrow> 'd circuit \<Rightarrow> 'd circuit" where
  "cache_insert key val c = c\<lparr>c_store := (c_store c)(key \<mapsto> val)\<rparr>"








section \<open>What a circuit computes\<close>

text \<open>
  A value of every stream at every clock tick fits a circuit when every node gives the value its
  operator computes: the delay gives its initial value first and then what its input was, as the runs
  of \<open>Z1\<close> do.
\<close>

type_synonym 'd valuation = "stream_id \<Rightarrow> nat \<Rightarrow> 'd"

fun node_fits :: "('d::ab_group_add) valuation \<Rightarrow> stream_id \<Rightarrow> 'd node \<Rightarrow> bool" where
  "node_fits v n Source \<longleftrightarrow> True"
| "node_fits v n (PlusNode a b) \<longleftrightarrow> (\<forall>t. v n t = plus_eval RefRef (v a t) (v b t))"
| "node_fits v n (MinusNode a b) \<longleftrightarrow> (\<forall>t. v n t = minus_eval RefRef (v a t) (v b t))"
| "node_fits v n (Z1Node zero a) \<longleftrightarrow> v n 0 = zero \<and> (\<forall>t. v n (Suc t) = v a t)"

definition fits :: "('d::ab_group_add) valuation \<Rightarrow> 'd circuit \<Rightarrow> bool" where
  "fits v c \<longleftrightarrow> (\<forall>n < length (c_nodes c). node_fits v n (c_nodes c ! n))"

fun key_means :: "('d::ab_group_add) valuation \<Rightarrow> stream_id \<Rightarrow> cache_key \<Rightarrow> bool" where
  "key_means v r (IntegralId s) \<longleftrightarrow> (\<forall>t. v r t = (\<Sum>i\<le>t. v s i))"
| "key_means v r (DifferentiateId s) \<longleftrightarrow> v r 0 = v s 0 \<and> (\<forall>t. v r (Suc t) = v s (Suc t) - v s t)"
| "key_means v r (DelayedId s) \<longleftrightarrow> v r 0 = 0 \<and> (\<forall>t. v r (Suc t) = v s t)"

definition cache_sound :: "('d::ab_group_add) valuation \<Rightarrow> 'd circuit \<Rightarrow> bool" where
  "cache_sound v c \<longleftrightarrow> (\<forall>key r. c_store c key = Some r \<longrightarrow> key_means v r key)"

text \<open>The node of a delay and a run of its operator agree.\<close>

lemma z1_node_is_z1_run:
  assumes "node_fits v n (Z1Node zero a)"
  shows "map (v n) [0..<k] = fst (run_epoch z1_eval (map (v a) [0..<k]) (z1_new zero))"
proof (cases k)
  case (Suc m)
  have "map (v n) [0..<Suc m] = v n 0 # map (v n \<circ> Suc) [0..<m]"
    by (simp only: upt_0_Suc list.map map_map)
  also have "\<dots> = zero # map (v a) [0..<m]" using assms by simp
  finally show ?thesis using Suc by (simp add: z1_plain_outputs z1_new_def)
qed simp


lemma fits_cache_insert [simp]: "fits v (cache_insert key r c) = fits v c"
  by (simp add: fits_def cache_insert_def)


lemma cache_sound_nodes [simp]: "cache_sound v (c\<lparr>c_nodes := ns\<rparr>) = cache_sound v c"
  by (simp add: cache_sound_def)








section \<open>Properties\<close>




end
