(* ===== verification/Distinct_Operator.thy ===== *)
theory Distinct_Operator
  imports Logical_Time Consolidation
begin

text \<open>
  The distinct operators of \<open>crates/dbsp/src/operator/dynamic/distinct.rs\<close>: \<open>IndexedZSet::distinct\<close>
  (\<open>algebra/zset.rs\<close>), the incremental operator of the root circuit, \<open>DistinctIncrementalTotal\<close>, and the
  evaluation of one key and value by the operator of nested circuits, \<open>DistinctIncremental\<close>. An indexed
  batch is the list that its cursor walks: keys with their values and weights. Weights are \<open>i64\<close>: integers
  whose sums wrap around.
\<close>

section \<open>Definitions\<close>

text \<open>The derived order of \<open>Product\<close>: by the outer time, then by the inner one.\<close>

instantiation product :: (linorder, linorder) linorder
begin

definition less_eq_product :: "('a, 'b) product \<Rightarrow> ('a, 'b) product \<Rightarrow> bool" where
  "less_eq_product s t \<longleftrightarrow> outer s < outer t \<or> outer s = outer t \<and> inner s \<le> inner t"

definition less_product :: "('a, 'b) product \<Rightarrow> ('a, 'b) product \<Rightarrow> bool" where
  "less_product s t \<longleftrightarrow> outer s < outer t \<or> outer s = outer t \<and> inner s < inner t"

instance
  by standard (auto simp: less_eq_product_def less_product_def intro: product.expand)

end

type_synonym zweight = int

definition i64_add :: "zweight \<Rightarrow> zweight \<Rightarrow> zweight" where
  "i64_add a b = (a + b + 2 ^ 63) mod 2 ^ 64 - 2 ^ 63"

type_synonym ('k, 'v) zbatch = "('k \<times> ('v \<times> zweight) list) list"

text \<open>The builder: finished keys, and the values pushed since the last key.\<close>

record ('k, 'v) zbuilder =
  zb_keys :: "('k, 'v) zbatch"
  zb_vals :: "('v \<times> zweight) list"

definition zb_new :: "('k, 'v) zbuilder" where
  "zb_new = \<lparr>zb_keys = [], zb_vals = []\<rparr>"

definition zb_push_val_diff :: "'v \<Rightarrow> zweight \<Rightarrow> ('k, 'v) zbuilder \<Rightarrow> ('k, 'v) zbuilder" where
  "zb_push_val_diff v w b = b\<lparr>zb_vals := zb_vals b @ [(v, w)]\<rparr>"

definition zb_push_key :: "'k \<Rightarrow> ('k, 'v) zbuilder \<Rightarrow> ('k, 'v) zbuilder" where
  "zb_push_key k b = b\<lparr>zb_keys := zb_keys b @ [(k, zb_vals b)], zb_vals := []\<rparr>"

definition zb_num_tuples :: "('k, 'v) zbuilder \<Rightarrow> nat" where
  "zb_num_tuples b = sum_list (map (length \<circ> snd) (zb_keys b)) + length (zb_vals b)"

definition zb_done :: "('k, 'v) zbuilder \<Rightarrow> ('k, 'v) zbatch" where
  "zb_done b = zb_keys b"

text \<open>\<open>IndexedZSet::distinct\<close>.\<close>

fun zset_distinct_loop :: "('k, 'v) zbatch \<Rightarrow> ('k, 'v) zbuilder \<Rightarrow> ('k, 'v) zbuilder" where
  "zset_distinct_loop [] b = b"
| "zset_distinct_loop ((k, vs) # rest) b =
     (let b' = fold (\<lambda>(v, w) b. if w \<ge> 0 then zb_push_val_diff v 1 b else b) vs b;
          n_updates = length (filter (\<lambda>(v, w). w \<ge> 0) vs)
      in zset_distinct_loop rest (if n_updates > 0 then zb_push_key k b' else b'))"

definition zset_distinct :: "('k, 'v) zbatch \<Rightarrow> ('k, 'v) zbatch" where
  "zset_distinct z = zb_done (zset_distinct_loop z zb_new)"

text \<open>
  \<open>DistinctIncrementalTotal::eval\<close>. The state of the loop: the builder, whether the current key has
  values, the batches yielded so far. The cursor over the delayed integral is the list of the keys,
  respectively the values, that are still ahead of it.
\<close>

record ('k, 'v) dit_state =
  dit_builder :: "('k, 'v) zbuilder"
  dit_any_values :: bool
  dit_outputs :: "('k, 'v) zbatch list"

definition dit_push :: "'v \<Rightarrow> zweight \<Rightarrow> ('k, 'v) dit_state \<Rightarrow> ('k, 'v) dit_state" where
  "dit_push v w s = s\<lparr>dit_builder := zb_push_val_diff v w (dit_builder s), dit_any_values := True\<rparr>"

definition dit_maybe_yield :: "nat \<Rightarrow> 'k \<Rightarrow> ('k, 'v) dit_state \<Rightarrow> ('k, 'v) dit_state" where
  "dit_maybe_yield chunk_size key s =
     (if zb_num_tuples (dit_builder s) \<ge> chunk_size
      then (let builder = (if dit_any_values s then zb_push_key key (dit_builder s) else dit_builder s)
            in s\<lparr>dit_any_values := False, dit_builder := zb_new, dit_outputs := dit_outputs s @ [zb_done builder]\<rparr>)
      else s)"

definition seek_ge :: "('a::linorder) \<Rightarrow> ('a \<times> 'b) list \<Rightarrow> ('a \<times> 'b) list" where
  "seek_ge x cursor = dropWhile (\<lambda>y. fst y < x) cursor"

definition weight_under :: "('v::linorder) \<Rightarrow> ('v \<times> zweight) list \<Rightarrow> zweight" where
  "weight_under v cursor =
     (case cursor of [] \<Rightarrow> 0 | (v', w) # _ \<Rightarrow> if v' = v then w else 0)"

fun dit_known_key :: "nat \<Rightarrow> 'k \<Rightarrow> (('v::linorder) \<times> zweight) list \<Rightarrow> ('v \<times> zweight) list \<Rightarrow> ('k, 'v) dit_state \<Rightarrow> ('k, 'v) dit_state" where
  "dit_known_key chunk_size key [] integral s = s"
| "dit_known_key chunk_size key ((v, w) # vs) integral s =
     (let integral' = seek_ge v integral;
          old_weight = weight_under v integral';
          new_weight = i64_add old_weight w;
          s' = (if old_weight \<le> 0
                then (if new_weight \<ge> 0 \<and> new_weight \<noteq> 0 then dit_push v 1 s else s)
                else if new_weight \<le> 0 then dit_push v (- 1) s else s)
      in dit_known_key chunk_size key vs integral' (dit_maybe_yield chunk_size key s'))"

fun dit_new_key :: "nat \<Rightarrow> 'k \<Rightarrow> ('v \<times> zweight) list \<Rightarrow> ('k, 'v) dit_state \<Rightarrow> ('k, 'v) dit_state" where
  "dit_new_key chunk_size key [] s = s"
| "dit_new_key chunk_size key ((v, w) # vs) s =
     (let s' = (if w \<ge> 0 then dit_push v 1 s else s)
      in dit_new_key chunk_size key vs (dit_maybe_yield chunk_size key s'))"

fun dit_keys :: "nat \<Rightarrow> (('k::linorder), ('v::linorder)) zbatch \<Rightarrow> ('k, 'v) zbatch \<Rightarrow> ('k, 'v) dit_state \<Rightarrow> ('k, 'v) dit_state" where
  "dit_keys chunk_size [] integral s = s"
| "dit_keys chunk_size ((key, vs) # delta) integral s =
     (let integral' = seek_ge key integral;
          s0 = s\<lparr>dit_any_values := False\<rparr>;
          s1 = (case integral' of
                  (key', ivs) # _ \<Rightarrow> if key' = key then dit_known_key chunk_size key vs ivs s0
                                   else dit_new_key chunk_size key vs s0
                | [] \<Rightarrow> dit_new_key chunk_size key vs s0);
          s2 = (if dit_any_values s1 then s1\<lparr>dit_builder := zb_push_key key (dit_builder s1)\<rparr> else s1)
      in dit_keys chunk_size delta integral' s2)"

definition dit_eval ::
  "nat \<Rightarrow> (('k::linorder), ('v::linorder)) zbatch option \<Rightarrow> ('k, 'v) zbatch \<Rightarrow> (('k, 'v) zbatch \<times> bool) list" where
  "dit_eval chunk_size delta delayed_integral =
     (case delta of
        None \<Rightarrow> [([], True)]
      | Some delta \<Rightarrow>
          (let s = dit_keys chunk_size delta delayed_integral
                     \<lparr>dit_builder = zb_new, dit_any_values = False, dit_outputs = []\<rparr>
           in map (\<lambda>b. (b, False)) (dit_outputs s) @ [(zb_done (dit_builder s), True)]))"

text \<open>
  \<open>DistinctIncremental\<close>: the \<open>2 ^ n\<close> times around the current one, the accumulated weights at these
  times, and the partial derivative over them. The slices have \<open>2 ^ n\<close> elements and are halved.
\<close>

fun init_distinct_vals :: "'t timestamp \<Rightarrow> nat \<Rightarrow> 't option \<Rightarrow> ('t option \<times> zweight) list" where
  "init_distinct_vals ts 0 t = [(t, 0)]"
| "init_distinct_vals ts (Suc n) t =
     init_distinct_vals ts n (Option.bind t (ts_checked_recede ts n)) @ init_distinct_vals ts n t"

fun partial_derivative :: "nat \<Rightarrow> ('t option \<times> zweight) list \<Rightarrow> zweight" where
  "partial_derivative 0 vals = snd (vals ! 0)"
| "partial_derivative (Suc n) vals =
     partial_derivative n (drop (2 ^ n) vals) + - partial_derivative n (take (2 ^ n) vals)"

definition clear_distinct_vals :: "('t option \<times> zweight) list \<Rightarrow> ('t option \<times> zweight) list" where
  "clear_distinct_vals vals = map (\<lambda>(time, val). (time, 0)) vals"

definition add_trace_weight ::
  "'t timestamp \<Rightarrow> 't \<Rightarrow> zweight \<Rightarrow> ('t option \<times> zweight) list \<Rightarrow> ('t option \<times> zweight) list" where
  "add_trace_weight ts trace_ts weight vals =
     map (\<lambda>(time, total_weight).
            (time, case time of Some t \<Rightarrow> if ts_less_equal ts trace_ts t then i64_add total_weight weight else total_weight
                   | None \<Rightarrow> total_weight)) vals"

definition dist :: "zweight \<Rightarrow> zweight" where
  "dist w = (if w \<le> 0 then 0 else 1)"

definition time_of_interest_step :: "('t::linorder) timestamp \<Rightarrow> 't \<Rightarrow> 't \<Rightarrow> 't option \<Rightarrow> 't option" where
  "time_of_interest_step ts time trace_ts interest =
     (if \<not> ts_less_equal ts trace_ts time
      then (case interest of None \<Rightarrow> Some (ts_join ts time trace_ts)
            | Some t \<Rightarrow> Some (min t (ts_join ts time trace_ts)))
      else interest)"

text \<open>
  \<open>eval_keyval\<close> for a value that the trace has: its updates with their times, in the order of the
  cursor. The result is the weight of the output, when it is not zero, and the next time at which the
  value must be looked at again.
\<close>

definition eval_keyval ::
  "('t::linorder) timestamp \<Rightarrow> nat \<Rightarrow> 't \<Rightarrow> ('t \<times> zweight) list \<Rightarrow> zweight option \<times> 't option" where
  "eval_keyval ts n time trace =
     (let vals0 = clear_distinct_vals (init_distinct_vals ts n (Some time));
          (vals1, interest) = fold (\<lambda>(trace_ts, w) (vals, interest).
             (add_trace_weight ts trace_ts w vals, time_of_interest_step ts time trace_ts interest)) trace (vals0, None);
          vals2 = map (\<lambda>(t, w). (t, dist w)) vals1;
          output_weight = partial_derivative n vals2
      in (if output_weight \<noteq> 0 then Some output_weight else None, interest))"

section \<open>The incremental operator of the root circuit\<close>

text \<open>A batch as the list of its weighted tuples, and what makes it a well-formed batch.\<close>

definition zb_flat :: "('k, 'v) zbatch \<Rightarrow> (('k \<times> 'v) \<times> zweight) list" where
  "zb_flat b = concat (map (\<lambda>(k, vs). map (\<lambda>(v, w). ((k, v), w)) vs) b)"

definition in_i64 :: "zweight \<Rightarrow> bool" where
  "in_i64 w \<longleftrightarrow> - (2 ^ 63) \<le> w \<and> w < 2 ^ 63"

definition zbatch_ok :: "(('k::linorder), ('v::linorder)) zbatch \<Rightarrow> bool" where
  "zbatch_ok b \<longleftrightarrow> sorted_wrt (<) (map fst b) \<and>
     list_all (\<lambda>(k, vs). sorted_wrt (<) (map fst vs) \<and> list_all (\<lambda>(v, w). w \<noteq> 0 \<and> in_i64 w) vs) b"

definition dist_change :: "zweight \<Rightarrow> zweight \<Rightarrow> zweight" where
  "dist_change old w = dist (i64_add old w) - dist old"

fun emit :: "('x \<Rightarrow> zweight) \<Rightarrow> ('x \<times> zweight) list \<Rightarrow> ('x \<times> zweight) list" where
  "emit old [] = []"
| "emit old ((x, w) # es) =
     (if dist_change (old x) w \<noteq> 0 then [(x, dist_change (old x) w)] else []) @ emit old es"

lemma i64_add_0: "in_i64 w \<Longrightarrow> i64_add 0 w = w" "in_i64 w \<Longrightarrow> i64_add w 0 = w"
  by (simp_all add: i64_add_def in_i64_def)

lemma zb_flat_simps [simp]:
  "zb_flat [] = []" "zb_flat ((k, vs) # b) = map (\<lambda>(v, w). ((k, v), w)) vs @ zb_flat b"
  "zb_flat (a @ b) = zb_flat a @ zb_flat b"
  by (simp_all add: zb_flat_def)

lemma emit_append: "emit old (xs @ ys) = emit old xs @ emit old ys"
  by (induction xs) auto

lemma emit_cong: "(\<And>x. x \<in> fst ` set es \<Longrightarrow> old x = old' x) \<Longrightarrow> emit old es = emit old' es"
  by (induction es) auto

lemma weight_of_emit:
  assumes "distinct (map fst es)" "in_i64 (old x)"
  shows "weight_of x (emit old es) = dist_change (old x) (weight_of x es)"
  using assms
proof (induction es)
  case Nil
  then show ?case by (simp add: weight_simps dist_change_def i64_add_0)
next
  case (Cons e es)
  obtain y w where e: "e = (y, w)" by force
  show ?case
  proof (cases "y = x")
    case True
    with Cons.prems e have "x \<notin> fst ` set es" by simp
    then have z: "weight_of x es = 0" by (rule weight_of_absent)
    have "dist_change (old x) 0 = 0" using Cons.prems(2) by (simp add: dist_change_def i64_add_0)
    with Cons z e True show ?thesis by (simp add: weight_simps)
  next
    case False
    with Cons e show ?thesis by (simp add: weight_simps)
  qed
qed

text \<open>The cursor over sorted values: what is under it after a seek, and what it can still find.\<close>

lemma weight_under_seek:
  assumes "sorted_wrt (<) (map fst c)"
  shows "weight_under v (seek_ge v c) = weight_of v c"
  using assms
proof (induction c)
  case (Cons x c)
  have "weight_of v c = 0" if "\<not> fst x < v"
    using Cons.prems that by (intro weight_of_absent) force
  with Cons show ?case by (cases x) (auto simp: weight_under_def seek_ge_def weight_simps)
qed (simp add: weight_under_def seek_ge_def weight_simps)

lemma weight_of_seek: "v \<le> v' \<Longrightarrow> weight_of v' (seek_ge v c) = weight_of v' c"
  by (induction c) (auto simp: seek_ge_def weight_simps)

lemma seek_sorted: "sorted_wrt (<) (map fst c) \<Longrightarrow> sorted_wrt (<) (map fst (seek_ge v c))"
  by (induction c) (auto simp: seek_ge_def)

text \<open>What the loop has emitted so far, with the values of the current key.\<close>

definition dit_emitted :: "'k \<Rightarrow> ('k, 'v) dit_state \<Rightarrow> (('k \<times> 'v) \<times> zweight) list" where
  "dit_emitted key s = concat (map zb_flat (dit_outputs s)) @ zb_flat (zb_keys (dit_builder s)) @
     map (\<lambda>(v, w). ((key, v), w)) (zb_vals (dit_builder s))"

definition dit_ok :: "('k, 'v) dit_state \<Rightarrow> bool" where
  "dit_ok s \<longleftrightarrow> (dit_any_values s \<longleftrightarrow> zb_vals (dit_builder s) \<noteq> [])"

lemma dit_push_emitted:
  "dit_emitted key (dit_push v w s) = dit_emitted key s @ [((key, v), w)]" "dit_ok (dit_push v w s)"
  by (simp_all add: dit_emitted_def dit_push_def zb_push_val_diff_def dit_ok_def)

lemma dit_maybe_yield_emitted:
  assumes "dit_ok s"
  shows "dit_emitted key (dit_maybe_yield n key s) = dit_emitted key s" "dit_ok (dit_maybe_yield n key s)"
  using assms
  by (auto simp: dit_emitted_def dit_maybe_yield_def dit_ok_def zb_new_def zb_push_key_def zb_done_def Let_def)

lemma dit_known_key_emitted:
  assumes "sorted_wrt (<) (map fst vs)" "sorted_wrt (<) (map fst c)" "dit_ok s"
  shows "dit_emitted key (dit_known_key n key vs c s) =
      dit_emitted key s @ emit (\<lambda>(k, v). weight_of v c) (map (\<lambda>(v, w). ((key, v), w)) vs) \<and>
    dit_ok (dit_known_key n key vs c s)"
  using assms
proof (induction n key vs c s rule: dit_known_key.induct)
  case (2 n key v w vs c s)
  let ?c = "seek_ge v c" and ?old = "weight_of v c"
  define s' where "s' = (if ?old \<le> 0
    then (if i64_add ?old w \<ge> 0 \<and> i64_add ?old w \<noteq> 0 then dit_push v 1 s else s)
    else if i64_add ?old w \<le> 0 then dit_push v (- 1) s else s)"
  have old: "weight_under v ?c = ?old" by (rule weight_under_seek [OF "2.prems"(2)])
  have ok: "dit_ok s'" using "2.prems"(3) by (simp add: s'_def dit_push_emitted)
  have e: "dit_emitted key s' = dit_emitted key s @ emit (\<lambda>(k, v). weight_of v c) [((key, v), w)]"
    by (auto simp: s'_def dit_push_emitted dist_change_def dist_def)
  have "emit (\<lambda>(k, v). weight_of v ?c) (map (\<lambda>(v, w). ((key, v), w)) vs) =
      emit (\<lambda>(k, v). weight_of v c) (map (\<lambda>(v, w). ((key, v), w)) vs)"
    using "2.prems"(1) by (intro emit_cong) (fastforce simp: weight_of_seek)
  moreover have "dit_known_key n key ((v, w) # vs) c s = dit_known_key n key vs ?c (dit_maybe_yield n key s')"
    by (simp add: Let_def old s'_def)
  ultimately show ?case
    using "2.IH" [of ?c "weight_under v ?c" "i64_add ?old w" s'] "2.prems" seek_sorted [of c v]
      dit_maybe_yield_emitted [OF ok] e old
    by (simp add: s'_def emit_append [of _ "[((key, v), w)]", simplified])
qed (simp)

lemma dit_new_key_emitted:
  assumes "list_all (\<lambda>(v, w). w \<noteq> 0 \<and> in_i64 w) vs" "dit_ok s"
  shows "dit_emitted key (dit_new_key n key vs s) =
      dit_emitted key s @ emit (\<lambda>_. 0) (map (\<lambda>(v, w). ((key, v), w)) vs) \<and>
    dit_ok (dit_new_key n key vs s)"
  using assms
proof (induction n key vs s rule: dit_new_key.induct)
  case (2 n key v w vs s)
  define s' where "s' = (if w \<ge> 0 then dit_push v 1 s else s)"
  have ok: "dit_ok s'" using "2.prems"(2) by (simp add: s'_def dit_push_emitted)
  have e: "dit_emitted key s' = dit_emitted key s @ emit (\<lambda>_. 0) [((key, v), w)]"
    using "2.prems"(1) by (auto simp: s'_def dit_push_emitted dist_change_def dist_def i64_add_0)
  have "dit_new_key n key ((v, w) # vs) s = dit_new_key n key vs (dit_maybe_yield n key s')"
    by (simp add: Let_def s'_def)
  then show ?case
    using "2.IH" [of s'] "2.prems" dit_maybe_yield_emitted [OF ok] e
    by (simp add: s'_def emit_append [of _ "[((key, v), w)]", simplified])
qed simp

text \<open>The weight of a tuple in a well-formed batch, by way of its key.\<close>

lemma weight_of_key:
  "weight_of (k, v) (map (\<lambda>(v, w). ((k', v), w)) vs) = (if k = k' then weight_of v vs else 0)"
  by (induction vs) (auto simp: weight_simps)

lemma weight_of_flat_absent: "k \<notin> fst ` set b \<Longrightarrow> weight_of (k, v) (zb_flat b) = 0"
  by (induction b) (auto simp: weight_simps weight_of_key)

lemma weight_of_flat_seek: "k \<le> k' \<Longrightarrow> weight_of (k', v) (zb_flat (seek_ge k b)) = weight_of (k', v) (zb_flat b)"
  by (induction b) (auto simp: seek_ge_def weight_simps weight_of_key)

lemma seek_ok: "zbatch_ok b \<Longrightarrow> zbatch_ok (seek_ge k b)"
  by (induction b) (auto simp: zbatch_ok_def seek_ge_def)

lemma seek_head:
  assumes "zbatch_ok b"
  shows "case seek_ge k b of
      (k', vs) # _ \<Rightarrow> if k' = k then (\<forall>v. weight_of (k, v) (zb_flat b) = weight_of v vs) \<and> sorted_wrt (<) (map fst vs)
                      else (\<forall>v. weight_of (k, v) (zb_flat b) = 0)
    | [] \<Rightarrow> (\<forall>v. weight_of (k, v) (zb_flat b) = 0)"
  using assms
proof (induction b)
  case (Cons e b)
  obtain k' vs where e: "e = (k', vs)" by force
  have ok: "zbatch_ok b" "sorted_wrt (<) (map fst vs)" "\<forall>x \<in> fst ` set b. k' < x"
    using Cons.prems by (auto simp: zbatch_ok_def e)
  show ?case
  proof (cases "k' < k")
    case True
    then have "seek_ge k (e # b) = seek_ge k b" "weight_of (k, v) (zb_flat (e # b)) = weight_of (k, v) (zb_flat b)" for v
      by (auto simp: seek_ge_def e weight_simps weight_of_key)
    then show ?thesis using Cons.IH [OF ok(1)] by (simp split: list.splits prod.splits)
  next
    case False
    with ok(3) have "k \<notin> fst ` set b" by force
    from weight_of_flat_absent [OF this] False ok(2) show ?thesis
      by (simp add: seek_ge_def e weight_simps weight_of_key)
  qed
qed (simp add: seek_ge_def weight_simps)

definition dit_flat :: "('k, 'v) dit_state \<Rightarrow> (('k \<times> 'v) \<times> zweight) list" where
  "dit_flat s = concat (map zb_flat (dit_outputs s)) @ zb_flat (zb_keys (dit_builder s))"

lemma dit_flat_emitted: "zb_vals (dit_builder s) = [] \<Longrightarrow> dit_emitted key s = dit_flat s"
  by (simp add: dit_emitted_def dit_flat_def)

lemma dit_close_key:
  assumes "dit_ok s"
  shows "dit_flat (if dit_any_values s then s\<lparr>dit_builder := zb_push_key key (dit_builder s)\<rparr> else s) = dit_emitted key s"
    "zb_vals (dit_builder (if dit_any_values s then s\<lparr>dit_builder := zb_push_key key (dit_builder s)\<rparr> else s)) = []"
  using assms by (auto simp: dit_ok_def dit_flat_def dit_emitted_def zb_push_key_def)

lemma dit_keys_emitted:
  assumes "zbatch_ok delta" "zbatch_ok integral" "zb_vals (dit_builder s) = []"
  shows "dit_flat (dit_keys n delta integral s) =
      dit_flat s @ emit (\<lambda>x. weight_of x (zb_flat integral)) (zb_flat delta) \<and>
    zb_vals (dit_builder (dit_keys n delta integral s)) = []"
  using assms
proof (induction delta arbitrary: integral s)
  case (Cons e delta)
  obtain key vs where e: "e = (key, vs)" by force
  have ok: "zbatch_ok delta" "sorted_wrt (<) (map fst vs)" "list_all (\<lambda>(v, w). w \<noteq> 0 \<and> in_i64 w) vs"
      "\<forall>x \<in> fst ` set delta. key < x"
    using Cons.prems(1) by (auto simp: zbatch_ok_def e)
  let ?i = "seek_ge key integral" and ?s0 = "s\<lparr>dit_any_values := False\<rparr>"
  define s1 where "s1 = (case ?i of
      (key', ivs) # _ \<Rightarrow> if key' = key then dit_known_key n key vs ivs ?s0 else dit_new_key n key vs ?s0
    | [] \<Rightarrow> dit_new_key n key vs ?s0)"
  define s2 where "s2 = (if dit_any_values s1 then s1\<lparr>dit_builder := zb_push_key key (dit_builder s1)\<rparr> else s1)"
  have ok0: "dit_ok ?s0" using Cons.prems(3) by (simp add: dit_ok_def)
  have e0: "dit_emitted key ?s0 = dit_flat s" using Cons.prems(3) by (simp add: dit_emitted_def dit_flat_def)
  have old: "emit (\<lambda>(k, v). weight_of v c) (map (\<lambda>(v, w). ((key, v), w)) vs) =
      emit (\<lambda>x. weight_of x (zb_flat integral)) (map (\<lambda>(v, w). ((key, v), w)) vs)"
    if "\<forall>v. weight_of (key, v) (zb_flat integral) = weight_of v c" for c
    using that by (intro emit_cong) auto
  have old0: "emit (\<lambda>_. 0) (map (\<lambda>(v, w). ((key, v), w)) vs) =
      emit (\<lambda>x. weight_of x (zb_flat integral)) (map (\<lambda>(v, w). ((key, v), w)) vs)"
    if "\<forall>v. weight_of (key, v) (zb_flat integral) = 0"
    using that by (intro emit_cong) auto
  have s1: "dit_emitted key s1 = dit_flat s @ emit (\<lambda>x. weight_of x (zb_flat integral)) (map (\<lambda>(v, w). ((key, v), w)) vs) \<and> dit_ok s1"
    using seek_head [OF Cons.prems(2), of key] dit_known_key_emitted [OF ok(2) _ ok0, of _ key n]
      dit_new_key_emitted [OF ok(3) ok0, of key n] old old0 e0
    unfolding s1_def by (auto split: list.splits if_splits)
  have s2: "dit_flat s2 = dit_emitted key s1" "zb_vals (dit_builder s2) = []"
    unfolding s2_def by (rule dit_close_key [OF conjunct2 [OF s1]])+
  have "emit (\<lambda>x. weight_of x (zb_flat ?i)) (zb_flat delta) = emit (\<lambda>x. weight_of x (zb_flat integral)) (zb_flat delta)"
  proof (rule emit_cong)
    fix x assume "x \<in> fst ` set (zb_flat delta)"
    then obtain k v where "x = (k, v)" "k \<in> fst ` set delta" by (force simp: zb_flat_def)
    with ok(4) show "weight_of x (zb_flat ?i) = weight_of x (zb_flat integral)"
      by (auto intro: weight_of_flat_seek less_imp_le)
  qed
  moreover have "dit_keys n (e # delta) integral s = dit_keys n delta ?i s2"
    unfolding e by (simp add: Let_def s1_def s2_def)
  ultimately show ?case
    using Cons.IH [OF ok(1) seek_ok [OF Cons.prems(2)] s2(2), of key] s1 s2(1)
    by (simp add: e emit_append)
qed simp

lemma distinct_flat: "zbatch_ok b \<Longrightarrow> distinct (map fst (zb_flat b))"
proof (induction b)
  case (Cons e b)
  obtain k vs where e: "e = (k, vs)" by force
  have "distinct (map fst vs)" using Cons.prems strict_sorted_iff by (auto simp: zbatch_ok_def e)
  moreover have "k \<notin> fst ` set b" using Cons.prems by (auto simp: zbatch_ok_def e)
  ultimately show ?case
    using Cons.IH Cons.prems by (auto simp: zbatch_ok_def e zb_flat_def distinct_map inj_on_def image_iff; force)
qed simp

lemma zset_distinct_loop_flat:
  assumes "list_all (\<lambda>(k, vs). list_all (\<lambda>(v, w). w \<noteq> 0) vs) z" "zb_vals b = []"
  shows "zb_flat (zb_keys (zset_distinct_loop z b)) =
    zb_flat (zb_keys b) @ map (\<lambda>(x, w). (x, 1)) (filter (\<lambda>(x, w). 0 < w) (zb_flat z))"
  using assms
proof (induction z arbitrary: b)
  case (Cons e z)
  obtain k vs where e: "e = (k, vs)" by force
  let ?push = "fold (\<lambda>(v, w) b. if w \<ge> 0 then zb_push_val_diff v 1 b else b) vs b"
  have push: "fold (\<lambda>(v, w) b. if w \<ge> 0 then zb_push_val_diff v 1 b else b) vs b =
      b\<lparr>zb_vals := zb_vals b @ map (\<lambda>(v, w). (v, 1)) (filter (\<lambda>(v, w). w \<ge> 0) vs)\<rparr>"
    for vs :: "('b \<times> zweight) list" and b :: "('a, 'b) zbuilder"
    by (induction vs arbitrary: b) (auto simp: zb_push_val_diff_def)
  have pos: "filter (\<lambda>(v, w). w \<ge> 0) vs = filter (\<lambda>(v, w). 0 < w) vs"
    using Cons.prems(1) by (auto simp: e list_all_iff intro!: filter_cong)
  define b' where "b' = (if length (filter (\<lambda>(v, w). w \<ge> 0) vs) > 0 then zb_push_key k ?push else ?push)"
  have "zb_vals b' = []" "zb_flat (zb_keys b') = zb_flat (zb_keys b) @
      map (\<lambda>(x, w). (x, 1)) (filter (\<lambda>(x, w). 0 < w) (map (\<lambda>(v, w). ((k, v), w)) vs))"
    unfolding b'_def push [of vs b] pos using Cons.prems(2)
    by (auto simp: zb_push_key_def filter_map o_def case_prod_beta' filter_empty_conv)
  with Cons.IH [of b'] Cons.prems(1) show ?case
    by (simp add: e Let_def b'_def)
qed simp

lemma weight_of_positive:
  "distinct (map fst es) \<Longrightarrow> weight_of x (map (\<lambda>(x, w). (x, 1)) (filter (\<lambda>(x, w). 0 < w) es)) = dist (weight_of x es)"
proof (induction es)
  case (Cons e es)
  obtain y w where e: "e = (y, w)" by force
  have "weight_of x es = 0" if "y = x" using Cons.prems that by (intro weight_of_absent) (simp add: e)
  with Cons show ?case by (auto simp: e weight_simps dist_def)
qed (simp add: weight_simps dist_def)

lemma zset_distinct_weight:
  assumes "zbatch_ok z"
  shows "weight_of x (zb_flat (zset_distinct z)) = dist (weight_of x (zb_flat z))"
proof -
  have "list_all (\<lambda>(k, vs). list_all (\<lambda>(v, w). w \<noteq> 0) vs) z"
    using assms by (auto simp: zbatch_ok_def list_all_iff)
  then have "zb_flat (zset_distinct z) = map (\<lambda>(x, w). (x, 1)) (filter (\<lambda>(x, w). 0 < w) (zb_flat z))"
    using zset_distinct_loop_flat [of z zb_new] by (simp add: zset_distinct_def zb_done_def zb_new_def)
  then show ?thesis using weight_of_positive [OF distinct_flat [OF assms]] by simp
qed

lemma in_i64_weight:
  assumes "zbatch_ok z"
  shows "in_i64 (weight_of x (zb_flat z))"
proof (cases "x \<in> fst ` set (zb_flat z)")
  case True
  then obtain w where w: "(x, w) \<in> set (zb_flat z)" by force
  then have "in_i64 w" using assms by (auto simp: zb_flat_def zbatch_ok_def list_all_iff)
  with w weight_of_distinct [OF distinct_flat [OF assms] w] show ?thesis by simp
next
  case False
  from weight_of_absent [OF this] show ?thesis by (simp add: in_i64_def)
qed

section \<open>The operator of nested circuits\<close>

text \<open>
  The accumulated weight at a time, the value of \<open>distinct\<close> there, and its mixed difference over the
  times around a given one.
\<close>

definition weight_at :: "'t timestamp \<Rightarrow> ('t \<times> zweight) list \<Rightarrow> 't \<Rightarrow> zweight" where
  "weight_at ts trace t = fold (\<lambda>(s, w) acc. if ts_less_equal ts s t then i64_add acc w else acc) trace 0"

definition dist_at :: "'t timestamp \<Rightarrow> ('t \<times> zweight) list \<Rightarrow> 't option \<Rightarrow> zweight" where
  "dist_at ts trace t = (case t of None \<Rightarrow> 0 | Some t \<Rightarrow> dist (weight_at ts trace t))"

fun mixed_difference :: "'t timestamp \<Rightarrow> ('t option \<Rightarrow> zweight) \<Rightarrow> nat \<Rightarrow> 't option \<Rightarrow> zweight" where
  "mixed_difference ts f 0 t = f t"
| "mixed_difference ts f (Suc n) t =
     mixed_difference ts f n t - mixed_difference ts f n (Option.bind t (ts_checked_recede ts n))"

lemma length_init_distinct_vals [simp]: "length (init_distinct_vals ts n t) = 2 ^ n"
  by (induction n arbitrary: t) simp_all

lemma partial_derivative_mixed:
  "partial_derivative n (map (\<lambda>(t, w). (t, f t)) (init_distinct_vals ts n t)) = mixed_difference ts f n t"
  by (induction n arbitrary: t) simp_all

lemma fold_trace_vals:
  "fst (fold (\<lambda>(s, w) (vals, interest). (add_trace_weight ts s w vals, g s interest)) trace
      (map (\<lambda>(t, _). (t, h t)) vals, i)) =
    map (\<lambda>(t, _). (t, fold (\<lambda>(s, w) acc. case t of None \<Rightarrow> acc
       | Some t \<Rightarrow> if ts_less_equal ts s t then i64_add acc w else acc) trace (h t))) vals"
proof (induction trace arbitrary: h i)
  case (Cons e trace)
  obtain s w where e: "e = (s, w)" by force
  let ?h = "\<lambda>t. case t of None \<Rightarrow> h t | Some t' \<Rightarrow> if ts_less_equal ts s t' then i64_add (h t) w else h t"
  have "add_trace_weight ts s w (map (\<lambda>(t, _). (t, h t)) vals) = map (\<lambda>(t, _). (t, ?h t)) vals"
    by (auto simp: add_trace_weight_def split: option.splits)
  with Cons.IH [of ?h] show ?case by (simp add: e)
qed simp

lemma eval_keyval_output:
  "fst (eval_keyval ts n time trace) =
    (let d = mixed_difference ts (dist_at ts trace) n (Some time) in if d \<noteq> 0 then Some d else None)"
proof -
  have at: "dist (fold (\<lambda>(s, w) acc. case t of None \<Rightarrow> acc
       | Some t \<Rightarrow> if ts_less_equal ts s t then i64_add acc w else acc) trace 0) = dist_at ts trace t" for t
  proof (cases t)
    case None
    have "fold (\<lambda>(s :: 'a, w :: int) acc :: zweight. acc) trace 0 = 0" by (induction trace) auto
    with None show ?thesis by (simp add: dist_at_def dist_def)
  qed (simp add: dist_at_def weight_at_def)
  have "clear_distinct_vals (init_distinct_vals ts n (Some time)) =
      map (\<lambda>(t, _). (t, 0)) (init_distinct_vals ts n (Some time))"
    by (simp add: clear_distinct_vals_def)
  then show ?thesis
    using fold_trace_vals [of ts "time_of_interest_step ts time" trace "\<lambda>_. 0" "init_distinct_vals ts n (Some time)" None]
      partial_derivative_mixed [of n "dist_at ts trace" ts "Some time"]
    by (simp add: eval_keyval_def Let_def case_prod_beta' o_def at [unfolded case_prod_beta'])
qed

text \<open>The clock of a nested circuit: two times, and four points around the current one.\<close>

abbreviation nested_ts :: "(32 word, 32 word) product timestamp" where
  "nested_ts \<equiv> product_ops u32_ops u32_ops"

definition u32_before :: "32 word \<Rightarrow> 32 word option" where
  "u32_before a = (if a = 0 then None else Some (a - 1))"

lemma u32_recede_before: "ts_checked_recede u32_ops n a = u32_before a"
  by (simp add: u32_ops_def u32_before_def word_less_1)

lemma nested_mixed_difference:
  "mixed_difference nested_ts f 2 (Some (Product a b)) =
     (f (Some (Product a b)) - f (map_option (Product a) (u32_before b))) -
     (f (map_option (\<lambda>a. Product a b) (u32_before a)) -
      f (Option.bind (u32_before a) (\<lambda>a. map_option (Product a) (u32_before b))))"
proof -
  have "Option.bind (map_option (\<lambda>a. Product a b) (u32_before a)) (\<lambda>t. product_checked_recede u32_ops u32_ops 0 t) =
      Option.bind (u32_before a) (\<lambda>a. map_option (Product a) (u32_before b))"
    by (cases "u32_before a") (simp_all add: u32_recede_before)
  then show ?thesis by (simp add: numeral_2_eq_2 product_ops_def u32_recede_before)
qed

lemma sum_differences:
  fixes g :: "nat \<Rightarrow> int"
  shows "(\<Sum>j\<le>n. g j - (if j = 0 then 0 else g (j - 1))) = g n"
  by (induction n) simp_all

lemma u32_before_nat: "i < 2 ^ 32 \<Longrightarrow> u32_before (of_nat i) = (if i = 0 then None else Some (of_nat (i - 1)))"
proof (cases i)
  case (Suc k)
  assume "i < 2 ^ 32"
  then have "(of_nat i :: 32 word) \<noteq> 0" using Suc by (simp add: word_of_nat_eq_0_iff nat_dvd_not_less del: of_nat_Suc)
  with Suc show ?thesis by (simp add: u32_before_def)
qed (simp add: u32_before_def)

definition keyval_output :: "((32 word, 32 word) product \<times> zweight) list \<Rightarrow> (32 word, 32 word) product \<Rightarrow> zweight" where
  "keyval_output trace t = (case fst (eval_keyval nested_ts 2 t trace) of None \<Rightarrow> 0 | Some w \<Rightarrow> w)"

lemma keyval_output_mixed:
  "keyval_output trace t = mixed_difference nested_ts (dist_at nested_ts trace) 2 (Some t)"
  by (simp add: keyval_output_def eval_keyval_output Let_def)

lemma weight_at_cong:
  "(\<And>s w. (s, w) \<in> set trace \<Longrightarrow> ts_less_equal ts s t \<longleftrightarrow> ts_less_equal ts s t') \<Longrightarrow>
    weight_at ts trace t = weight_at ts trace t'"
  unfolding weight_at_def by (intro fold_cong refl) auto

lemma weight_at_none:
  "(\<And>s w. (s, w) \<in> set trace \<Longrightarrow> \<not> ts_less_equal ts s t) \<Longrightarrow> weight_at ts trace t = 0"
  unfolding weight_at_def
proof (induction trace)
  case (Cons e trace)
  obtain s w where e: "e = (s, w)" by force
  have "\<not> ts_less_equal ts s t" using Cons.prems [of s w] by (simp add: e)
  moreover have "fold (\<lambda>(s, w) acc. if ts_less_equal ts s t then i64_add acc w else acc) trace 0 = 0"
    by (rule Cons.IH) (use Cons.prems in auto)
  ultimately show ?case by (simp add: e)
qed simp

lemma nested_le: "ts_less_equal nested_ts s t \<longleftrightarrow> outer s \<le> outer t \<and> inner s \<le> inner t"
  by (simp add: product_ops_def product_less_equal_def u32_ops_def)

lemma u32_before_le: "u32_before a = Some a' \<Longrightarrow> x \<le> a' \<longleftrightarrow> x \<le> a \<and> x \<noteq> a"
proof -
  assume "u32_before a = Some a'"
  then have "a \<noteq> 0" "a' = a - 1" by (auto simp: u32_before_def split: if_splits)
  moreover have "x = a \<longleftrightarrow> unat x = unat a" by (simp add: word_unat_eq_iff)
  moreover have "0 < unat a" using calculation(1) by (simp add: unat_gt_0)
  ultimately show ?thesis by (auto simp: word_le_nat_alt unat_minus_one)
qed

lemma no_outer_update:
  assumes "\<And>s w. (s, w) \<in> set trace \<Longrightarrow> \<not> (outer s = a \<and> inner s \<le> b)"
  shows "dist_at nested_ts trace (Some (Product a b)) = dist_at nested_ts trace (map_option (\<lambda>a. Product a b) (u32_before a))"
proof (cases "u32_before a")
  case None
  then have "a = 0" by (simp add: u32_before_def split: if_splits)
  then have "weight_at nested_ts trace (Product a b) = 0"
    using assms by (intro weight_at_none) (auto simp: nested_le)
  with None show ?thesis by (simp add: dist_at_def dist_def)
next
  case (Some a')
  have "weight_at nested_ts trace (Product a b) = weight_at nested_ts trace (Product a' b)"
    using assms u32_before_le [OF Some] by (intro weight_at_cong) (auto simp: nested_le)
  with Some show ?thesis by (simp add: dist_at_def)
qed

lemma no_inner_update:
  assumes "\<And>s w. (s, w) \<in> set trace \<Longrightarrow> \<not> (inner s = b \<and> outer s \<le> a)"
  shows "dist_at nested_ts trace (Some (Product a b)) = dist_at nested_ts trace (map_option (Product a) (u32_before b))"
proof (cases "u32_before b")
  case None
  then have "b = 0" by (simp add: u32_before_def split: if_splits)
  then have "weight_at nested_ts trace (Product a b) = 0"
    using assms by (intro weight_at_none) (auto simp: nested_le)
  with None show ?thesis by (simp add: dist_at_def dist_def)
next
  case (Some b')
  have "weight_at nested_ts trace (Product a b) = weight_at nested_ts trace (Product a b')"
    using assms u32_before_le [OF Some] by (intro weight_at_cong) (auto simp: nested_le)
  with Some show ?thesis by (simp add: dist_at_def)
qed

section \<open>Properties\<close>

text \<open>
  C2: the incremental distinct operator of the root circuit outputs, for every tuple, exactly the change
  of \<open>distinct\<close> between the old and the new contents of its input: one when the weight becomes positive,
  minus one when it stops being positive, nothing otherwise; the chunk size only splits the output,
  and exactly the last batch is marked as last. Without an input it outputs one empty batch.
\<close>

theorem distinct_incremental_total_correct:
  assumes "zbatch_ok delta" "zbatch_ok integral"
  shows "weight_of x (concat (map (zb_flat \<circ> fst) (dit_eval chunk_size (Some delta) integral))) =
      dist (i64_add (weight_of x (zb_flat integral)) (weight_of x (zb_flat delta))) - dist (weight_of x (zb_flat integral)) \<and>
    (\<exists>bs b. dit_eval chunk_size (Some delta) integral = map (\<lambda>b. (b, False)) bs @ [(b, True)]) \<and>
    dit_eval chunk_size None integral = [([], True)]"
proof -
  let ?init = "\<lparr>dit_builder = zb_new, dit_any_values = False, dit_outputs = []\<rparr>"
  let ?s = "dit_keys chunk_size delta integral ?init"
  have "dit_flat ?s = emit (\<lambda>x. weight_of x (zb_flat integral)) (zb_flat delta)"
    using dit_keys_emitted [OF assms, of ?init chunk_size] by (simp add: zb_new_def dit_flat_def)
  moreover have "concat (map (zb_flat \<circ> fst) (dit_eval chunk_size (Some delta) integral)) = dit_flat ?s"
    by (simp add: dit_eval_def Let_def dit_flat_def zb_done_def o_def)
  ultimately show ?thesis
    using weight_of_emit [OF distinct_flat [OF assms(1)] in_i64_weight [OF assms(2)], of x]
    by (auto simp: dist_change_def dit_eval_def Let_def)
qed

theorem distinct_incremental_total_correct_witness:
  "weight_of (1 :: nat, 2 :: nat) (concat (map (zb_flat \<circ> fst)
      (dit_eval 1 (Some [(1, [(2, 3), (5, - 1)])]) [(1, [(2, - 1), (5, 1)])]))) = 1 \<and>
   weight_of (1 :: nat, 5 :: nat) (concat (map (zb_flat \<circ> fst)
      (dit_eval 1 (Some [(1, [(2, 3), (5, - 1)])]) [(1, [(2, - 1), (5, 1)])]))) = - 1"
proof -
  have ok: "zbatch_ok [(1 :: nat, [(2 :: nat, 3), (5, - 1)])]" "zbatch_ok [(1 :: nat, [(2 :: nat, - 1), (5, 1)])]"
    by (simp_all add: zbatch_ok_def in_i64_def)
  show ?thesis
    using distinct_incremental_total_correct [OF ok, of "(1, 2)" 1] distinct_incremental_total_correct [OF ok, of "(1, 5)" 1]
    by (simp add: weight_simps i64_add_def dist_def)
qed

text \<open>
  C39: \<open>distinct\<close> on a batch keeps the tuples of positive weight, each with weight one.
\<close>

theorem zset_distinct_correct:
  assumes "zbatch_ok z"
  shows "weight_of x (zb_flat (zset_distinct z)) = (if weight_of x (zb_flat z) > 0 then 1 else 0)"
  using zset_distinct_weight [OF assms] by (simp add: dist_def)

theorem zset_distinct_correct_witness:
  "weight_of (1 :: nat, 2 :: nat) (zb_flat (zset_distinct [(1, [(2, 3), (5, - 1)])])) = 1"
proof -
  have "zbatch_ok [(1 :: nat, [(2 :: nat, 3), (5, - 1)])]" by (simp add: zbatch_ok_def in_i64_def)
  from zset_distinct_correct [OF this, of "(1, 2)"] show ?thesis by (simp add: weight_simps)
qed

text \<open>
  C14: in a nested circuit the outputs for one tuple, summed over all times up to a given one, are the
  value of \<open>distinct\<close> of the weight accumulated up to that time: the partial derivative that
  \<open>eval_keyval\<close> computes over the four times around the current one is the right increment.
\<close>

theorem nested_distinct_integrates:
  "(\<Sum>i\<le>unat a. \<Sum>j\<le>unat b. keyval_output trace (Product (of_nat i) (of_nat j))) =
     (if weight_at nested_ts trace (Product a b) > 0 then 1 else 0)"
proof -
  let ?f = "dist_at nested_ts trace"
  define F where "F i j = ?f (Some (Product (of_nat i) (of_nat j)))" for i j :: nat
  define G where "G i j = F i j - (if j = 0 then 0 else F i (j - 1))" for i j
  have ub: "i < 2 ^ 32" if "i \<le> unat (w :: 32 word)" for i w using that le_less_trans [OF that unsigned_less] by simp
  have "keyval_output trace (Product (of_nat i) (of_nat j)) = G i j - (if i = 0 then 0 else G (i - 1) j)"
    if "i \<le> unat a" "j \<le> unat b" for i j
    using ub [OF that(1)] ub [OF that(2)]
    by (auto simp: keyval_output_mixed nested_mixed_difference u32_before_nat G_def F_def dist_at_def)
  then have "(\<Sum>i\<le>unat a. \<Sum>j\<le>unat b. keyval_output trace (Product (of_nat i) (of_nat j))) =
      (\<Sum>i\<le>unat a. \<Sum>j\<le>unat b. G i j - (if i = 0 then 0 else G (i - 1) j))" by simp
  also have "\<dots> = (\<Sum>i\<le>unat a. F i (unat b) - (if i = 0 then 0 else F (i - 1) (unat b)))"
  proof (rule sum.cong [OF refl])
    fix i
    have "(\<Sum>j\<le>unat b. G i j - (if i = 0 then 0 else G (i - 1) j)) =
        (\<Sum>j\<le>unat b. G i j) - (if i = 0 then 0 else \<Sum>j\<le>unat b. G (i - 1) j)"
      by (simp add: sum_subtractf)
    then show "(\<Sum>j\<le>unat b. G i j - (if i = 0 then 0 else G (i - 1) j)) =
        F i (unat b) - (if i = 0 then 0 else F (i - 1) (unat b))"
      by (simp add: G_def sum_differences)
  qed
  also have "\<dots> = F (unat a) (unat b)" by (rule sum_differences)
  finally show ?thesis by (simp add: F_def dist_at_def dist_def)
qed

lemma no_outer_update_around:
  assumes no: "\<And>s w. (s, w) \<in> set trace \<Longrightarrow> \<not> (outer s = a \<and> inner s \<le> b)"
  shows "keyval_output trace (Product a b) = 0"
proof -
  have "dist_at nested_ts trace (map_option (Product a) (u32_before b)) =
      dist_at nested_ts trace (Option.bind (u32_before a) (\<lambda>a. map_option (Product a) (u32_before b)))"
  proof (cases "u32_before b")
    case (Some b')
    have "\<not> (outer s = a \<and> inner s \<le> b')" if "(s, w) \<in> set trace" for s w
      using no [OF that] u32_before_le [OF Some] by blast
    from no_outer_update [OF this] Some show ?thesis by (cases "u32_before a") simp_all
  qed (cases "u32_before a"; simp)
  with no_outer_update [OF no] show ?thesis by (simp add: keyval_output_mixed nested_mixed_difference)
qed

lemma no_inner_update_around:
  assumes no: "\<And>s w. (s, w) \<in> set trace \<Longrightarrow> \<not> (inner s = b \<and> outer s \<le> a)"
  shows "keyval_output trace (Product a b) = 0"
proof -
  have "dist_at nested_ts trace (map_option (\<lambda>a. Product a b) (u32_before a)) =
      dist_at nested_ts trace (Option.bind (u32_before a) (\<lambda>a. map_option (Product a) (u32_before b)))"
  proof (cases "u32_before a")
    case (Some a')
    have "\<not> (inner s = b \<and> outer s \<le> a')" if "(s, w) \<in> set trace" for s w
      using no [OF that] u32_before_le [OF Some] by blast
    from no_inner_update [OF this] Some show ?thesis by simp
  qed simp
  with no_inner_update [OF no] show ?thesis by (simp add: keyval_output_mixed nested_mixed_difference)
qed

text \<open>
  C40: a tuple can appear in the output at a time only if that time is the join of two times at which
  the tuple was updated; this is why it suffices to look at the current input and at the times
  recorded in \<open>keys_of_interest\<close>.
\<close>

theorem nested_distinct_output_times:
  assumes "keyval_output trace t \<noteq> 0"
  shows "\<exists>s1 w1 s2 w2. (s1, w1) \<in> set trace \<and> (s2, w2) \<in> set trace \<and> t = ts_join nested_ts s1 s2"
proof -
  obtain a b where t: "t = Product a b" by (cases t)
  obtain s1 w1 where s1: "(s1, w1) \<in> set trace" "outer s1 = a" "inner s1 \<le> b"
    using no_outer_update_around [of trace a b] assms t by blast
  obtain s2 w2 where s2: "(s2, w2) \<in> set trace" "inner s2 = b" "outer s2 \<le> a"
    using no_inner_update_around [of trace b a] assms t by blast
  have "t = ts_join nested_ts s1 s2"
    using s1(2,3) s2(2,3) by (simp add: t product_ops_def product_join_def u32_ops_def max_def)
  with s1(1) s2(1) show ?thesis by blast
qed

theorem nested_distinct_output_times_witness:
  "\<exists>s1 w1 s2 w2. (s1, w1) \<in> set [(Product 1 0, 1), (Product 0 1, 1 :: zweight)] \<and>
    (s2, w2) \<in> set [(Product 1 0, 1), (Product 0 1, 1 :: zweight)] \<and> Product 1 1 = ts_join nested_ts s1 s2"
proof (rule nested_distinct_output_times)
  show "keyval_output [(Product 1 0, 1), (Product 0 1, 1)] (Product 1 1) \<noteq> 0"
    by (simp add: keyval_output_mixed nested_mixed_difference u32_before_def dist_at_def weight_at_def nested_le
        dist_def i64_add_def)
qed

end
