(* ===== verification/Merge_Cursors.thy ===== *)
theory Merge_Cursors
  imports Consolidation "HOL-Library.Monad_Syntax"
begin

text \<open>
  What merging a batch reads and writes (\<open>crates/dbsp/src/trace/cursor.rs\<close>, \<open>trace/filter.rs\<close>, \<open>trace.rs\<close>): the
  forward cursors of the trait \<open>MergeCursor\<close>, the cursors that skip filtered keys and values, and the
  trait \<open>Builder\<close>. A cursor trait is a record of its operations; an operation on a position where the
  trait does not allow it is \<open>None\<close>. The contents of a batch are its rows: every key with its values,
  every value with its pairs of time and weight.
\<close>

section \<open>Rows and builders\<close>

type_synonym ('k, 'v, 't, 'r) rows = "('k \<times> ('v \<times> ('t \<times> 'r) list) list) list"

text \<open>
  The trait \<open>Builder\<close> takes all the time-diff pairs of a value, then the value, and after the values of
  a key the key.
\<close>

record ('k, 'v, 't, 'r) batch_builder =
  bb_rows :: "('k, 'v, 't, 'r) rows"
  bb_vals :: "('v \<times> ('t \<times> 'r) list) list"
  bb_diffs :: "('t \<times> 'r) list"

definition new_builder :: "('k, 'v, 't, 'r) batch_builder" where
  "new_builder = \<lparr>bb_rows = [], bb_vals = [], bb_diffs = []\<rparr>"

definition push_time_diff :: "'t \<Rightarrow> 'r \<Rightarrow> ('k, 'v, 't, 'r) batch_builder \<Rightarrow> ('k, 'v, 't, 'r) batch_builder" where
  "push_time_diff t w b = b\<lparr>bb_diffs := bb_diffs b @ [(t, w)]\<rparr>"

definition push_val :: "'v \<Rightarrow> ('k, 'v, 't, 'r) batch_builder \<Rightarrow> ('k, 'v, 't, 'r) batch_builder" where
  "push_val v b = b\<lparr>bb_vals := bb_vals b @ [(v, bb_diffs b)], bb_diffs := []\<rparr>"

definition push_key :: "'k \<Rightarrow> ('k, 'v, 't, 'r) batch_builder \<Rightarrow> ('k, 'v, 't, 'r) batch_builder" where
  "push_key k b = b\<lparr>bb_rows := bb_rows b @ [(k, bb_vals b)], bb_vals := []\<rparr>"

definition builder_done :: "('k, 'v, 't, 'r) batch_builder \<Rightarrow> ('k, 'v, 't, 'r) rows" where
  "builder_done b = bb_rows b"

section \<open>Merge cursors\<close>

record ('c, 'k, 'v, 't, 'r) merge_cursor_ops =
  mc_key_valid :: "'c \<Rightarrow> bool"
  mc_val_valid :: "'c \<Rightarrow> bool"
  mc_key :: "'c \<Rightarrow> 'k option"
  mc_val :: "'c \<Rightarrow> 'v option"
  mc_times :: "'c \<Rightarrow> ('t \<times> 'r) list option"
  mc_step_key :: "'c \<Rightarrow> 'c option"
  mc_step_val :: "'c \<Rightarrow> 'c option"

text \<open>
  The contract of a cursor: while \<open>ok\<close> holds of it, which every operation keeps, its operations read and
  consume the rows that are left. Only the first row may have run out of values.
\<close>

locale merge_cursor =
  fixes ops :: "('c, 'k, 'v, 't, 'r) merge_cursor_ops"
    and rows :: "'c \<Rightarrow> ('k, 'v, 't, 'r) rows" and ok :: "'c \<Rightarrow> bool"
  assumes key_valid: "ok c \<Longrightarrow> mc_key_valid ops c \<longleftrightarrow> rows c \<noteq> []"
    and key: "ok c \<Longrightarrow> rows c = (k, vs) # rest \<Longrightarrow> mc_key ops c = Some k"
    and val_valid: "ok c \<Longrightarrow> rows c = (k, vs) # rest \<Longrightarrow> mc_val_valid ops c \<longleftrightarrow> vs \<noteq> []"
    and val: "ok c \<Longrightarrow> rows c = (k, (v, tds) # vs) # rest \<Longrightarrow> mc_val ops c = Some v"
    and times: "ok c \<Longrightarrow> rows c = (k, (v, tds) # vs) # rest \<Longrightarrow> mc_times ops c = Some tds"
    and step_key: "ok c \<Longrightarrow> rows c = (k, vs) # rest \<Longrightarrow>
      \<exists>c'. mc_step_key ops c = Some c' \<and> ok c' \<and> rows c' = rest"
    and step_val: "ok c \<Longrightarrow> rows c = (k, (v, tds) # vs) # rest \<Longrightarrow>
      \<exists>c'. mc_step_val ops c = Some c' \<and> ok c' \<and> rows c' = (k, vs) # rest"

text \<open>The plain cursor on the rows of a batch; \<open>UnfilteredMergeCursor\<close> passes every call on to it.\<close>

definition rows_cursor_ops :: "(('k, 'v, 't, 'r) rows, 'k, 'v, 't, 'r) merge_cursor_ops" where
  "rows_cursor_ops = \<lparr>
     mc_key_valid = (\<lambda>c. c \<noteq> []),
     mc_val_valid = (\<lambda>c. case c of (_, _ # _) # _ \<Rightarrow> True | _ \<Rightarrow> False),
     mc_key = (\<lambda>c. case c of (k, _) # _ \<Rightarrow> Some k | [] \<Rightarrow> None),
     mc_val = (\<lambda>c. case c of (_, (v, _) # _) # _ \<Rightarrow> Some v | _ \<Rightarrow> None),
     mc_times = (\<lambda>c. case c of (_, (_, tds) # _) # _ \<Rightarrow> Some tds | _ \<Rightarrow> None),
     mc_step_key = (\<lambda>c. case c of _ # rest \<Rightarrow> Some rest | [] \<Rightarrow> None),
     mc_step_val = (\<lambda>c. case c of (k, _ # vs) # rest \<Rightarrow> Some ((k, vs) # rest) | _ \<Rightarrow> None)\<rparr>"

interpretation rows_cursor: merge_cursor rows_cursor_ops "\<lambda>c. c" "\<lambda>_. True"
  by unfold_locales (auto simp: rows_cursor_ops_def split: list.splits)

section \<open>Cursors with filters\<close>

definition filter_include :: "('a \<Rightarrow> bool) option \<Rightarrow> 'a \<Rightarrow> bool" where
  "filter_include this value = (case this of None \<Rightarrow> True | Some f \<Rightarrow> f value)"

partial_function (option) skip_filtered_values ::
  "('c, 'k, 'v, 't, 'r) merge_cursor_ops \<Rightarrow> ('v \<Rightarrow> bool) option \<Rightarrow> 'c \<Rightarrow> (bool \<times> 'c) option" where
  "skip_filtered_values ops value_filter c =
     (if mc_val_valid ops c then do {
        val \<leftarrow> mc_val ops c;
        if filter_include value_filter val then Some (True, c)
        else do {
          c' \<leftarrow> mc_step_val ops c;
          skip_filtered_values ops value_filter c'
        }
      } else Some (False, c))"

partial_function (option) skip_filtered_keys ::
  "('c, 'k, 'v, 't, 'r) merge_cursor_ops \<Rightarrow> ('k \<Rightarrow> bool) option \<Rightarrow> ('v \<Rightarrow> bool) option \<Rightarrow> 'c \<Rightarrow> 'c option" where
  "skip_filtered_keys ops key_filter value_filter c =
     (if mc_key_valid ops c then do {
        key \<leftarrow> mc_key ops c;
        r \<leftarrow> (if filter_include key_filter key then skip_filtered_values ops value_filter c else Some (False, c));
        if fst r then Some (snd r)
        else do {
          c' \<leftarrow> mc_step_key ops (snd r);
          skip_filtered_keys ops key_filter value_filter c'
        }
      } else Some c)"

record ('c, 'k, 'v) filtered_cursor =
  fc_cursor :: 'c
  fc_key_filter :: "('k \<Rightarrow> bool) option"
  fc_value_filter :: "('v \<Rightarrow> bool) option"

definition filtered_cursor_new ::
  "('c, 'k, 'v, 't, 'r) merge_cursor_ops \<Rightarrow> 'c \<Rightarrow> ('k \<Rightarrow> bool) option \<Rightarrow> ('v \<Rightarrow> bool) option
    \<Rightarrow> ('c, 'k, 'v) filtered_cursor option" where
  "filtered_cursor_new ops cursor key_filter value_filter = do {
     c \<leftarrow> skip_filtered_keys ops key_filter value_filter cursor;
     Some \<lparr>fc_cursor = c, fc_key_filter = key_filter, fc_value_filter = value_filter\<rparr>
   }"

definition filtered_cursor_ops ::
  "('c, 'k, 'v, 't, 'r) merge_cursor_ops \<Rightarrow> (('c, 'k, 'v) filtered_cursor, 'k, 'v, 't, 'r) merge_cursor_ops" where
  "filtered_cursor_ops ops = \<lparr>
     mc_key_valid = (\<lambda>c. mc_key_valid ops (fc_cursor c)),
     mc_val_valid = (\<lambda>c. mc_val_valid ops (fc_cursor c)),
     mc_key = (\<lambda>c. mc_key ops (fc_cursor c)),
     mc_val = (\<lambda>c. mc_val ops (fc_cursor c)),
     mc_times = (\<lambda>c. mc_times ops (fc_cursor c)),
     mc_step_key = (\<lambda>c. do {
       c1 \<leftarrow> mc_step_key ops (fc_cursor c);
       c2 \<leftarrow> skip_filtered_keys ops (fc_key_filter c) (fc_value_filter c) c1;
       Some (c\<lparr>fc_cursor := c2\<rparr>)
     }),
     mc_step_val = (\<lambda>c. do {
       c1 \<leftarrow> mc_step_val ops (fc_cursor c);
       r \<leftarrow> skip_filtered_values ops (fc_value_filter c) c1;
       Some (c\<lparr>fc_cursor := snd r\<rparr>)
     })\<rparr>"

text \<open>What is left of rows under the filters: keys without values disappear.\<close>

definition filter_vals :: "('v \<Rightarrow> bool) option \<Rightarrow> ('v \<times> ('t \<times> 'r) list) list \<Rightarrow> ('v \<times> ('t \<times> 'r) list) list" where
  "filter_vals value_filter vs = filter (\<lambda>x. filter_include value_filter (fst x)) vs"

fun filter_rows ::
  "('k \<Rightarrow> bool) option \<Rightarrow> ('v \<Rightarrow> bool) option \<Rightarrow> ('k, 'v, 't, 'r) rows \<Rightarrow> ('k, 'v, 't, 'r) rows" where
  "filter_rows key_filter value_filter [] = []"
| "filter_rows key_filter value_filter ((k, vs) # rest) =
     (if filter_include key_filter k \<and> filter_vals value_filter vs \<noteq> []
      then (k, filter_vals value_filter vs) # filter_rows key_filter value_filter rest
      else filter_rows key_filter value_filter rest)"

context merge_cursor
begin

lemma skip_filtered_values_spec:
  "ok c \<Longrightarrow> rows c = (k, vs) # rest \<Longrightarrow>
    \<exists>c' vs'. skip_filtered_values ops vf c = Some (vs' \<noteq> [], c') \<and> ok c' \<and> rows c' = (k, vs') # rest \<and>
      filter_vals vf vs' = filter_vals vf vs \<and> (vs' \<noteq> [] \<longrightarrow> filter_include vf (fst (hd vs')))"
proof (induction vs arbitrary: c)
  case Nil
  then have "skip_filtered_values ops vf c = Some (False, c)"
    using val_valid [OF Nil] by (subst skip_filtered_values.simps) simp
  then show ?case using Nil by auto
next
  case (Cons x vs)
  obtain v tds where x: "x = (v, tds)" by (cases x)
  have r: "rows c = (k, (v, tds) # vs) # rest" using Cons.prems(2) x by simp
  have vv: "mc_val_valid ops c" "mc_val ops c = Some v"
    using val_valid [OF Cons.prems] val [OF Cons.prems(1) r] by auto
  show ?case
  proof (cases "filter_include vf v")
    case True
    then have "skip_filtered_values ops vf c = Some (True, c)"
      using vv by (subst skip_filtered_values.simps) simp
    then show ?thesis using True Cons.prems x by (intro exI [of _ c] exI [of _ "x # vs"]) simp
  next
    case False
    obtain c' where c': "mc_step_val ops c = Some c'" "ok c'" "rows c' = (k, vs) # rest"
      using step_val [OF Cons.prems(1) r] by blast
    have "skip_filtered_values ops vf c = skip_filtered_values ops vf c'"
      using vv False c'(1) by (subst skip_filtered_values.simps) simp
    then show ?thesis using Cons.IH [OF c'(2,3)] False x by (simp add: filter_vals_def)
  qed
qed

lemma skip_filtered_keys_spec:
  "ok c \<Longrightarrow> \<exists>c'. skip_filtered_keys ops kf vf c = Some c' \<and> ok c' \<and>
    (case rows c' of
       [] \<Rightarrow> filter_rows kf vf (rows c) = []
     | (k, vs) # rest \<Rightarrow> vs \<noteq> [] \<and> filter_include kf k \<and> filter_include vf (fst (hd vs)) \<and>
         filter_rows kf vf (rows c) = (k, filter_vals vf vs) # filter_rows kf vf rest)"
proof (induction "rows c" arbitrary: c)
  case Nil
  then have "skip_filtered_keys ops kf vf c = Some c"
    using key_valid [OF Nil(2)] by (subst skip_filtered_keys.simps) simp
  then show ?case using Nil by (intro exI [of _ c]) simp
next
  case (Cons x rest)
  obtain k vs where x: "x = (k, vs)" by (cases x)
  have r: "rows c = (k, vs) # rest" using Cons.hyps(2) x by simp
  have kv: "mc_key_valid ops c" "mc_key ops c = Some k"
    using key_valid [OF Cons.prems] key [OF Cons.prems r] r by auto
  obtain c1 vs1 where v: "skip_filtered_values ops vf c = Some (vs1 \<noteq> [], c1)" "ok c1" "rows c1 = (k, vs1) # rest"
    "filter_vals vf vs1 = filter_vals vf vs" "vs1 \<noteq> [] \<longrightarrow> filter_include vf (fst (hd vs1))"
    using skip_filtered_values_spec [OF Cons.prems r] by blast
  have empty: "vs1 = [] \<longleftrightarrow> filter_vals vf vs = []"
    using v(4,5) by (cases vs1) (auto simp: filter_vals_def)
  let ?c2 = "if filter_include kf k then c1 else c"
  show ?case
  proof (cases "filter_include kf k \<and> vs1 \<noteq> []")
    case True
    then have "skip_filtered_keys ops kf vf c = Some c1"
      using kv v(1) by (subst skip_filtered_keys.simps) simp
    then show ?thesis using True v(2-5) r empty by (intro exI [of _ c1]) simp
  next
    case False
    have c2: "ok ?c2" "\<exists>vs2. rows ?c2 = (k, vs2) # rest" using v(2,3) Cons.prems r by auto
    then obtain c' where c': "mc_step_key ops ?c2 = Some c'" "ok c'" "rows c' = rest"
      using step_key by blast
    have step: "skip_filtered_keys ops kf vf c = skip_filtered_keys ops kf vf c'"
      using kv v(1) False c'(1) by (subst skip_filtered_keys.simps) auto
    have same: "filter_rows kf vf (rows c) = filter_rows kf vf (rows c')" using False empty r c'(3) by auto
    show ?thesis unfolding step same using Cons.hyps(1) [OF c'(3) [symmetric] c'(2)] .
  qed
qed

end

text \<open>
  A filtered cursor stands on a key and a value that pass the filters; it has the rows of the cursor it
  reads, filtered.
\<close>

definition filtered_rows ::
  "('c \<Rightarrow> ('k, 'v, 't, 'r) rows) \<Rightarrow> ('c, 'k, 'v) filtered_cursor \<Rightarrow> ('k, 'v, 't, 'r) rows" where
  "filtered_rows rows c =
     (case rows (fc_cursor c) of
        [] \<Rightarrow> []
      | (k, vs) # rest \<Rightarrow>
          (k, filter_vals (fc_value_filter c) vs) # filter_rows (fc_key_filter c) (fc_value_filter c) rest)"

definition filtered_ok ::
  "('c \<Rightarrow> ('k, 'v, 't, 'r) rows) \<Rightarrow> ('c \<Rightarrow> bool) \<Rightarrow> ('c, 'k, 'v) filtered_cursor \<Rightarrow> bool" where
  "filtered_ok rows ok c \<longleftrightarrow> ok (fc_cursor c) \<and>
     (case rows (fc_cursor c) of
        [] \<Rightarrow> True
      | (k, vs) # _ \<Rightarrow> vs \<noteq> [] \<longrightarrow> filter_include (fc_value_filter c) (fst (hd vs)))"

context merge_cursor
begin

lemma filtered_rows_step:
  assumes "ok c1" and "skip_filtered_keys ops (fc_key_filter c) (fc_value_filter c) c1 = Some c2"
  shows "filtered_ok rows ok (c\<lparr>fc_cursor := c2\<rparr>)"
    and "filtered_rows rows (c\<lparr>fc_cursor := c2\<rparr>) = filter_rows (fc_key_filter c) (fc_value_filter c) (rows c1)"
  using skip_filtered_keys_spec [OF assms(1), of "fc_key_filter c" "fc_value_filter c"] assms(2)
  by (auto simp: filtered_ok_def filtered_rows_def split: list.splits)

lemma filtered_rowsE:
  assumes "filtered_ok rows ok c" and "filtered_rows rows c = (k, vs) # rest"
  obtains us rest' where "rows (fc_cursor c) = (k, us) # rest'" and "vs = filter_vals (fc_value_filter c) us"
    and "rest = filter_rows (fc_key_filter c) (fc_value_filter c) rest'" and "us = [] \<longleftrightarrow> vs = []"
    and "\<And>v tds vs'. vs = (v, tds) # vs' \<Longrightarrow>
      \<exists>us'. us = (v, tds) # us' \<and> vs' = filter_vals (fc_value_filter c) us'"
proof -
  obtain us rest' where r: "rows (fc_cursor c) = (k, us) # rest'" "vs = filter_vals (fc_value_filter c) us"
    "rest = filter_rows (fc_key_filter c) (fc_value_filter c) rest'"
    using assms(2) by (auto simp: filtered_rows_def split: list.splits prod.splits)
  have "us \<noteq> [] \<longrightarrow> filter_include (fc_value_filter c) (fst (hd us))"
    using assms(1) r(1) by (simp add: filtered_ok_def)
  then show thesis using r by (intro that [of us rest']) (cases us; auto simp: filter_vals_def)+
qed

lemma filtered_merge_cursor: "merge_cursor (filtered_cursor_ops ops) (filtered_rows rows) (filtered_ok rows ok)"
proof
  fix c :: "('c, 'k, 'v) filtered_cursor" and k v tds vs rest
  assume o: "filtered_ok rows ok c"
  then have oc: "ok (fc_cursor c)" by (simp add: filtered_ok_def)
  show "mc_key_valid (filtered_cursor_ops ops) c \<longleftrightarrow> filtered_rows rows c \<noteq> []"
    using key_valid [OF oc] by (auto simp: filtered_cursor_ops_def filtered_rows_def split: list.splits)
  {
    assume r: "filtered_rows rows c = (k, vs) # rest"
    obtain us rest' where u: "rows (fc_cursor c) = (k, us) # rest'" "us = [] \<longleftrightarrow> vs = []"
      "rest = filter_rows (fc_key_filter c) (fc_value_filter c) rest'"
      by (rule filtered_rowsE [OF o r])
    show "mc_key (filtered_cursor_ops ops) c = Some k" using key [OF oc u(1)] by (simp add: filtered_cursor_ops_def)
    show "mc_val_valid (filtered_cursor_ops ops) c \<longleftrightarrow> vs \<noteq> []"
      using val_valid [OF oc u(1)] u(2) by (simp add: filtered_cursor_ops_def)
    obtain c1 where c1: "mc_step_key ops (fc_cursor c) = Some c1" "ok c1" "rows c1 = rest'"
      using step_key [OF oc u(1)] by blast
    obtain c2 where c2: "skip_filtered_keys ops (fc_key_filter c) (fc_value_filter c) c1 = Some c2"
      using skip_filtered_keys_spec [OF c1(2)] by blast
    show "\<exists>c'. mc_step_key (filtered_cursor_ops ops) c = Some c' \<and> filtered_ok rows ok c' \<and> filtered_rows rows c' = rest"
      using c1(1,3) c2 filtered_rows_step [OF c1(2) c2] u(3) by (simp add: filtered_cursor_ops_def)
  }
  {
    assume r: "filtered_rows rows c = (k, (v, tds) # vs) # rest"
    obtain us rest' where u: "rows (fc_cursor c) = (k, (v, tds) # us) # rest'" "vs = filter_vals (fc_value_filter c) us"
      "rest = filter_rows (fc_key_filter c) (fc_value_filter c) rest'"
      by (rule filtered_rowsE [OF o r]) blast
    show "mc_val (filtered_cursor_ops ops) c = Some v" "mc_times (filtered_cursor_ops ops) c = Some tds"
      using val [OF oc u(1)] times [OF oc u(1)] by (simp_all add: filtered_cursor_ops_def)
    obtain c1 where c1: "mc_step_val ops (fc_cursor c) = Some c1" "ok c1" "rows c1 = (k, us) # rest'"
      using step_val [OF oc u(1)] by blast
    obtain c2 ws where c2: "skip_filtered_values ops (fc_value_filter c) c1 = Some (ws \<noteq> [], c2)" "ok c2"
      "rows c2 = (k, ws) # rest'" "filter_vals (fc_value_filter c) ws = filter_vals (fc_value_filter c) us"
      "ws \<noteq> [] \<longrightarrow> filter_include (fc_value_filter c) (fst (hd ws))"
      using skip_filtered_values_spec [OF c1(2,3)] by blast
    show "\<exists>c'. mc_step_val (filtered_cursor_ops ops) c = Some c' \<and> filtered_ok rows ok c' \<and>
        filtered_rows rows c' = (k, vs) # rest"
      using c1(1) c2 u(2,3) by (simp add: filtered_cursor_ops_def filtered_ok_def filtered_rows_def)
  }
qed

lemma filtered_cursor_new_spec:
  "ok c \<Longrightarrow> \<exists>c'. filtered_cursor_new ops c kf vf = Some c' \<and> filtered_ok rows ok c' \<and>
    filtered_rows rows c' = filter_rows kf vf (rows c)"
  using skip_filtered_keys_spec [of c kf vf]
    filtered_rows_step [of c "\<lparr>fc_cursor = undefined, fc_key_filter = kf, fc_value_filter = vf\<rparr>"]
  by (fastforce simp: filtered_cursor_new_def)

end

interpretation filtered_rows_cursor: merge_cursor "filtered_cursor_ops rows_cursor_ops"
  "filtered_rows (\<lambda>c. c)" "filtered_ok (\<lambda>c. c) (\<lambda>_. True)"
  by (rule rows_cursor.filtered_merge_cursor)

end
