(* ===== verification/Binary_Heap.thy ===== *)
theory Binary_Heap
  imports Prelude "HOL-Library.Monad_Syntax"
begin

text \<open>
  The binary heap of \<open>utils/binary_heap.rs\<close>, a copy of the heap of the standard library with
  operations that look at all maximal elements, remove an element by index, and sift one down.
  The heap is the vector \<open>data\<close>. The comparison is a closure that may panic, so it is a function to
  an option; reading or writing out of bounds and reading the hole are undefined behaviour in the
  source and are \<open>None\<close> here. A result \<open>Some\<close> therefore says that no panic and no access out of
  bounds happened. Indices are natural numbers: \<open>2 * pos + 2\<close> fits a \<open>usize\<close> as a vector of sized
  elements has at most \<open>isize::MAX\<close> bytes.
\<close>

section \<open>The hole\<close>

record 'a hole =
  h_data :: "'a list"
  h_elt :: 'a
  h_pos :: nat

definition hole_new :: "'a list \<Rightarrow> nat \<Rightarrow> 'a hole option" where
  "hole_new data pos =
     (if pos < length data then Some \<lparr>h_data = data, h_elt = data ! pos, h_pos = pos\<rparr> else None)"

definition hole_get :: "'a hole \<Rightarrow> nat \<Rightarrow> 'a option" where
  "hole_get h index =
     (if index \<noteq> h_pos h \<and> index < length (h_data h) then Some (h_data h ! index) else None)"

definition hole_move_to :: "'a hole \<Rightarrow> nat \<Rightarrow> 'a hole option" where
  "hole_move_to h index =
     (if index \<noteq> h_pos h \<and> index < length (h_data h)
      then Some (h\<lparr>h_data := (h_data h)[h_pos h := h_data h ! index], h_pos := index\<rparr>) else None)"

definition hole_drop :: "'a hole \<Rightarrow> 'a list" where
  "hole_drop h = (h_data h)[h_pos h := h_elt h]"

section \<open>Sifting\<close>

type_synonym 'a comparison = "'a \<Rightarrow> 'a \<Rightarrow> ordering option"

text \<open>\<open>sift_up\<close>: move the element towards the root while it is greater than its parent, not past \<open>start\<close>.\<close>

function sift_up_loop :: "'a comparison \<Rightarrow> nat \<Rightarrow> 'a hole \<Rightarrow> 'a hole option" where
  "sift_up_loop cmp start h =
     (if h_pos h > start then do {
        let parent = (h_pos h - 1) div 2;
        p \<leftarrow> hole_get h parent;
        c \<leftarrow> cmp (h_elt h) p;
        if c \<noteq> Greater then Some h
        else do {
          h' \<leftarrow> hole_move_to h parent;
          sift_up_loop cmp start h'
        }
      } else Some h)"
  by pat_completeness auto
termination
  by (relation "measure (\<lambda>(_, _, h). h_pos h)")
    (auto simp: hole_move_to_def split: if_splits)

definition sift_up :: "'a comparison \<Rightarrow> 'a list \<Rightarrow> nat \<Rightarrow> nat \<Rightarrow> (nat \<times> 'a list) option" where
  "sift_up cmp data start pos = do {
     h \<leftarrow> hole_new data pos;
     h' \<leftarrow> sift_up_loop cmp start h;
     Some (h_pos h', hole_drop h')
   }"

text \<open>
  The greater of the two children at \<open>child\<close> and \<open>child + 1\<close>, and the loop of \<open>sift_down_range\<close>. Its
  flag says that the loop returned early because the element is in order.
\<close>

definition bigger_child :: "'a comparison \<Rightarrow> 'a hole \<Rightarrow> nat \<Rightarrow> nat option" where
  "bigger_child cmp h child = do {
     a \<leftarrow> hole_get h child;
     b \<leftarrow> hole_get h (child + 1);
     c \<leftarrow> cmp a b;
     Some (child + (if c \<noteq> Greater then 1 else 0))
   }"

lemma bigger_child_cases:
  "bigger_child cmp h child = Some c \<Longrightarrow> c = child \<or> c = child + 1"
  by (auto simp: bigger_child_def bind_eq_Some_conv split: if_splits)

function sift_down_loop :: "'a comparison \<Rightarrow> nat \<Rightarrow> 'a hole \<Rightarrow> (bool \<times> 'a hole) option" where
  "sift_down_loop cmp fin h =
     (let child = 2 * h_pos h + 1 in
      if child \<le> fin - 2 then do {
        child' \<leftarrow> bigger_child cmp h child;
        x \<leftarrow> hole_get h child';
        c \<leftarrow> cmp (h_elt h) x;
        if c \<noteq> Less then Some (True, h)
        else do {
          h' \<leftarrow> hole_move_to h child';
          sift_down_loop cmp fin h'
        }
      } else Some (False, h))"
  by pat_completeness auto
termination
  by (relation "measure (\<lambda>(_, fin, h). fin - h_pos h)")
    (auto simp: hole_move_to_def dest!: bigger_child_cases split: if_splits)

definition sift_down_range :: "'a comparison \<Rightarrow> 'a list \<Rightarrow> nat \<Rightarrow> nat \<Rightarrow> (nat \<times> 'a list) option" where
  "sift_down_range cmp data pos fin = do {
     h \<leftarrow> hole_new data pos;
     (returned, h') \<leftarrow> sift_down_loop cmp fin h;
     if returned then Some (h_pos h', hole_drop h')
     else do {
       let child = 2 * h_pos h' + 1;
       h'' \<leftarrow> (if child = fin - 1 then do {
                x \<leftarrow> hole_get h' child;
                c \<leftarrow> cmp (h_elt h') x;
                if c = Less then hole_move_to h' child else Some h'
              } else Some h');
       Some (h_pos h'', hole_drop h'')
     }
   }"

definition sift_down :: "'a comparison \<Rightarrow> 'a list \<Rightarrow> nat \<Rightarrow> (nat \<times> 'a list) option" where
  "sift_down cmp data pos = sift_down_range cmp data pos (length data)"

text \<open>\<open>sift_down_to_bottom\<close>: move the hole all the way down, then sift up to where it started.\<close>

function bottom_loop :: "'a comparison \<Rightarrow> nat \<Rightarrow> 'a hole \<Rightarrow> 'a hole option" where
  "bottom_loop cmp fin h =
     (let child = 2 * h_pos h + 1 in
      if child \<le> fin - 2 then do {
        child' \<leftarrow> bigger_child cmp h child;
        h' \<leftarrow> hole_move_to h child';
        bottom_loop cmp fin h'
      } else Some h)"
  by pat_completeness auto
termination
  by (relation "measure (\<lambda>(_, fin, h). fin - h_pos h)")
    (auto simp: hole_move_to_def dest!: bigger_child_cases split: if_splits)

definition sift_down_to_bottom :: "'a comparison \<Rightarrow> 'a list \<Rightarrow> nat \<Rightarrow> 'a list option" where
  "sift_down_to_bottom cmp data pos = do {
     h \<leftarrow> hole_new data pos;
     h' \<leftarrow> bottom_loop cmp (length data) h;
     h'' \<leftarrow> (let child = 2 * h_pos h' + 1 in
            if child = length data - 1 then hole_move_to h' child else Some h');
     r \<leftarrow> sift_up cmp (hole_drop h'') pos (h_pos h'');
     Some (snd r)
   }"

declare sift_up_loop.simps [simp del] sift_down_loop.simps [simp del] bottom_loop.simps [simp del]

section \<open>The operations\<close>

fun rebuild_loop :: "'a comparison \<Rightarrow> nat \<Rightarrow> 'a list \<Rightarrow> 'a list option" where
  "rebuild_loop cmp 0 data = Some data"
| "rebuild_loop cmp (Suc n) data = do {
     r \<leftarrow> sift_down cmp data n;
     rebuild_loop cmp n (snd r)
   }"

definition rebuild :: "'a comparison \<Rightarrow> 'a list \<Rightarrow> 'a list option" where
  "rebuild cmp data = rebuild_loop cmp (length data div 2) data"

definition heap_from_vec :: "'a comparison \<Rightarrow> 'a list \<Rightarrow> 'a list option" where
  "heap_from_vec cmp vec = rebuild cmp vec"

definition peek :: "'a list \<Rightarrow> 'a option" where
  "peek data = (case data of [] \<Rightarrow> None | x # _ \<Rightarrow> Some x)"

definition heap_push :: "'a comparison \<Rightarrow> 'a list \<Rightarrow> 'a \<Rightarrow> 'a list option" where
  "heap_push cmp data item = do {
     let old_len = length data;
     r \<leftarrow> sift_up cmp (data @ [item]) 0 old_len;
     Some (snd r)
   }"

definition heap_pop :: "'a comparison \<Rightarrow> 'a list \<Rightarrow> ('a option \<times> 'a list) option" where
  "heap_pop cmp data =
     (if data = [] then Some (None, [])
      else let item = last data; rest = butlast data in
        if rest \<noteq> [] then do {
          d \<leftarrow> sift_down_to_bottom cmp (rest[0 := item]) 0;
          Some (Some (rest ! 0), d)
        } else Some (Some item, rest))"

definition update_pos_sift_down :: "'a comparison \<Rightarrow> 'a list \<Rightarrow> nat \<Rightarrow> 'a \<Rightarrow> 'a list option" where
  "update_pos_sift_down cmp data pos item =
     (if pos < length data then do {
        r \<leftarrow> sift_down cmp (data[pos := item]) pos;
        Some (snd r)
      } else None)"

definition heap_remove :: "'a comparison \<Rightarrow> 'a list \<Rightarrow> nat \<Rightarrow> 'a list option" where
  "heap_remove cmp data index =
     (if data = [] then None
      else let lst = last data; rest = butlast data in
        if index = length rest then Some rest
        else if index < length rest then sift_down_to_bottom cmp (rest[index := lst]) index
        else None)"

text \<open>
  \<open>peek_all\<close> visits the maximal elements breadth first. The calls of the closure are returned in their
  order. The size of a subtree bounds the work: every step replaces an index by its children.
\<close>

function subtree_size :: "nat \<Rightarrow> nat \<Rightarrow> nat" where
  "subtree_size len i =
     (if i < len then 1 + subtree_size len (2 * i + 1) + subtree_size len (2 * i + 2) else 0)"
  by pat_completeness auto
termination
  by (relation "measure (\<lambda>(len, i). len - i)") auto

declare subtree_size.simps [simp del]

definition children_below :: "nat \<Rightarrow> nat \<Rightarrow> nat list" where
  "children_below len index =
     (let left = index * 2 + 1; right = left + 1
      in (if left < len then [left] else []) @ (if right < len then [right] else []))"

lemma children_below_size:
  "index < len \<Longrightarrow> sum_list (map (subtree_size len) (children_below len index)) < subtree_size len index"
  using subtree_size.simps [of len index]
  by (simp add: children_below_def Let_def mult.commute)

function peek_all_loop :: "'a comparison \<Rightarrow> 'a \<Rightarrow> 'a list \<Rightarrow> nat list \<Rightarrow> (nat \<times> 'a) list option" where
  "peek_all_loop cmp mx data [] = Some []"
| "peek_all_loop cmp mx data (index # queue) =
     (if index < length data then do {
        c \<leftarrow> cmp (data ! index) mx;
        if c \<noteq> Equal then peek_all_loop cmp mx data queue
        else do {
          calls \<leftarrow> peek_all_loop cmp mx data (queue @ children_below (length data) index);
          Some ((index, data ! index) # calls)
        }
      } else None)"
  by pat_completeness auto
termination
proof (relation "measure (\<lambda>(_, _, data, queue). sum_list (map (subtree_size (length data)) queue))", goal_cases)
  case (2 cmp mx data index queue c)
  then show ?case by (simp add: subtree_size.simps [of "length data" index])
next
  case (3 cmp mx data index queue c)
  then show ?case using children_below_size [of index "length data"] by simp
qed simp

definition peek_all :: "'a comparison \<Rightarrow> 'a list \<Rightarrow> (nat \<times> 'a) list option" where
  "peek_all cmp data =
     (case peek data of
        None \<Rightarrow> Some []
      | Some mx \<Rightarrow> do {
          let len = length data;
          calls \<leftarrow> peek_all_loop cmp mx data
                     ((if len > 1 then [1] else []) @ (if len > 2 then [2] else []));
          Some ((0, mx) # calls)
        })"

text \<open>\<open>into_sorted_vec\<close>: swap the maximum behind the remaining heap and sift the new root down.\<close>

fun into_sorted_loop :: "'a comparison \<Rightarrow> nat \<Rightarrow> 'a list \<Rightarrow> 'a list option" where
  "into_sorted_loop cmp fin data =
     (if fin > 1 then do {
        let fin' = fin - 1;
        let data' = data[0 := data ! fin', fin' := data ! 0];
        r \<leftarrow> sift_down_range cmp data' 0 fin';
        into_sorted_loop cmp fin' (snd r)
      } else Some data)"

declare into_sorted_loop.simps [simp del]

definition into_sorted_vec :: "'a comparison \<Rightarrow> 'a list \<Rightarrow> 'a list option" where
  "into_sorted_vec cmp data = into_sorted_loop cmp (length data) data"

text \<open>
  \<open>rebuild_tail\<close>: make a heap of a vector whose first \<open>start\<close> elements are one. \<open>log2_fast\<close> is the index of
  the highest bit; it is called on positive numbers only.
\<close>

fun log2_fast :: "nat \<Rightarrow> nat" where
  "log2_fast x = (if x < 2 then 0 else Suc (log2_fast (x div 2)))"

declare log2_fast.simps [simp del]

fun sift_up_each :: "'a comparison \<Rightarrow> nat list \<Rightarrow> 'a list \<Rightarrow> 'a list option" where
  "sift_up_each cmp [] data = Some data"
| "sift_up_each cmp (i # is) data = do {
     r \<leftarrow> sift_up cmp data 0 i;
     sift_up_each cmp is (snd r)
   }"

definition better_to_rebuild :: "nat \<Rightarrow> nat \<Rightarrow> bool" where
  "better_to_rebuild len start =
     (let tail_len = len - start
      in if start < tail_len then True
         else if len \<le> 2048 then 2 * len < tail_len * log2_fast start
         else 2 * len < tail_len * 11)"

definition rebuild_tail :: "'a comparison \<Rightarrow> 'a list \<Rightarrow> nat \<Rightarrow> 'a list option" where
  "rebuild_tail cmp data start =
     (if start = length data then Some data
      else if better_to_rebuild (length data) start then rebuild cmp data
      else sift_up_each cmp [start..<length data] data)"

definition heap_append :: "'a comparison \<Rightarrow> 'a list \<Rightarrow> 'a list \<Rightarrow> 'a list option" where
  "heap_append cmp data other =
     (let (a, b) = (if length data < length other then (other, data) else (data, other));
          start = length a
      in rebuild_tail cmp (a @ b) start)"

definition heap_retain :: "'a comparison \<Rightarrow> ('a \<Rightarrow> bool) \<Rightarrow> 'a list \<Rightarrow> 'a list option" where
  "heap_retain cmp f data =
     (let rebuild_from = unwrap_or (position (\<lambda>e. \<not> f e) data) (length data)
      in rebuild_tail cmp (filter f data) rebuild_from)"

text \<open>
  \<open>DrainSorted\<close> and \<open>IntoIterSorted\<close> pop until the heap is empty. A pop makes the vector shorter,
  whatever the comparison.
\<close>

lemma hole_move_to_length: "hole_move_to h i = Some h' \<Longrightarrow> length (h_data h') = length (h_data h)"
  by (auto simp: hole_move_to_def split: if_splits)

lemma sift_up_loop_length:
  "sift_up_loop cmp start h = Some h' \<Longrightarrow> length (h_data h') = length (h_data h)"
proof (induction cmp start h arbitrary: h' rule: sift_up_loop.induct)
  case (1 cmp start h)
  from "1.prems" show ?case
    by (subst (asm) sift_up_loop.simps)
      (auto simp: bind_eq_Some_conv Let_def hole_move_to_length dest!: "1.IH" [OF _ refl] split: if_splits)
qed

lemma bottom_loop_length:
  "bottom_loop cmp fin h = Some h' \<Longrightarrow> length (h_data h') = length (h_data h)"
proof (induction cmp fin h arbitrary: h' rule: bottom_loop.induct)
  case (1 cmp fin h)
  from "1.prems" show ?case
    by (subst (asm) bottom_loop.simps)
      (auto simp: bind_eq_Some_conv Let_def hole_move_to_length dest!: "1.IH" [OF refl, simplified] split: if_splits)
qed

lemma sift_down_to_bottom_length:
  "sift_down_to_bottom cmp data pos = Some d \<Longrightarrow> length d = length data"
  by (auto simp: sift_down_to_bottom_def sift_up_def hole_new_def hole_drop_def bind_eq_Some_conv Let_def
      dest!: bottom_loop_length sift_up_loop_length hole_move_to_length split: if_splits)

lemma heap_pop_length: "heap_pop cmp data = Some (Some x, d) \<Longrightarrow> length d < length data"
  by (auto simp: heap_pop_def bind_eq_Some_conv Let_def dest!: sift_down_to_bottom_length split: if_splits)

function drain_sorted :: "'a comparison \<Rightarrow> 'a list \<Rightarrow> 'a list option" where
  "drain_sorted cmp data = do {
     r \<leftarrow> heap_pop cmp data;
     (case fst r of
        None \<Rightarrow> Some []
      | Some x \<Rightarrow> do { xs \<leftarrow> drain_sorted cmp (snd r); Some (x # xs) })
   }"
  by pat_completeness auto
termination
  by (relation "measure (\<lambda>(_, data). length data)") (auto intro: heap_pop_length)

declare drain_sorted.simps [simp del]

text \<open>
  \<open>PeekMut\<close>: a guard on the greatest element. Its first mutable access hides the other elements by setting
  the length of the vector to one, so that a leaked guard leaves a valid heap; dropping the guard,
  \<open>refresh\<close> and \<open>PeekMut::pop\<close> restore the length. \<open>pm_buf\<close> is the whole buffer of the vector.
\<close>

record 'a peek_mut =
  pm_buf :: "'a list"
  pm_len :: nat
  pm_original_len :: "nat option"

definition heap_peek_mut :: "'a list \<Rightarrow> 'a peek_mut option" where
  "heap_peek_mut data =
     (if data = [] then None else Some \<lparr>pm_buf = data, pm_len = length data, pm_original_len = None\<rparr>)"

definition pm_deref_mut :: "('a \<Rightarrow> 'a) \<Rightarrow> 'a peek_mut \<Rightarrow> 'a peek_mut" where
  "pm_deref_mut f pm =
     (let len = pm_len pm;
          pm' = (if len > 1 then pm\<lparr>pm_original_len := Some len, pm_len := 1\<rparr> else pm)
      in pm'\<lparr>pm_buf := (pm_buf pm')[0 := f (pm_buf pm' ! 0)]\<rparr>)"

definition pm_refresh :: "'a comparison \<Rightarrow> 'a peek_mut \<Rightarrow> (bool \<times> 'a peek_mut) option" where
  "pm_refresh cmp pm =
     (case pm_original_len pm of
        Some n \<Rightarrow> do {
          r \<leftarrow> sift_down cmp (take n (pm_buf pm)) 0;
          Some (fst r \<noteq> 0, \<lparr>pm_buf = snd r, pm_len = n, pm_original_len = None\<rparr>)
        }
      | None \<Rightarrow> Some (False, pm))"

definition pm_drop :: "'a comparison \<Rightarrow> 'a peek_mut \<Rightarrow> 'a list option" where
  "pm_drop cmp pm =
     (case pm_original_len pm of
        Some n \<Rightarrow> do {
          r \<leftarrow> sift_down cmp (take n (pm_buf pm)) 0;
          Some (snd r)
        }
      | None \<Rightarrow> Some (take (pm_len pm) (pm_buf pm)))"

definition pm_pop :: "'a comparison \<Rightarrow> 'a peek_mut \<Rightarrow> ('a option \<times> 'a list) option" where
  "pm_pop cmp pm =
     (let n = (case pm_original_len pm of Some n \<Rightarrow> n | None \<Rightarrow> pm_len pm)
      in heap_pop cmp (take n (pm_buf pm)))"

section \<open>Heap order\<close>

text \<open>
  \<open>par i\<close> is the index of the parent. \<open>heap_edges key E D n xs\<close>: among the first \<open>n\<close> elements no element is
  greater than its parent, except for elements at an index of \<open>E\<close> and children of an index of \<open>D\<close>.
\<close>

definition par :: "nat \<Rightarrow> nat" where
  "par i = (i - 1) div 2"

definition heap_edges :: "('a \<Rightarrow> 'k::linorder) \<Rightarrow> nat set \<Rightarrow> nat set \<Rightarrow> nat \<Rightarrow> 'a list \<Rightarrow> bool" where
  "heap_edges key E D n xs \<longleftrightarrow>
     (\<forall>i. 0 < i \<and> i < n \<and> i \<notin> E \<and> par i \<notin> D \<longrightarrow> key (xs ! i) \<le> key (xs ! par i))"

abbreviation is_heap :: "('a \<Rightarrow> 'k::linorder) \<Rightarrow> 'a list \<Rightarrow> bool" where
  "is_heap key xs \<equiv> heap_edges key {} {} (length xs) xs"

text \<open>The children of \<open>pos\<close> are in order with the parent of \<open>pos\<close>.\<close>

definition gap_ok :: "('a \<Rightarrow> 'k::linorder) \<Rightarrow> nat set \<Rightarrow> nat \<Rightarrow> 'a list \<Rightarrow> nat \<Rightarrow> bool" where
  "gap_ok key D n xs pos \<longleftrightarrow>
     (0 < pos \<and> par pos \<notin> D \<longrightarrow>
       (\<forall>c. 0 < c \<and> c < n \<and> par c = pos \<longrightarrow> key (xs ! c) \<le> key (xs ! par pos)))"

definition heap_swap :: "'a list \<Rightarrow> nat \<Rightarrow> nat \<Rightarrow> 'a list" where
  "heap_swap xs i j = xs[i := xs ! j, j := xs ! i]"

text \<open>\<open>ys\<close> has the elements of \<open>xs\<close>, and differs from it only at indices from \<open>s\<close> to \<open>n\<close>.\<close>

definition permutes :: "nat \<Rightarrow> nat \<Rightarrow> 'a list \<Rightarrow> 'a list \<Rightarrow> bool" where
  "permutes s n xs ys \<longleftrightarrow>
     length ys = length xs \<and> mset ys = mset xs \<and> (\<forall>i < length xs. i < s \<or> n \<le> i \<longrightarrow> ys ! i = xs ! i)"

lemma par_less: "0 < i \<Longrightarrow> par i < i"
  by (simp add: par_def)

lemma par_child [simp]: "par (Suc (2 * p)) = p" "par (Suc (Suc (2 * p))) = p" "par (2 * p + 1) = p" "par (2 * p + 2) = p"
  by (simp_all add: par_def)

lemma par_eq_iff: "0 < i \<Longrightarrow> par i = p \<longleftrightarrow> i = 2 * p + 1 \<or> i = 2 * p + 2"
  by (auto simp: par_def)

lemma par_inj_parent: "0 < p \<Longrightarrow> par p \<noteq> p"
  using par_less [of p] by linarith

lemma heap_swap_simps [simp]:
  "length (heap_swap xs i j) = length xs"
  "i < length xs \<Longrightarrow> j < length xs \<Longrightarrow> heap_swap xs i j ! i = xs ! j"
  "j < length xs \<Longrightarrow> heap_swap xs i j ! j = xs ! i"
  "k \<noteq> i \<Longrightarrow> k \<noteq> j \<Longrightarrow> heap_swap xs i j ! k = xs ! k"
  by (auto simp: heap_swap_def nth_list_update)

lemma permutes_refl [simp]: "permutes s n xs xs"
  by (simp add: permutes_def)

lemma permutes_trans: "permutes s n xs ys \<Longrightarrow> permutes s n ys zs \<Longrightarrow> permutes s n xs zs"
  by (simp add: permutes_def)

lemma permutes_mono: "permutes s n xs ys \<Longrightarrow> s' \<le> s \<Longrightarrow> n \<le> n' \<Longrightarrow> permutes s' n' xs ys"
  by (auto simp: permutes_def)

lemma permutes_length: "permutes s n xs ys \<Longrightarrow> length ys = length xs"
  by (simp add: permutes_def)

lemma permutes_nth: "permutes s n xs ys \<Longrightarrow> i < length xs \<Longrightarrow> i < s \<or> n \<le> i \<Longrightarrow> ys ! i = xs ! i"
  by (auto simp: permutes_def)

lemma permutes_swap:
  "s \<le> i \<Longrightarrow> s \<le> j \<Longrightarrow> i < n \<Longrightarrow> j < n \<Longrightarrow> n \<le> length xs \<Longrightarrow> permutes s n xs (heap_swap xs i j)"
  by (auto simp: permutes_def heap_swap_def mset_swap nth_list_update)

lemma permutes_drop:
  assumes "permutes s n xs ys" shows "mset (drop s ys) = mset (drop s xs)"
proof -
  have "take s ys = take s xs"
    using assms by (intro nth_equalityI) (auto simp: permutes_def)
  moreover have "mset (take s ys) + mset (drop s ys) = mset (take s xs) + mset (drop s xs)"
    using assms by (metis append_take_drop_id mset_append permutes_def)
  ultimately show ?thesis by simp
qed

lemma permutes_take:
  assumes "permutes s n xs ys" shows "mset (take n ys) = mset (take n xs)"
proof -
  have "drop n ys = drop n xs"
    using assms by (intro nth_equalityI) (auto simp: permutes_def)
  moreover have "mset (take n ys) + mset (drop n ys) = mset (take n xs) + mset (drop n xs)"
    using assms by (metis append_take_drop_id mset_append permutes_def)
  ultimately show ?thesis by simp
qed

lemma permutes_all:
  assumes "permutes s n xs ys" and "\<forall>x \<in> set (drop s xs). P x" shows "\<forall>x \<in> set (drop s ys). P x"
  using assms(2) permutes_drop [OF assms(1)] by (metis set_mset_mset)

lemma all_drop_nth: "\<forall>x \<in> set (drop s xs). P x \<Longrightarrow> s \<le> i \<Longrightarrow> i < length xs \<Longrightarrow> P (xs ! i)"
  using nth_mem [of "i - s" "drop s xs"] by simp

lemma heap_edgesD:
  "heap_edges key E D n xs \<Longrightarrow> 0 < i \<Longrightarrow> i < n \<Longrightarrow> i \<notin> E \<Longrightarrow> par i \<notin> D \<Longrightarrow> key (xs ! i) \<le> key (xs ! par i)"
  by (simp add: heap_edges_def)

lemma gap_okD:
  "gap_ok key D n xs (par c) \<Longrightarrow> 0 < par c \<Longrightarrow> par (par c) \<notin> D \<Longrightarrow> 0 < c \<Longrightarrow> c < n \<Longrightarrow>
    key (xs ! c) \<le> key (xs ! par (par c))"
  by (simp add: gap_ok_def)

text \<open>Swapping an element with its greatest child, and with its parent.\<close>

lemma swap_down:
  assumes h: "heap_edges key {pos} (insert pos D) n ys" and g: "gap_ok key D n ys pos"
    and c: "0 < c" "c < n" "par c = pos" and n: "n \<le> length ys"
    and greatest: "\<And>c'. 0 < c' \<Longrightarrow> c' < n \<Longrightarrow> par c' = pos \<Longrightarrow> key (ys ! c') \<le> key (ys ! c)"
    and D: "\<forall>d \<in> D. d < pos"
  shows "heap_edges key {c} (insert c D) n (heap_swap ys pos c)" and "gap_ok key D n (heap_swap ys pos c) c"
proof -
  have pc: "pos < c" using c par_less by blast
  then have len: "pos < length ys" "c < length ys" using c n by auto
  let ?zs = "heap_swap ys pos c"
  have z: "?zs ! pos = ys ! c" "?zs ! c = ys ! pos" "\<And>k. k \<noteq> pos \<Longrightarrow> k \<noteq> c \<Longrightarrow> ?zs ! k = ys ! k"
    using len by auto
  show "heap_edges key {c} (insert c D) n ?zs"
    unfolding heap_edges_def
  proof (intro allI impI)
    fix i assume i: "0 < i \<and> i < n \<and> i \<notin> {c} \<and> par i \<notin> insert c D"
    consider (pos) "i = pos" | (sib) "i \<noteq> pos" "par i = pos" | (other) "i \<noteq> pos" "par i \<noteq> pos" by blast
    then show "key (?zs ! i) \<le> key (?zs ! par i)"
    proof cases
      case pos
      then have "key (ys ! c) \<le> key (ys ! par pos)"
        using gap_okD [of key D n ys c] g c i by simp
      moreover have "par pos \<noteq> pos" "par pos \<noteq> c" using pos i par_less [of pos] pc by auto
      ultimately show ?thesis using pos z by simp
    next
      case sib
      then show ?thesis using z i greatest [of i] by simp
    next
      case other
      then show ?thesis using z i heap_edgesD [OF h, of i] by auto
    qed
  qed
  show "gap_ok key D n ?zs c"
    unfolding gap_ok_def
  proof (intro impI allI)
    fix e assume e: "0 < e \<and> e < n \<and> par e = c"
    then have "key (ys ! e) \<le> key (ys ! c)"
      using heap_edgesD [OF h, of e] pc par_less [of e] D c by fastforce
    then show "key (?zs ! e) \<le> key (?zs ! par c)"
      using e z c pc par_less [of e] by auto
  qed
qed

lemma swap_up:
  assumes h: "heap_edges key {pos} D n ys" and g: "gap_ok key D n ys pos"
    and p: "0 < pos" "pos < n" "par pos \<notin> D" "pos \<notin> D" and n: "n \<le> length ys"
    and gt: "key (ys ! par pos) \<le> key (ys ! pos)"
  shows "heap_edges key {par pos} D n (heap_swap ys pos (par pos))"
    and "gap_ok key D n (heap_swap ys pos (par pos)) (par pos)"
proof -
  let ?q = "par pos" and ?zs = "heap_swap ys pos (par pos)"
  have q: "?q < pos" using p by (simp add: par_less)
  have z: "?zs ! pos = ys ! ?q" "?zs ! ?q = ys ! pos" "\<And>k. k \<noteq> pos \<Longrightarrow> k \<noteq> ?q \<Longrightarrow> ?zs ! k = ys ! k"
    using p n q by auto
  show "heap_edges key {?q} D n ?zs"
    unfolding heap_edges_def
  proof (intro allI impI)
    fix i assume i: "0 < i \<and> i < n \<and> i \<notin> {?q} \<and> par i \<notin> D"
    consider (pos) "i = pos" | (sib) "i \<noteq> pos" "par i = ?q" | (child) "par i = pos"
      | (other) "i \<noteq> pos" "par i \<noteq> ?q" "par i \<noteq> pos" by blast
    then show "key (?zs ! i) \<le> key (?zs ! par i)"
    proof cases
      case pos
      then show ?thesis using z gt by simp
    next
      case sib
      then have "key (ys ! i) \<le> key (ys ! ?q)" using heap_edgesD [OF h, of i] i by simp
      then show ?thesis using sib z gt i by simp
    next
      case child
      then have "key (ys ! i) \<le> key (ys ! ?q)" using gap_okD [of key D n ys i] g i p by simp
      moreover have "i \<noteq> pos" using child i par_less [of i] by auto
      ultimately show ?thesis using child z i by simp
    next
      case other
      then show ?thesis using z i heap_edgesD [OF h, of i] by simp
    qed
  qed
  show "gap_ok key D n ?zs ?q"
    unfolding gap_ok_def
  proof (intro impI allI)
    fix c assume q': "0 < ?q \<and> par ?q \<notin> D" and c: "0 < c \<and> c < n \<and> par c = ?q"
    have up: "key (ys ! ?q) \<le> key (ys ! par ?q)" using heap_edgesD [OF h, of ?q] q q' p by simp
    have r: "?zs ! par ?q = ys ! par ?q" using q' q par_less [of ?q] by (intro z(3)) auto
    show "key (?zs ! c) \<le> key (?zs ! par ?q)"
    proof (cases "c = pos")
      case False
      then have "key (ys ! c) \<le> key (ys ! ?q)" using heap_edgesD [OF h, of c] c p by simp
      then show ?thesis using False c z up r par_less [of c] by auto
    qed (use z up r in simp)
  qed
qed

section \<open>The loops restore the order\<close>

definition hole_at :: "'a hole \<Rightarrow> 'a list \<Rightarrow> nat \<Rightarrow> bool" where
  "hole_at h ys pos \<longleftrightarrow>
     h_pos h = pos \<and> pos < length ys \<and> length (h_data h) = length ys \<and> hole_drop h = ys"

lemma hole_at_simps:
  assumes "hole_at h ys pos"
  shows "h_pos h = pos" "pos < length ys" "hole_drop h = ys" "h_elt h = ys ! pos"
    "i \<noteq> pos \<Longrightarrow> i < length ys \<Longrightarrow> hole_get h i = Some (ys ! i)"
proof -
  show p: "h_pos h = pos" "pos < length ys" "hole_drop h = ys" using assms by (simp_all add: hole_at_def)
  have l: "length (h_data h) = length ys" using assms by (simp add: hole_at_def)
  have ys: "ys = (h_data h)[pos := h_elt h]" using p(1,3) by (simp add: hole_drop_def)
  show "h_elt h = ys ! pos" using p(2) l by (subst ys) simp
  show "i \<noteq> pos \<Longrightarrow> i < length ys \<Longrightarrow> hole_get h i = Some (ys ! i)"
    using p(1) l by (subst ys) (simp add: hole_get_def)
qed

lemma hole_at_move:
  assumes "hole_at h ys pos" and "i \<noteq> pos" and "i < length ys"
  obtains h' where "hole_move_to h i = Some h'" and "hole_at h' (heap_swap ys pos i) i"
proof (rule that)
  let ?h = "h\<lparr>h_data := (h_data h)[h_pos h := h_data h ! i], h_pos := i\<rparr>"
  show "hole_move_to h i = Some ?h" using assms by (simp add: hole_move_to_def hole_at_def)
  have l: "length (h_data h) = length ys" and p: "h_pos h = pos" using assms by (simp_all add: hole_at_def)
  have ys: "ys = (h_data h)[pos := h_elt h]" using assms(1) p by (auto simp: hole_at_def hole_drop_def)
  have "hole_drop ?h = heap_swap ys pos i"
    using assms(2,3) l hole_at_simps(2) [OF assms(1)] p by (subst ys) (simp add: hole_drop_def heap_swap_def)
  then show "hole_at ?h (heap_swap ys pos i) i" using assms(3) l by (simp add: hole_at_def)
qed

lemma hole_at_new:
  assumes "pos < length data"
  obtains h where "hole_new data pos = Some h" and "hole_at h data pos"
  using assms by (auto simp: hole_new_def hole_at_def hole_drop_def)

lemma heap_edges_fill:
  assumes "heap_edges key {p} D n xs" and "0 < p \<Longrightarrow> par p \<notin> D \<Longrightarrow> key (xs ! p) \<le> key (xs ! par p)"
  shows "heap_edges key {} D n xs"
  unfolding heap_edges_def
proof (intro allI impI)
  fix i assume i: "0 < i \<and> i < n \<and> i \<notin> {} \<and> par i \<notin> D"
  show "key (xs ! i) \<le> key (xs ! par i)"
  proof (cases "i = p")
    case True
    then show ?thesis using assms(2) i by simp
  next
    case False
    then show ?thesis using heap_edgesD [OF assms(1), of i] i by simp
  qed
qed

lemma heap_edges_clean:
  assumes "heap_edges key E (insert p D) n xs"
    and "\<And>c. 0 < c \<Longrightarrow> c < n \<Longrightarrow> par c = p \<Longrightarrow> key (xs ! c) \<le> key (xs ! p)"
  shows "heap_edges key E D n xs"
  unfolding heap_edges_def
proof (intro allI impI)
  fix i assume i: "0 < i \<and> i < n \<and> i \<notin> E \<and> par i \<notin> D"
  show "key (xs ! i) \<le> key (xs ! par i)"
  proof (cases "par i = p")
    case True
    then show ?thesis using assms(2) i by simp
  next
    case False
    then show ?thesis using heap_edgesD [OF assms(1), of i] i by simp
  qed
qed

text \<open>\<open>desc s i\<close>: the index \<open>i\<close> is in the subtree of the index \<open>s\<close>.\<close>

inductive desc :: "nat \<Rightarrow> nat \<Rightarrow> bool" where
  desc_refl: "desc s s"
| desc_step: "desc s (par i) \<Longrightarrow> 0 < i \<Longrightarrow> desc s i"

lemma desc_ge: "desc s i \<Longrightarrow> s \<le> i"
proof (induction rule: desc.induct)
  case (desc_step s i)
  then show ?case using par_less [of i] by linarith
qed simp

lemma desc_par: "desc s i \<Longrightarrow> i \<noteq> s \<Longrightarrow> desc s (par i)"
  by (auto elim: desc.cases)

lemma desc_root: "desc 0 i"
proof (induction i rule: less_induct)
  case (less i)
  show ?case
  proof (cases "i = 0")
    case False
    then have "desc 0 (par i)" using less [OF par_less] by simp
    with False show ?thesis by (simp add: desc_step)
  qed (simp add: desc_refl)
qed

locale heap_order =
  fixes cmp :: "'a comparison" and key :: "'a \<Rightarrow> 'k::linorder" and live :: "'a \<Rightarrow> bool"
  assumes cmp_live: "live a \<Longrightarrow> live b \<Longrightarrow> cmp a b = Some (ord_cmp (key a) (key b))"
begin

abbreviation live_from :: "nat \<Rightarrow> 'a list \<Rightarrow> bool" where
  "live_from s xs \<equiv> \<forall>x \<in> set (drop s xs). live x"

lemma cmp_nth:
  "live_from s ys \<Longrightarrow> s \<le> i \<Longrightarrow> i < length ys \<Longrightarrow> s \<le> j \<Longrightarrow> j < length ys \<Longrightarrow>
    cmp (ys ! i) (ys ! j) = Some (ord_cmp (key (ys ! i)) (key (ys ! j)))"
  by (rule cmp_live; rule all_drop_nth [where P = live and s = s])

lemma sift_up_loop_spec:
  assumes "hole_at h ys pos" and "desc s pos" and "\<forall>d \<in> D. d < s" and "live_from s ys"
    and "heap_edges key {pos} D n ys" and "gap_ok key D n ys pos" and "pos < n" and "n \<le> length ys"
    and "0 < s \<and> par s \<notin> D \<longrightarrow> key (ys ! pos) \<le> key (ys ! par s)"
  shows "\<exists>h' zs p. sift_up_loop cmp s h = Some h' \<and> hole_at h' zs p \<and> permutes s n ys zs \<and>
    heap_edges key {} D n zs"
  using assms
proof (induction pos arbitrary: h ys rule: less_induct)
  case (less pos)
  note hole = hole_at_simps [OF less.prems(1)]
  show ?case
  proof (cases "pos > s")
    case False
    then have "pos = s" using desc_ge [OF less.prems(2)] by simp
    then have "heap_edges key {} D n ys"
      by (intro heap_edges_fill [OF less.prems(5)]) (use less.prems(9) in simp)
    moreover have "sift_up_loop cmp s h = Some h"
      using False hole(1) by (subst sift_up_loop.simps) simp
    ultimately show ?thesis using less.prems(1) permutes_refl by blast
  next
    case up: True
    have q: "desc s (par pos)" "s \<le> par pos" "par pos < pos"
      using desc_par [OF less.prems(2)] desc_ge up by (auto intro: par_less)
    have pd: "par pos \<notin> D" "pos \<notin> D" using less.prems(3) q by auto
    have get: "hole_get h ((pos - 1) div 2) = Some (ys ! par pos)"
      using hole(5) [of "par pos"] q hole(2) by (simp add: par_def)
    have c: "cmp (ys ! pos) (ys ! par pos) = Some (ord_cmp (key (ys ! pos)) (key (ys ! par pos)))"
      using q up hole(2) by (intro cmp_nth [OF less.prems(4)]) auto
    show ?thesis
    proof (cases "ord_cmp (key (ys ! pos)) (key (ys ! par pos)) = Greater")
      case False
      then have "key (ys ! pos) \<le> key (ys ! par pos)" by (simp add: ord_cmp_iff)
      then have "heap_edges key {} D n ys" by (intro heap_edges_fill [OF less.prems(5)])
      moreover have "sift_up_loop cmp s h = Some h"
        using False up get c hole(1,4) by (subst sift_up_loop.simps) simp
      ultimately show ?thesis using less.prems(1) permutes_refl by blast
    next
      case True
      obtain h' where h': "hole_move_to h (par pos) = Some h'" "hole_at h' (heap_swap ys pos (par pos)) (par pos)"
        using hole_at_move [OF less.prems(1), of "par pos"] q hole(2) by auto
      have step: "sift_up_loop cmp s h = sift_up_loop cmp s h'"
        using True up get c hole(1,4) h'(1) by (subst sift_up_loop.simps) (simp add: par_def)
      have gt: "key (ys ! par pos) \<le> key (ys ! pos)" using True by (simp add: ord_cmp_iff)
      have pm: "permutes s n ys (heap_swap ys pos (par pos))"
        using less.prems(7,8) q up by (intro permutes_swap) auto
      have e: "0 < s \<and> par s \<notin> D \<longrightarrow> key (heap_swap ys pos (par pos) ! par pos) \<le> key (heap_swap ys pos (par pos) ! par s)"
        using less.prems(9) hole(2) q up par_less [of s] by auto
      have pos0: "0 < pos" using up by simp
      note sw = swap_up [OF less.prems(5,6) pos0 less.prems(7) pd less.prems(8) gt]
      have bounds: "par pos < n" "n \<le> length (heap_swap ys pos (par pos))" using q less.prems(7,8) by auto
      have lv: "live_from s (heap_swap ys pos (par pos))"
        by (rule permutes_all [where P = live, OF pm less.prems(4)])
      obtain h'' zs p where r: "sift_up_loop cmp s h' = Some h''" "hole_at h'' zs p"
        "permutes s n (heap_swap ys pos (par pos)) zs" "heap_edges key {} D n zs"
        using less.IH [OF q(3) h'(2) q(1) less.prems(3) lv sw bounds e] by blast
      show ?thesis using step r permutes_trans [OF pm r(3)] by auto
    qed
  qed
qed

lemma heap_child_spec:
  assumes h: "hole_at h ys pos" and len: "2 * pos + 2 < length ys" and lv: "live_from s ys" and s: "s \<le> pos"
  obtains c where "bigger_child cmp h (2 * pos + 1) = Some c" and "0 < c" and "par c = pos" and "c \<le> 2 * pos + 2"
    and "\<And>c'. 0 < c' \<Longrightarrow> par c' = pos \<Longrightarrow> key (ys ! c') \<le> key (ys ! c)"
proof -
  let ?a = "2 * pos + 1" and ?b = "2 * pos + 2"
  have get: "hole_get h ?a = Some (ys ! ?a)" "hole_get h (?a + 1) = Some (ys ! ?b)"
    using hole_at_simps(5) [OF h, of ?a] hole_at_simps(5) [OF h, of ?b] len by simp_all
  have c: "cmp (ys ! ?a) (ys ! ?b) = Some (ord_cmp (key (ys ! ?a)) (key (ys ! ?b)))"
    using len s by (intro cmp_nth [OF lv]) auto
  let ?c = "if ord_cmp (key (ys ! ?a)) (key (ys ! ?b)) \<noteq> Greater then ?b else ?a"
  show ?thesis
  proof (rule that [of ?c])
    show "bigger_child cmp h ?a = Some ?c"
      using get c by (simp add: bigger_child_def)
    fix c' assume "0 < c'" "par c' = pos"
    then have "c' = ?a \<or> c' = ?b" by (simp add: par_eq_iff)
    then show "key (ys ! c') \<le> key (ys ! ?c)" by (auto simp: ord_cmp_iff)
  qed auto
qed

text \<open>
  The step both downward loops share: the hole moves to the greater child \<open>c\<close>, whose element takes its
  place.
\<close>

lemma move_down:
  assumes h: "hole_at h ys pos" and D: "\<forall>d \<in> D. d < s" and s: "s \<le> pos" and lv: "live_from s ys"
    and e: "heap_edges key {pos} (insert pos D) n ys" and g: "gap_ok key D n ys pos" and n: "n \<le> length ys"
    and c: "0 < c" "c < n" "par c = pos"
    and greatest: "\<And>c'. 0 < c' \<Longrightarrow> c' < n \<Longrightarrow> par c' = pos \<Longrightarrow> key (ys ! c') \<le> key (ys ! c)"
  obtains h' where "hole_move_to h c = Some h'" and "hole_at h' (heap_swap ys pos c) c"
    and "permutes s n ys (heap_swap ys pos c)" and "live_from s (heap_swap ys pos c)"
    and "heap_edges key {c} (insert c D) n (heap_swap ys pos c)" and "gap_ok key D n (heap_swap ys pos c) c"
    and "pos < c"
proof -
  have pc: "pos < c" using c par_less by blast
  obtain h' where h': "hole_move_to h c = Some h'" "hole_at h' (heap_swap ys pos c) c"
    using hole_at_move [OF h, of c] pc c n by auto
  have pm: "permutes s n ys (heap_swap ys pos c)" using s pc c n by (intro permutes_swap) auto
  have D': "\<forall>d \<in> D. d < pos" using D s by auto
  show ?thesis
    using swap_down [OF e g c n greatest D'] permutes_all [where P = live, OF pm lv] h' pm pc
    by (intro that)
qed

lemma sift_down_loop_spec:
  assumes "hole_at h ys pos" and "\<forall>d \<in> D. d < s" and "s \<le> pos" and "live_from s ys"
    and "heap_edges key {} (insert pos D) n ys" and "gap_ok key D n ys pos" and "pos < n" and "n \<le> length ys"
  shows "\<exists>ret h' zs p. sift_down_loop cmp n h = Some (ret, h') \<and> hole_at h' zs p \<and> permutes s n ys zs \<and>
    s \<le> p \<and> p < n \<and>
    (if ret then heap_edges key {} D n zs
     else n - 2 < 2 * p + 1 \<and> heap_edges key {} (insert p D) n zs \<and> gap_ok key D n zs p)"
  using assms
proof (induction "n - pos" arbitrary: h ys pos rule: less_induct)
  case less
  note hole = hole_at_simps [OF less.prems(1)]
  show ?case
  proof (cases "2 * pos + 1 \<le> n - 2")
    case False
    then have "sift_down_loop cmp n h = Some (False, h)"
      using hole(1) by (subst sift_down_loop.simps) simp
    then show ?thesis using False less.prems by (intro exI [of _ False] exI [of _ h] exI [of _ ys] exI [of _ pos]) simp
  next
    case True
    then have len: "2 * pos + 2 < n" "2 * pos + 2 < length ys" using less.prems(8) by auto
    obtain c where c: "bigger_child cmp h (2 * pos + 1) = Some c" "0 < c" "par c = pos" "c \<le> 2 * pos + 2"
      "\<And>c'. 0 < c' \<Longrightarrow> par c' = pos \<Longrightarrow> key (ys ! c') \<le> key (ys ! c)"
      using heap_child_spec [OF less.prems(1) len(2) less.prems(4,3)] by blast
    have cn: "c < n" "c \<noteq> pos" "pos < c" using c(2-4) len(1) par_less [of c] by auto
    have get: "hole_get h c = Some (ys ! c)" using hole(5) [of c] cn less.prems(8) by simp
    have cm: "cmp (ys ! pos) (ys ! c) = Some (ord_cmp (key (ys ! pos)) (key (ys ! c)))"
      using cn less.prems(3,8) hole(2) by (intro cmp_nth [OF less.prems(4)]) auto
    show ?thesis
    proof (cases "ord_cmp (key (ys ! pos)) (key (ys ! c)) = Less")
      case False
      then have ord: "key (ys ! c) \<le> key (ys ! pos)" by (simp add: ord_cmp_iff)
      have "heap_edges key {} D n ys"
        by (rule heap_edges_clean [OF less.prems(5)]) (use ord c(5) order_trans in blast)
      moreover have "sift_down_loop cmp n h = Some (True, h)"
        using True False c(1) get cm hole(1,4) by (subst sift_down_loop.simps) simp
      ultimately show ?thesis using less.prems
        by (intro exI [of _ True] exI [of _ h] exI [of _ ys] exI [of _ pos]) simp
    next
      case lt: True
      have e: "heap_edges key {pos} (insert pos D) n ys" using less.prems(5) by (simp add: heap_edges_def)
      obtain h' where h': "hole_move_to h c = Some h'" "hole_at h' (heap_swap ys pos c) c"
        "permutes s n ys (heap_swap ys pos c)" "live_from s (heap_swap ys pos c)"
        "heap_edges key {c} (insert c D) n (heap_swap ys pos c)" "gap_ok key D n (heap_swap ys pos c) c"
        by (rule move_down [OF less.prems(1-4) e less.prems(6,8) c(2) cn(1) c(3) c(5)]) assumption+
      have step: "sift_down_loop cmp n h = sift_down_loop cmp n h'"
        using True lt c(1) get cm hole(1,4) h'(1) by (subst sift_down_loop.simps) simp
      have e': "heap_edges key {} (insert c D) n (heap_swap ys pos c)"
        using h'(5) lt cn hole(2) less.prems(8) c(3)
        by (intro heap_edges_fill [OF h'(5)]) (auto simp: ord_cmp_iff)
      have m: "n - c < n - pos" "s \<le> c" "n \<le> length (heap_swap ys pos c)" using cn less.prems(3,8) by auto
      obtain ret h'' zs p where r: "sift_down_loop cmp n h' = Some (ret, h'')" "hole_at h'' zs p"
        "permutes s n (heap_swap ys pos c) zs" "s \<le> p" "p < n" "if ret then heap_edges key {} D n zs
          else n - 2 < 2 * p + 1 \<and> heap_edges key {} (insert p D) n zs \<and> gap_ok key D n zs p"
        using less.hyps [OF m(1) h'(2) less.prems(2) m(2) h'(4) e' h'(6) cn(1) m(3)] by blast
      show ?thesis
        using step r(1,2,4,5,6) permutes_trans [OF h'(3) r(3)]
        by (intro exI [of _ ret] exI [of _ h''] exI [of _ zs] exI [of _ p]) simp
    qed
  qed
qed

lemma sift_down_range_spec:
  assumes "pos < n" and "n \<le> length data" and D: "\<forall>d \<in> D. d < pos" and "live_from pos data"
    and "heap_edges key {} (insert pos D) n data" and "gap_ok key D n data pos"
  shows "\<exists>p zs. sift_down_range cmp data pos n = Some (p, zs) \<and> permutes pos n data zs \<and> heap_edges key {} D n zs"
proof -
  obtain h where h: "hole_new data pos = Some h" "hole_at h data pos"
    using hole_at_new [of pos data] assms(1,2) by auto
  obtain ret h' zs p where l: "sift_down_loop cmp n h = Some (ret, h')" "hole_at h' zs p" "permutes pos n data zs"
    "pos \<le> p" "p < n" "if ret then heap_edges key {} D n zs
      else n - 2 < 2 * p + 1 \<and> heap_edges key {} (insert p D) n zs \<and> gap_ok key D n zs p"
    using sift_down_loop_spec [OF h(2) D order_refl assms(4-6,1,2)] by blast
  note hole = hole_at_simps [OF l(2)]
  have n: "n \<le> length zs" using assms(2) permutes_length [OF l(3)] by simp
  have lv: "live_from pos zs" by (rule permutes_all [where P = live, OF l(3) assms(4)])
  consider (ret) "ret" | (none) "\<not> ret" "2 * p + 1 \<noteq> n - 1" | (child) "\<not> ret" "2 * p + 1 = n - 1" by blast
  then show ?thesis
  proof cases
    case ret
    then have "sift_down_range cmp data pos n = Some (p, zs)"
      unfolding sift_down_range_def using h(1) l(1) hole(1,3) by simp
    then show ?thesis using l(3,6) ret by simp
  next
    case none
    then have "sift_down_range cmp data pos n = Some (p, zs)"
      unfolding sift_down_range_def using h(1) l(1) hole(1,3) by simp
    moreover have "heap_edges key {} D n zs"
    proof (rule heap_edges_clean)
      show "heap_edges key {} (insert p D) n zs" using l(6) none(1) by simp
      fix c assume "0 < c" "c < n" "par c = p"
      then show "key (zs ! c) \<le> key (zs ! p)" using l(6) none by (auto simp: par_eq_iff)
    qed
    ultimately show ?thesis using l(3) by blast
  next
    case child
    let ?c = "2 * p + 1"
    have cn: "?c < n" "pos \<le> ?c" using child l(4,5) by auto
    then have c: "0 < ?c" "?c < n" "par ?c = p" "?c \<noteq> p" "pos \<le> ?c" by simp_all
    have only: "c' = ?c" if "0 < c'" "c' < n" "par c' = p" for c' using that child(2) by (auto simp: par_eq_iff)
    have get: "hole_get h' ?c = Some (zs ! ?c)" using hole(5) [of ?c] c n by simp
    have cm: "cmp (zs ! p) (zs ! ?c) = Some (ord_cmp (key (zs ! p)) (key (zs ! ?c)))"
      using c n l(4) hole(2) by (intro cmp_nth [OF lv]) auto
    have e: "heap_edges key {} (insert p D) n zs" and g: "gap_ok key D n zs p" using l(6) child(1) by simp_all
    show ?thesis
    proof (cases "ord_cmp (key (zs ! p)) (key (zs ! ?c)) = Less")
      case False
      have "sift_down_range cmp data pos n = Some (p, zs)"
        unfolding sift_down_range_def using h(1) l(1) hole(1,3,4) child get cm False by simp
      moreover have "heap_edges key {} D n zs"
        by (rule heap_edges_clean [OF e]) (use False only in \<open>auto simp: ord_cmp_iff\<close>)
      ultimately show ?thesis using l(3) by blast
    next
      case True
      have e': "heap_edges key {p} (insert p D) n zs" using e by (simp add: heap_edges_def)
      have gr: "key (zs ! c') \<le> key (zs ! ?c)" if "0 < c'" "c' < n" "par c' = p" for c' using only [OF that] by simp
      obtain h'' where m: "hole_move_to h' ?c = Some h''" "hole_at h'' (heap_swap zs p ?c) ?c"
        "permutes pos n zs (heap_swap zs p ?c)" "live_from pos (heap_swap zs p ?c)"
        "heap_edges key {?c} (insert ?c D) n (heap_swap zs p ?c)"
        by (rule move_down [OF l(2) D l(4) lv e' g n c(1-3) gr]) assumption+
      have "sift_down_range cmp data pos n = Some (?c, heap_swap zs p ?c)"
        unfolding sift_down_range_def
        using h(1) l(1) hole(1,3,4) child get cm True m(1) hole_at_simps(1,3) [OF m(2)] by simp
      moreover have "heap_edges key {?c} D n (heap_swap zs p ?c)"
        by (rule heap_edges_clean [OF m(5)]) (use child(2) in \<open>auto simp: par_eq_iff\<close>)
      then have "heap_edges key {} D n (heap_swap zs p ?c)"
        by (rule heap_edges_fill) (use True hole(2) c n in \<open>auto simp: ord_cmp_iff\<close>)
      ultimately show ?thesis using permutes_trans [OF l(3) m(3)] by blast
    qed
  qed
qed

lemma bottom_loop_spec:
  assumes "hole_at h ys pos" and "\<forall>d \<in> D. d < s" and "desc s pos" and "live_from s ys"
    and "heap_edges key {pos} (insert pos D) n ys" and "gap_ok key D n ys pos" and "pos < n" and "n \<le> length ys"
  shows "\<exists>h' zs p. bottom_loop cmp n h = Some h' \<and> hole_at h' zs p \<and> permutes s n ys zs \<and> desc s p \<and> p < n \<and>
    n - 2 < 2 * p + 1 \<and> heap_edges key {p} (insert p D) n zs \<and> gap_ok key D n zs p \<and> zs ! p = ys ! pos"
  using assms
proof (induction "n - pos" arbitrary: h ys pos rule: less_induct)
  case less
  note hole = hole_at_simps [OF less.prems(1)]
  have s: "s \<le> pos" by (rule desc_ge [OF less.prems(3)])
  show ?case
  proof (cases "2 * pos + 1 \<le> n - 2")
    case False
    then have "bottom_loop cmp n h = Some h" using hole(1) by (subst bottom_loop.simps) simp
    then show ?thesis using False less.prems by (intro exI [of _ h] exI [of _ ys] exI [of _ pos]) simp
  next
    case True
    then have len: "2 * pos + 2 < n" "2 * pos + 2 < length ys" using less.prems(8) by auto
    obtain c where c: "bigger_child cmp h (2 * pos + 1) = Some c" "0 < c" "par c = pos" "c \<le> 2 * pos + 2"
      "\<And>c'. 0 < c' \<Longrightarrow> par c' = pos \<Longrightarrow> key (ys ! c') \<le> key (ys ! c)"
      using heap_child_spec [OF less.prems(1) len(2) less.prems(4) s] by blast
    have cn: "c < n" using c(4) len(1) by simp
    obtain h' where h': "hole_move_to h c = Some h'" "hole_at h' (heap_swap ys pos c) c"
      "permutes s n ys (heap_swap ys pos c)" "live_from s (heap_swap ys pos c)"
      "heap_edges key {c} (insert c D) n (heap_swap ys pos c)" "gap_ok key D n (heap_swap ys pos c) c" "pos < c"
      by (rule move_down [OF less.prems(1,2) s less.prems(4,5,6,8) c(2) cn c(3) c(5)]) assumption+
    have step: "bottom_loop cmp n h = bottom_loop cmp n h'"
      using True c(1) h'(1) hole(1) by (subst bottom_loop.simps) simp
    have m: "n - c < n - pos" "desc s c" "n \<le> length (heap_swap ys pos c)"
      using cn h'(7) less.prems(3,8) c(2,3) by (auto intro: desc_step)
    obtain h'' zs p where r: "bottom_loop cmp n h' = Some h''" "hole_at h'' zs p"
      "permutes s n (heap_swap ys pos c) zs" "desc s p" "p < n" "n - 2 < 2 * p + 1"
      "heap_edges key {p} (insert p D) n zs" "gap_ok key D n zs p" "zs ! p = heap_swap ys pos c ! c"
      using less.hyps [OF m(1) h'(2) less.prems(2) m(2) h'(4,5,6) cn m(3)] by blast
    have "heap_swap ys pos c ! c = ys ! pos" using cn less.prems(8) by simp
    then show ?thesis
      using step r permutes_trans [OF h'(3) r(3)] by (intro exI [of _ h''] exI [of _ zs] exI [of _ p]) simp
  qed
qed

lemma sift_up_spec:
  assumes "pos < n" and "n \<le> length data" and "desc s pos" and D: "\<forall>d \<in> D. d < s" and "live_from s data"
    and "heap_edges key {pos} D n data" and "gap_ok key D n data pos"
    and "0 < s \<and> par s \<notin> D \<longrightarrow> key (data ! pos) \<le> key (data ! par s)"
  shows "\<exists>p zs. sift_up cmp data s pos = Some (p, zs) \<and> permutes s n data zs \<and> heap_edges key {} D n zs"
proof -
  obtain h where h: "hole_new data pos = Some h" "hole_at h data pos"
    using hole_at_new [of pos data] assms(1,2) by auto
  obtain h' zs p where l: "sift_up_loop cmp s h = Some h'" "hole_at h' zs p" "permutes s n data zs"
    "heap_edges key {} D n zs"
    using sift_up_loop_spec [OF h(2) assms(3) D assms(5-7,1,2,8)] by blast
  have "sift_up cmp data s pos = Some (p, zs)"
    unfolding sift_up_def using h(1) l(1) hole_at_simps(1,3) [OF l(2)] by simp
  then show ?thesis using l(3,4) by blast
qed

lemma sift_down_to_bottom_spec:
  assumes "pos < length data" and D: "\<forall>d \<in> D. d < pos" and "live_from pos data"
    and "heap_edges key {pos} (insert pos D) (length data) data" and "gap_ok key D (length data) data pos"
    and up: "0 < pos \<and> par pos \<notin> D \<longrightarrow> key (data ! pos) \<le> key (data ! par pos)"
  shows "\<exists>zs. sift_down_to_bottom cmp data pos = Some zs \<and> permutes pos (length data) data zs \<and>
    heap_edges key {} D (length data) zs"
proof -
  let ?n = "length data"
  obtain h where h: "hole_new data pos = Some h" "hole_at h data pos"
    using hole_at_new [of pos data] assms(1) by auto
  obtain h' zs p where l: "bottom_loop cmp ?n h = Some h'" "hole_at h' zs p" "permutes pos ?n data zs"
    "desc pos p" "p < ?n" "?n - 2 < 2 * p + 1" "heap_edges key {p} (insert p D) ?n zs" "gap_ok key D ?n zs p"
    "zs ! p = data ! pos"
    using bottom_loop_spec [OF h(2) D desc_refl assms(3-5,1) order_refl] by blast
  note hole = hole_at_simps [OF l(2)]
  have len: "length zs = ?n" by (rule permutes_length [OF l(3)])
  have lv: "live_from pos zs" by (rule permutes_all [where P = live, OF l(3) assms(3)])
  have s: "pos \<le> p" by (rule desc_ge [OF l(4)])
  obtain h'' ws q where m: "(let child = 2 * h_pos h' + 1 in
      if child = ?n - 1 then hole_move_to h' child else Some h') = Some h''" "hole_at h'' ws q"
    "permutes pos ?n data ws" "desc pos q" "q < ?n" "heap_edges key {q} (insert q D) ?n ws" "gap_ok key D ?n ws q"
    "ws ! q = data ! pos" "2 * q + 1 \<ge> ?n"
  proof (cases "2 * p + 1 = ?n - 1")
    case False
    then show thesis using l hole(1) by (intro that [of h' zs p]) auto
  next
    case True
    let ?c = "2 * p + 1"
    have cn: "?c < ?n" "?n \<le> length zs" using True l(5) len by simp_all
    then have c: "0 < ?c" "?c < ?n" "par ?c = p" by simp_all
    have only: "key (zs ! c') \<le> key (zs ! ?c)" if "0 < c'" "c' < ?n" "par c' = p" for c'
      using that True by (auto simp: par_eq_iff)
    obtain h'' where k: "hole_move_to h' ?c = Some h''" "hole_at h'' (heap_swap zs p ?c) ?c"
      "permutes pos ?n zs (heap_swap zs p ?c)" "live_from pos (heap_swap zs p ?c)"
      "heap_edges key {?c} (insert ?c D) ?n (heap_swap zs p ?c)" "gap_ok key D ?n (heap_swap zs p ?c) ?c"
      by (rule move_down [OF l(2) D s lv l(7,8) cn(2) c only]) assumption+
    have "desc pos ?c" by (rule desc_step) (use l(4) in simp_all)
    moreover have "heap_swap zs p ?c ! ?c = data ! pos" using cn l(9) by simp
    ultimately show thesis
      using True k(1,2,5,6) permutes_trans [OF l(3) k(3)] cn(1) hole(1)
      by (intro that [of h'' "heap_swap zs p ?c" ?c]) simp_all
  qed
  have e: "heap_edges key {q} D ?n ws"
    by (rule heap_edges_clean [OF m(6)]) (use m(9) in \<open>auto simp: par_eq_iff\<close>)
  have up': "0 < pos \<and> par pos \<notin> D \<longrightarrow> key (ws ! q) \<le> key (ws ! par pos)"
    using up m(8) permutes_nth [OF m(3), of "par pos"] assms(1) par_less [of pos] by auto
  obtain p' us where u: "sift_up cmp ws pos q = Some (p', us)" "permutes pos ?n ws us" "heap_edges key {} D ?n us"
    using sift_up_spec [OF m(5) _ m(4) D permutes_all [where P = live, OF m(3) assms(3)] e m(7) up']
      permutes_length [OF m(3)] by auto
  have "sift_down_to_bottom cmp data pos = Some us"
    unfolding sift_down_to_bottom_def using h(1) l(1) m(1) u(1) hole_at_simps(1,3) [OF m(2)] by simp
  then show ?thesis using permutes_trans [OF m(3) u(2)] u(3) by blast
qed

section \<open>The operations keep the heap\<close>

lemma rebuild_loop_spec:
  assumes "n \<le> length data" and "\<forall>x \<in> set data. live x" and "heap_edges key {} {..<n} (length data) data"
  shows "\<exists>zs. rebuild_loop cmp n data = Some zs \<and> permutes 0 (length data) data zs \<and> is_heap key zs"
  using assms
proof (induction n arbitrary: data)
  case (Suc n)
  have D: "insert n {..<n} = {..<Suc n}" by auto
  have g: "gap_ok key {..<n} (length data) data n" by (auto simp: gap_ok_def par_less)
  obtain p zs where z: "sift_down cmp data n = Some (p, zs)" "permutes n (length data) data zs"
    "heap_edges key {} {..<n} (length data) zs"
    using sift_down_range_spec [of n "length data" data "{..<n}"] Suc.prems g
    by (auto simp: sift_down_def D dest: in_set_dropD)
  have len: "length zs = length data" by (rule permutes_length [OF z(2)])
  have "\<forall>x \<in> set zs. live x" using permutes_all [where P = live, OF permutes_mono [OF z(2), of 0 "length data"]] Suc.prems(2) by simp
  then obtain ws where "rebuild_loop cmp n zs = Some ws" "permutes 0 (length zs) zs ws" "is_heap key ws"
    using Suc.IH [of zs] Suc.prems(1) z(3) len by auto
  then show ?case
    using z(1) permutes_trans [OF permutes_mono [OF z(2), of 0 "length data"]] len by simp
qed simp

lemma rebuild_spec:
  assumes "\<forall>x \<in> set data. live x"
  shows "\<exists>zs. rebuild cmp data = Some zs \<and> mset zs = mset data \<and> is_heap key zs"
proof -
  have "heap_edges key {} {..<length data div 2} (length data) data"
    by (auto simp: heap_edges_def par_def)
  then show ?thesis
    using rebuild_loop_spec [of "length data div 2" data] assms by (auto simp: rebuild_def permutes_def)
qed

lemma heap_root_greatest:
  assumes "heap_edges key {} {} n xs" and "i < n" shows "key (xs ! i) \<le> key (xs ! 0)"
  using assms(2)
proof (induction i rule: less_induct)
  case (less i)
  show ?case
  proof (cases "i = 0")
    case False
    then have "key (xs ! i) \<le> key (xs ! par i)" using heap_edgesD [OF assms(1), of i] less.prems by simp
    also have "\<dots> \<le> key (xs ! 0)" using False less par_less [of i] by simp
    finally show ?thesis .
  qed simp
qed

lemma heap_push_spec:
  assumes "is_heap key data" and "\<forall>x \<in> set data. live x" and "live item"
  shows "\<exists>zs. heap_push cmp data item = Some zs \<and> mset zs = add_mset item (mset data) \<and> is_heap key zs"
proof -
  let ?n = "length data" and ?d = "data @ [item]"
  have e: "heap_edges key {?n} {} (length ?d) ?d"
    unfolding heap_edges_def
  proof (intro allI impI)
    fix i assume i: "0 < i \<and> i < length ?d \<and> i \<notin> {?n} \<and> par i \<notin> {}"
    then have "i < ?n" "par i < ?n" using par_less [of i] by auto
    then show "key (?d ! i) \<le> key (?d ! par i)"
      using heap_edgesD [OF assms(1), of i] i by (simp add: nth_append)
  qed
  have g: "gap_ok key {} (length ?d) ?d ?n"
    unfolding gap_ok_def
  proof (intro impI allI)
    fix c assume "0 < c \<and> c < length ?d \<and> par c = ?n"
    then show "key (?d ! c) \<le> key (?d ! par ?n)" using par_less [of c] by simp
  qed
  obtain p zs where "sift_up cmp ?d 0 ?n = Some (p, zs)" "permutes 0 (length ?d) ?d zs"
    "heap_edges key {} {} (length ?d) zs"
    using sift_up_spec [OF _ _ desc_root _ _ e g] assms(2,3) by auto
  then show ?thesis by (auto simp: heap_push_def permutes_def)
qed

text \<open>
  Removing the element at \<open>index\<close>. Elements at an index of \<open>D\<close>, all before \<open>index\<close>, may be out of order
  with their children and need not be comparable; nor need the removed element be.
\<close>

lemma heap_remove_spec:
  assumes i: "index < length data" and D: "\<forall>d \<in> D. d < index" and lv: "live_from (Suc index) data"
    and e: "heap_edges key {} (insert index D) (length data) data" and g: "gap_ok key D (length data) data index"
    and up: "0 < index \<and> par index \<notin> D \<longrightarrow> key (last data) \<le> key (data ! par index)"
  shows "\<exists>zs. heap_remove cmp data index = Some zs \<and> length zs = length data - 1 \<and> take index zs = take index data \<and>
    add_mset (data ! index) (mset zs) = mset data \<and> heap_edges key {} D (length zs) zs"
proof -
  let ?rest = "butlast data" and ?lst = "last data"
  have ne: "data \<noteq> []" using i by auto
  have data: "data = ?rest @ [?lst]" using ne by simp
  have rest: "?rest ! j = data ! j" if "j < length ?rest" for j using that by (simp add: nth_butlast)
  show ?thesis
  proof (cases "index = length ?rest")
    case True
    have "heap_edges key {} D (length ?rest) ?rest"
      unfolding heap_edges_def
    proof (intro allI impI)
      fix j assume j: "0 < j \<and> j < length ?rest \<and> j \<notin> {} \<and> par j \<notin> D"
      then have "par j < length ?rest" "par j \<noteq> index" "j < length data" using par_less [of j] True by auto
      then show "key (?rest ! j) \<le> key (?rest ! par j)" using heap_edgesD [OF e, of j] j rest by simp
    qed
    moreover have "add_mset (data ! index) (mset ?rest) = mset data"
      using arg_cong [OF data, of mset] ne True by (simp add: last_conv_nth)
    ultimately show ?thesis using ne True by (auto simp: heap_remove_def butlast_conv_take)
  next
    case False
    then have ir: "index < length ?rest" using i by simp
    let ?d = "?rest[index := ?lst]"
    have e': "heap_edges key {index} (insert index D) (length ?d) ?d"
      unfolding heap_edges_def
    proof (intro allI impI)
      fix j assume j: "0 < j \<and> j < length ?d \<and> j \<notin> {index} \<and> par j \<notin> insert index D"
      then have "par j < length ?rest" "j < length data" using par_less [of j] by auto
      then show "key (?d ! j) \<le> key (?d ! par j)" using heap_edgesD [OF e, of j] j rest by simp
    qed
    have g': "gap_ok key D (length ?d) ?d index"
      unfolding gap_ok_def
    proof (intro impI allI)
      fix c assume k: "0 < index \<and> par index \<notin> D" and c: "0 < c \<and> c < length ?d \<and> par c = index"
      have "c \<noteq> index" "par index \<noteq> index" "par index < length ?rest" "c < length data"
        using c k par_less [of c] par_less [of index] ir by auto
      then show "key (?d ! c) \<le> key (?d ! par index)"
        using gap_okD [of key D "length data" data c] g k c rest by simp
    qed
    have "drop index ?d = ?lst # butlast (drop (Suc index) data)"
      using ir by (simp add: Cons_nth_drop_Suc [symmetric] drop_butlast)
    moreover have "?lst \<in> set (drop (Suc index) data)"
      using ir last_in_set [of "drop (Suc index) data"] by (simp add: last_drop)
    ultimately have "set (drop index ?d) \<subseteq> set (drop (Suc index) data)"
      by (auto dest: in_set_butlastD)
    then have lv': "live_from index ?d" using lv by blast
    have up': "0 < index \<and> par index \<notin> D \<longrightarrow> key (?d ! index) \<le> key (?d ! par index)"
      using up ir rest [of "par index"] par_less [of index] by auto
    obtain zs where z: "sift_down_to_bottom cmp ?d index = Some zs" "permutes index (length ?d) ?d zs"
      "heap_edges key {} D (length ?d) zs"
      using sift_down_to_bottom_spec [OF _ D lv' e' g' up'] ir by auto
    have "mset data = add_mset ?lst (mset ?rest)" using arg_cong [OF data, of mset] by simp
    then have "add_mset (data ! index) (mset zs) = mset data"
      using z(2) ir rest [OF ir] nth_mem [OF ir] by (simp add: permutes_def mset_update insert_DiffM)
    moreover have "take index zs = take index data"
      using z(2) ir by (intro nth_equalityI) (auto simp: permutes_def rest)
    ultimately show ?thesis
      using z ne False ir permutes_length [OF z(2)] by (simp add: heap_remove_def)
  qed
qed

lemma heap_pop_root:
  assumes e: "heap_edges key {} (insert 0 {}) (length data) data" and lv: "live_from (Suc 0) data" and "data \<noteq> []"
  shows "\<exists>zs. heap_pop cmp data = Some (Some (data ! 0), zs) \<and> add_mset (data ! 0) (mset zs) = mset data \<and> is_heap key zs"
proof -
  have g: "gap_ok key {} (length data) data 0" by (simp add: gap_ok_def)
  obtain zs where z: "heap_remove cmp data 0 = Some zs" "length zs = length data - 1"
    "add_mset (data ! 0) (mset zs) = mset data" "is_heap key zs"
    using heap_remove_spec [OF _ _ lv e g] assms(3) by blast
  have "heap_pop cmp data = Some (Some (data ! 0), zs)"
    using z(1,2) assms(3)
    by (cases "length data = 1") (auto simp: heap_pop_def heap_remove_def Let_def nth_butlast last_conv_nth split: if_splits)
  then show ?thesis using z by blast
qed

lemma heap_pop_spec:
  assumes "is_heap key data" and "\<forall>x \<in> set data. live x" and "data \<noteq> []"
  shows "\<exists>zs. heap_pop cmp data = Some (Some (data ! 0), zs) \<and> add_mset (data ! 0) (mset zs) = mset data \<and>
    is_heap key zs \<and> (\<forall>x \<in> set data. key x \<le> key (data ! 0))"
proof -
  have e: "heap_edges key {} (insert 0 {}) (length data) data" using assms(1) by (simp add: heap_edges_def)
  have lv: "live_from (Suc 0) data" using assms(2) by (auto dest: in_set_dropD)
  have "\<forall>x \<in> set data. key x \<le> key (data ! 0)"
    using heap_root_greatest [OF assms(1)] by (auto simp: in_set_conv_nth)
  then show ?thesis using heap_pop_root [OF e lv assms(3)] by blast
qed

lemma update_pos_sift_down_spec:
  assumes h: "is_heap key data" and lv: "\<forall>x \<in> set data. live x" "live item" and p: "pos < length data"
    and le: "key item \<le> key (data ! pos)"
  shows "\<exists>zs. update_pos_sift_down cmp data pos item = Some zs \<and> is_heap key zs \<and>
    add_mset (data ! pos) (mset zs) = add_mset item (mset data)"
proof -
  let ?d = "data[pos := item]"
  have nth: "?d ! j = data ! j" if "j \<noteq> pos" for j using that by simp
  have e: "heap_edges key {} (insert pos {}) (length ?d) ?d"
    unfolding heap_edges_def
  proof (intro allI impI)
    fix j assume j: "0 < j \<and> j < length ?d \<and> j \<notin> {} \<and> par j \<notin> insert pos {}"
    then have "key (data ! j) \<le> key (data ! par j)" using heap_edgesD [OF h, of j] by simp
    then show "key (?d ! j) \<le> key (?d ! par j)" using le p j by (cases "j = pos") auto
  qed
  have g: "gap_ok key {} (length ?d) ?d pos"
    unfolding gap_ok_def
  proof (intro impI allI)
    fix c assume k: "0 < pos \<and> par pos \<notin> {}" and c: "0 < c \<and> c < length ?d \<and> par c = pos"
    have "key (data ! c) \<le> key (data ! par pos)"
      using heap_edgesD [OF h, of c] heap_edgesD [OF h, of pos] k c p by simp
    then show "key (?d ! c) \<le> key (?d ! par pos)" using c k par_less [of c] par_less [of pos] by auto
  qed
  have "live_from pos ?d"
    using lv set_update_subset_insert [of data pos item] by (auto dest: in_set_dropD)
  then obtain q zs where "sift_down cmp ?d pos = Some (q, zs)" "permutes pos (length ?d) ?d zs"
    "heap_edges key {} {} (length ?d) zs"
    using sift_down_range_spec [OF _ _ _ _ e g] p by (auto simp: sift_down_def)
  then show ?thesis using p nth_mem [OF p]
    by (auto simp: update_pos_sift_down_def permutes_def mset_update insert_DiffM)
qed

text \<open>Sorting: the maximum goes behind the heap that is left.\<close>

lemma into_sorted_loop_spec:
  assumes "fin \<le> length data" and "\<forall>x \<in> set data. live x" and "heap_edges key {} {} fin data"
    and "sorted (map key (drop fin data))" and "\<forall>x \<in> set (take fin data). \<forall>y \<in> set (drop fin data). key x \<le> key y"
  shows "\<exists>zs. into_sorted_loop cmp fin data = Some zs \<and> mset zs = mset data \<and> sorted (map key zs)"
  using assms
proof (induction fin arbitrary: data)
  case 0
  then show ?case by (subst into_sorted_loop.simps) simp
next
  case (Suc n)
  have whole: "sorted (map key (take (Suc n) data @ drop (Suc n) data))" if "n = 0"
    using that Suc.prems(4,5) by (cases data) (auto simp: sorted_append)
  show ?case
  proof (cases "n = 0")
    case True
    then show ?thesis using whole by (subst into_sorted_loop.simps) simp
  next
    case False
    let ?d = "heap_swap data 0 n"
    have n: "n < length data" "0 < length data" using Suc.prems(1) by auto
    have sw: "data[0 := data ! n, n := data ! 0] = ?d" by (simp add: heap_swap_def)
    have pm: "permutes 0 (Suc n) data ?d" using Suc.prems(1) by (intro permutes_swap) auto
    have e: "heap_edges key {} (insert 0 {}) n ?d"
      unfolding heap_edges_def
    proof (intro allI impI)
      fix i assume i: "0 < i \<and> i < n \<and> i \<notin> {} \<and> par i \<notin> insert 0 {}"
      then show "key (?d ! i) \<le> key (?d ! par i)"
        using heap_edgesD [OF Suc.prems(3), of i] par_less [of i] by auto
    qed
    have lv: "\<forall>x \<in> set ?d. live x" using permutes_all [where P = live, OF pm] Suc.prems(2) by simp
    obtain p zs where z: "sift_down_range cmp ?d 0 n = Some (p, zs)" "permutes 0 n ?d zs" "heap_edges key {} {} n zs"
      using sift_down_range_spec [OF _ _ _ _ e] False n lv by (auto simp: gap_ok_def)
    have len: "length zs = length data" using permutes_length [OF z(2)] by simp
    have "drop n zs = drop n ?d"
      using permutes_nth [OF z(2)] len by (intro nth_equalityI) auto
    moreover have "drop (Suc n) ?d = drop (Suc n) data"
      by (intro nth_equalityI) auto
    ultimately have drop: "drop n zs = data ! 0 # drop (Suc n) data"
      using n by (simp add: Cons_nth_drop_Suc [symmetric])
    have tk: "set (take n zs) \<subseteq> set (take (Suc n) data)"
    proof -
      have "mset (take (Suc n) ?d) = mset (take (Suc n) data)" by (rule permutes_take [OF pm])
      moreover have "set (take n ?d) \<subseteq> set (take (Suc n) ?d)" by (simp add: set_take_subset_set_take)
      ultimately show ?thesis using permutes_take [OF z(2)] by (metis set_mset_mset)
    qed
    have top: "\<forall>x \<in> set (take (Suc n) data). key x \<le> key (data ! 0)"
      using heap_root_greatest [OF Suc.prems(3)] by (auto simp: in_set_conv_nth)
    have "data ! 0 \<in> set (take (Suc n) data)" using n by (cases data) auto
    then have "sorted (map key (drop n zs))" using Suc.prems(4,5) drop by simp
    moreover have "\<forall>x \<in> set (take n zs). \<forall>y \<in> set (drop n zs). key x \<le> key y"
      using tk top Suc.prems(5) drop by auto
    moreover have "\<forall>x \<in> set zs. live x" using permutes_all [where P = live, OF z(2)] lv by simp
    ultimately obtain ws where "into_sorted_loop cmp n zs = Some ws" "mset ws = mset zs" "sorted (map key ws)"
      using Suc.IH [of zs] z(3) len n by auto
    then show ?thesis
      using False z(1,2) pm sw by (subst into_sorted_loop.simps) (simp add: permutes_def)
  qed
qed

lemma into_sorted_vec_spec:
  assumes "is_heap key data" and "\<forall>x \<in> set data. live x"
  shows "\<exists>zs. into_sorted_vec cmp data = Some zs \<and> mset zs = mset data \<and> sorted (map key zs)"
  using into_sorted_loop_spec [of "length data" data] assms by (simp add: into_sorted_vec_def)

lemma drain_sorted_spec:
  assumes "is_heap key data" and "\<forall>x \<in> set data. live x"
  shows "\<exists>zs. drain_sorted cmp data = Some zs \<and> mset zs = mset data \<and> sorted (map key (rev zs))"
  using assms
proof (induction "length data" arbitrary: data rule: less_induct)
  case less
  show ?case
  proof (cases "data = []")
    case True
    then show ?thesis by (subst drain_sorted.simps) (simp add: heap_pop_def)
  next
    case False
    obtain d where d: "heap_pop cmp data = Some (Some (data ! 0), d)" "add_mset (data ! 0) (mset d) = mset data"
      "is_heap key d" "\<forall>x \<in> set data. key x \<le> key (data ! 0)"
      using heap_pop_spec [OF less.prems False] by blast
    have sub: "set d \<subseteq> set data" using d(2) by (metis set_mset_add_mset_insert set_mset_mset subset_insertI)
    obtain zs where z: "drain_sorted cmp d = Some zs" "mset zs = mset d" "sorted (map key (rev zs))"
      using less.hyps [OF heap_pop_length [OF d(1)] d(3)] less.prems(2) sub by blast
    have "set zs \<subseteq> set data" using z(2) sub by (metis set_mset_mset)
    then have "sorted (map key (rev (data ! 0 # zs)))" using z(3) d(4) by (auto simp: sorted_append)
    then show ?thesis using d(1,2) z(1,2) by (subst drain_sorted.simps) auto
  qed
qed

lemma sift_up_each_spec:
  assumes "i \<le> length data" and "\<forall>x \<in> set data. live x" and "heap_edges key {} {} i data"
  shows "\<exists>zs. sift_up_each cmp [i..<length data] data = Some zs \<and> mset zs = mset data \<and> is_heap key zs"
  using assms
proof (induction "length data - i" arbitrary: i data)
  case 0
  then show ?case by simp
next
  case (Suc k)
  have i: "i < length data" and k: "k = length data - Suc i" using Suc.hyps(2) by simp_all
  have e: "heap_edges key {i} {} (Suc i) data" using Suc.prems(3) by (auto simp: heap_edges_def less_Suc_eq)
  have g: "gap_ok key {} (Suc i) data i"
    unfolding gap_ok_def
  proof (intro impI allI)
    fix c assume "0 < c \<and> c < Suc i \<and> par c = i"
    then show "key (data ! c) \<le> key (data ! par i)" using par_less [of c] by simp
  qed
  obtain p zs where z: "sift_up cmp data 0 i = Some (p, zs)" "permutes 0 (Suc i) data zs" "heap_edges key {} {} (Suc i) zs"
    using sift_up_spec [OF _ _ desc_root _ _ e g] i Suc.prems(2) by auto
  have len: "length zs = length data" by (rule permutes_length [OF z(2)])
  have "\<forall>x \<in> set zs. live x" using permutes_all [where P = live, OF z(2)] Suc.prems(2) by simp
  then obtain ws where "sift_up_each cmp [Suc i..<length zs] zs = Some ws" "mset ws = mset zs" "is_heap key ws"
    using Suc.hyps(1) [of zs "Suc i"] k z(3) len i by auto
  then show ?case using z(1,2) len i by (simp add: upt_conv_Cons permutes_def)
qed

lemma rebuild_tail_spec:
  assumes "start \<le> length data" and "\<forall>x \<in> set data. live x" and "heap_edges key {} {} start data"
  shows "\<exists>zs. rebuild_tail cmp data start = Some zs \<and> mset zs = mset data \<and> is_heap key zs"
  using sift_up_each_spec [OF assms] rebuild_spec [OF assms(2)] assms(3) by (auto simp: rebuild_tail_def)

lemma heap_append_spec:
  assumes "is_heap key data" and "is_heap key other" and "\<forall>x \<in> set data \<union> set other. live x"
  shows "\<exists>zs. heap_append cmp data other = Some zs \<and> mset zs = mset data + mset other \<and> is_heap key zs"
proof -
  have *: "\<exists>zs. rebuild_tail cmp (a @ b) (length a) = Some zs \<and> mset zs = mset a + mset b \<and> is_heap key zs"
    if a: "is_heap key a" and lv: "\<forall>x \<in> set a \<union> set b. live x" for a b
  proof -
    have "heap_edges key {} {} (length a) (a @ b)"
      unfolding heap_edges_def
    proof (intro allI impI)
      fix i assume i: "0 < i \<and> i < length a \<and> i \<notin> {} \<and> par i \<notin> {}"
      then show "key ((a @ b) ! i) \<le> key ((a @ b) ! par i)"
        using heap_edgesD [OF a, of i] par_less [of i] by (simp add: nth_append)
    qed
    then show ?thesis using rebuild_tail_spec [of "length a" "a @ b"] lv by auto
  qed
  show ?thesis
    using * [OF assms(1), of other] * [OF assms(2), of data] assms(3)
    by (simp add: heap_append_def Un_commute add.commute)
qed

lemma heap_retain_spec:
  assumes "is_heap key data" and "\<forall>x \<in> set data. live x"
  shows "\<exists>zs. heap_retain cmp f data = Some zs \<and> mset zs = filter_mset f (mset data) \<and> is_heap key zs"
proof -
  let ?n = "length (takeWhile f data)"
  have from_first: "unwrap_or (position (\<lambda>e. \<not> f e) data) (length data) = ?n" by (rule position_unwrap_or)
  have split: "filter f data = takeWhile f data @ filter f (dropWhile f data)"
    by (induction data) auto
  have "heap_edges key {} {} ?n (filter f data)"
    unfolding heap_edges_def
  proof (intro allI impI)
    fix i assume i: "0 < i \<and> i < ?n \<and> i \<notin> {} \<and> par i \<notin> {}"
    then have "par i < ?n" "i < length data" using par_less [of i] length_takeWhile_le [of f data] by auto
    then show "key (filter f data ! i) \<le> key (filter f data ! par i)"
      using heap_edgesD [OF assms(1), of i] i by (simp add: split nth_append takeWhile_nth)
  qed
  moreover have "?n \<le> length (filter f data)" by (simp add: split)
  ultimately show ?thesis
    using rebuild_tail_spec [of ?n "filter f data"] assms(2) from_first by (simp add: heap_retain_def)
qed

text \<open>\<open>peek_all\<close> calls its closure on the maximal elements, in increasing order of their index.\<close>

lemma no_maximal_between:
  assumes h: "is_heap key data" and top: "\<forall>x \<in> set data. key x \<le> m"
    and closed: "\<forall>i. v < i \<and> i < length data \<and> key (data ! i) = m \<and> par i \<le> v \<longrightarrow> i \<in> set queue"
    and i: "v < i" "i < length data" "key (data ! i) = m"
  shows "\<exists>q \<in> set queue. q \<le> i"
  using i
proof (induction i rule: less_induct)
  case (less i)
  have lt: "par i < i" using less.prems(1) by (auto intro: par_less)
  show ?case
  proof (cases "par i \<le> v")
    case True
    then show ?thesis using closed less.prems by auto
  next
    case False
    have "key (data ! i) \<le> key (data ! par i)" using heap_edgesD [OF h, of i] less.prems by simp
    moreover have "key (data ! par i) \<le> m" using top lt less.prems(2) by simp
    ultimately have "key (data ! par i) = m" using less.prems(3) by simp
    then obtain q where "q \<in> set queue" "q \<le> par i" using less.IH [OF lt] False lt less.prems(2) by auto
    then show ?thesis using lt by (intro bexI [of _ q]) auto
  qed
qed

lemma children_below_iff: "i \<in> set (children_below n q) \<longleftrightarrow> (i = 2 * q + 1 \<or> i = 2 * q + 2) \<and> i < n"
  by (auto simp: children_below_def Let_def)

lemma children_below_sorted: "sorted_wrt (<) (children_below n q)"
  by (auto simp: children_below_def Let_def)

lemma peek_all_loop_spec:
  assumes "is_heap key data" and "\<forall>x \<in> set data. live x" and "live mx" and "\<forall>x \<in> set data. key x \<le> key mx"
    and "sorted_wrt (<) queue" and "\<forall>q \<in> set queue. v < q \<and> q \<le> 2 * v + 2 \<and> q < length data"
    and "\<forall>i. v < i \<and> i < length data \<and> key (data ! i) = key mx \<and> par i \<le> v \<longrightarrow> i \<in> set queue"
  shows "peek_all_loop cmp mx data queue =
    Some (map (\<lambda>i. (i, data ! i)) (filter (\<lambda>i. key (data ! i) = key mx) [Suc v..<length data]))"
  using assms
proof (induction "sum_list (map (subtree_size (length data)) queue)" arbitrary: queue v rule: less_induct)
  case less
  let ?M = "\<lambda>i. key (data ! i) = key mx" and ?n = "length data"
  note gap = no_maximal_between [OF less.prems(1,4,7)]
  show ?case
  proof (cases queue)
    case Nil
    then have none: "filter ?M [Suc v..<?n] = []" using gap by (auto simp: filter_empty_conv Suc_le_eq)
    show ?thesis unfolding Nil none by simp
  next
    case (Cons q rest)
    have q: "v < q" "q \<le> 2 * v + 2" "q < ?n" and rest: "\<forall>r \<in> set rest. q < r" "sorted_wrt (<) rest"
      using less.prems(5,6) Cons by auto
    have cm: "cmp (data ! q) mx = Some (ord_cmp (key (data ! q)) (key mx))"
      using less.prems(2,3) q(3) by (intro cmp_live) auto
    have small: "sum_list (map (subtree_size ?n) rest) < sum_list (map (subtree_size ?n) queue)"
      using Cons q(3) by (simp add: subtree_size.simps [of ?n q])
    show ?thesis
    proof (cases "?M q")
      case False
      have cls: "\<forall>i. v < i \<and> i < ?n \<and> ?M i \<and> par i \<le> v \<longrightarrow> i \<in> set rest" using less.prems(7) Cons False by auto
      have bnd: "\<forall>r \<in> set rest. v < r \<and> r \<le> 2 * v + 2 \<and> r < ?n" using less.prems(6) Cons by simp
      from less.hyps [OF small less.prems(1-4) rest(2) bnd cls] show ?thesis using Cons q(3) cm False by (simp add: ord_cmp_iff)
    next
      case True
      let ?ch = "children_below ?n q"
      have none: "filter ?M [Suc v..<q] = []"
        using gap Cons rest(1) q(3) by (fastforce simp: filter_empty_conv Suc_le_eq)
      have split: "[Suc v..<?n] = [Suc v..<q] @ q # [Suc q..<?n]"
        using q by (metis Suc_leI le_add_diff_inverse less_imp_le upt_add_eq_append upt_conv_Cons)
      have old: "\<forall>r \<in> set rest. q < r \<and> r \<le> 2 * v + 2 \<and> r < ?n" using less.prems(6) Cons rest(1) by simp
      have srt: "sorted_wrt (<) (rest @ ?ch)"
        using old rest(2) q(1) by (fastforce simp: sorted_wrt_append children_below_iff children_below_sorted)
      have bnd: "\<forall>r \<in> set (rest @ ?ch). q < r \<and> r \<le> 2 * q + 2 \<and> r < ?n"
        using old q(1) by (fastforce simp: children_below_iff)
      have cls: "\<forall>i. q < i \<and> i < ?n \<and> ?M i \<and> par i \<le> q \<longrightarrow> i \<in> set (rest @ ?ch)"
      proof (intro allI impI)
        fix i assume i: "q < i \<and> i < ?n \<and> ?M i \<and> par i \<le> q"
        have pi: "par i < i" using i by (auto intro: par_less)
        consider (child) "par i = q" | (before) "par i \<le> v" | (between) "v < par i" "par i < q" using i by linarith
        then show "i \<in> set (rest @ ?ch)"
        proof cases
          case child
          then have "i = 2 * q + 1 \<or> i = 2 * q + 2" using i par_eq_iff [of i q] by simp
          then show ?thesis using i by (simp add: children_below_iff)
        next
          case before
          then have "i \<in> set queue" using less.prems(7) i q(1) by (metis order.strict_trans)
          then show ?thesis using Cons i by simp
        next
          case between
          have "key (data ! i) \<le> key (data ! par i)" using heap_edgesD [OF less.prems(1), of i] i by simp
          moreover have "key (data ! par i) \<le> key mx" using less.prems(4) pi i by simp
          ultimately have "?M (par i)" using i by simp
          then show ?thesis using gap [of "par i"] between q(3) Cons rest(1) by fastforce
        qed
      qed
      have "sum_list (map (subtree_size ?n) (rest @ ?ch)) < sum_list (map (subtree_size ?n) queue)"
        using Cons children_below_size [OF q(3)] by simp
      from less.hyps [OF this less.prems(1-4) srt bnd cls]
      show ?thesis using Cons q(3) cm True none by (simp add: ord_cmp_iff split)
    qed
  qed
qed

lemma peek_all_spec:
  assumes "is_heap key data" and "\<forall>x \<in> set data. live x"
  shows "peek_all cmp data =
    Some (map (\<lambda>i. (i, data ! i)) (filter (\<lambda>i. key (data ! i) = key (data ! 0)) [0..<length data]))"
proof (cases data)
  case Nil
  then show ?thesis by (simp add: peek_all_def peek_def)
next
  case (Cons x xs)
  let ?n = "length data" and ?q = "children_below (length data) 0"
  have n: "0 < ?n" and x: "x = data ! 0" using Cons by simp_all
  have queue: "(if ?n > 1 then [1] else []) @ (if ?n > 2 then [2] else []) = ?q"
    by (simp add: children_below_def)
  have top: "\<forall>y \<in> set data. key y \<le> key x"
    using heap_root_greatest [OF assms(1)] x by (auto simp: in_set_conv_nth)
  have "peek_all_loop cmp x data ?q =
    Some (map (\<lambda>i. (i, data ! i)) (filter (\<lambda>i. key (data ! i) = key x) [Suc 0..<?n]))"
  proof (rule peek_all_loop_spec [OF assms _ top children_below_sorted])
    show "live x" using assms(2) Cons by simp
    show "\<forall>q \<in> set ?q. 0 < q \<and> q \<le> 2 * 0 + 2 \<and> q < ?n" by (auto simp: children_below_iff)
    show "\<forall>i. 0 < i \<and> i < ?n \<and> key (data ! i) = key x \<and> par i \<le> 0 \<longrightarrow> i \<in> set ?q"
      by (auto simp: children_below_iff par_eq_iff)
  qed
  then show ?thesis
    using Cons n queue by (simp add: peek_all_def peek_def upt_conv_Cons del: upt_Suc)
qed

text \<open>
  Guards: the elements behind the root are in order, and the length is hidden exactly when the root may
  have changed.
\<close>

definition pm_inv :: "'a peek_mut \<Rightarrow> bool" where
  "pm_inv pm \<longleftrightarrow> pm_buf pm \<noteq> [] \<and> (\<forall>x \<in> set (pm_buf pm). live x) \<and>
     heap_edges key {} {0} (length (pm_buf pm)) (pm_buf pm) \<and>
     (case pm_original_len pm of
        Some n \<Rightarrow> n = length (pm_buf pm) \<and> pm_len pm = 1
      | None \<Rightarrow> pm_len pm = length (pm_buf pm) \<and> is_heap key (pm_buf pm))"

lemma heap_peek_mut_inv:
  "is_heap key data \<Longrightarrow> \<forall>x \<in> set data. live x \<Longrightarrow> heap_peek_mut data = Some pm \<Longrightarrow> pm_inv pm"
  by (auto simp: heap_peek_mut_def pm_inv_def heap_edges_def split: if_splits)

lemma pm_deref_mut_inv:
  assumes "pm_inv pm" and "live (f (pm_buf pm ! 0))"
  shows "pm_inv (pm_deref_mut f pm)"
    and "pm_buf (pm_deref_mut f pm) = (pm_buf pm)[0 := f (pm_buf pm ! 0)]"
proof -
  let ?b = "pm_buf pm" and ?d = "(pm_buf pm)[0 := f (pm_buf pm ! 0)]"
  show buf: "pm_buf (pm_deref_mut f pm) = ?d" by (simp add: pm_deref_mut_def Let_def)
  have e: "heap_edges key {} {0} (length ?b) ?d"
    unfolding heap_edges_def
  proof (intro allI impI)
    fix i assume i: "0 < i \<and> i < length ?b \<and> i \<notin> {} \<and> par i \<notin> {0}"
    then show "key (?d ! i) \<le> key (?d ! par i)"
      using assms(1) heap_edgesD [of key "{}" "{0}" "length ?b" ?b i] by (simp add: pm_inv_def)
  qed
  have lv: "\<forall>x \<in> set ?d. live x"
    using assms set_update_subset_insert [of ?b 0 "f (?b ! 0)"] by (auto simp: pm_inv_def)
  have one: "length ?b \<le> 1 \<Longrightarrow> is_heap key ?d" by (auto simp: heap_edges_def)
  show "pm_inv (pm_deref_mut f pm)"
    using assms(1) e lv one
    by (cases "pm_original_len pm") (auto simp: pm_inv_def pm_deref_mut_def Let_def not_less)
qed

lemma pm_drop_spec:
  assumes "pm_inv pm"
  shows "\<exists>zs. pm_drop cmp pm = Some zs \<and> mset zs = mset (pm_buf pm) \<and> is_heap key zs"
proof (cases "pm_original_len pm")
  case None
  then show ?thesis using assms by (simp add: pm_drop_def pm_inv_def)
next
  case (Some n)
  have e: "heap_edges key {} (insert 0 {}) (length (pm_buf pm)) (pm_buf pm)" and ne: "0 < length (pm_buf pm)"
    and lv: "\<forall>x \<in> set (drop 0 (pm_buf pm)). live x" and n: "n = length (pm_buf pm)"
    using assms Some by (simp_all add: pm_inv_def)
  have g: "gap_ok key {} (length (pm_buf pm)) (pm_buf pm) 0" by (simp add: gap_ok_def)
  obtain p zs where "sift_down cmp (pm_buf pm) 0 = Some (p, zs)" "permutes 0 (length (pm_buf pm)) (pm_buf pm) zs"
    "heap_edges key {} {} (length (pm_buf pm)) zs"
    using sift_down_range_spec [OF ne order_refl _ lv e g] by (auto simp: sift_down_def)
  then show ?thesis using Some n by (auto simp: pm_drop_def permutes_def)
qed

lemma pm_refresh_spec:
  assumes "pm_inv pm"
  shows "\<exists>moved pm'. pm_refresh cmp pm = Some (moved, pm') \<and> pm_inv pm' \<and> pm_original_len pm' = None \<and>
    mset (pm_buf pm') = mset (pm_buf pm)"
proof (cases "pm_original_len pm")
  case None
  then show ?thesis using assms by (auto simp: pm_refresh_def)
next
  case (Some n)
  obtain r where r: "sift_down cmp (take n (pm_buf pm)) 0 = Some r"
    using pm_drop_spec [OF assms] Some by (auto simp: pm_drop_def bind_eq_Some_conv)
  then have "mset (snd r) = mset (pm_buf pm)" "is_heap key (snd r)"
    using pm_drop_spec [OF assms] Some by (auto simp: pm_drop_def)
  moreover from this(1) have "set (snd r) = set (pm_buf pm)" "length (snd r) = length (pm_buf pm)"
    by (metis set_mset_mset, metis size_mset)
  ultimately show ?thesis
    using r Some assms by (auto simp: pm_refresh_def pm_inv_def heap_edges_def)
qed

lemma pm_pop_spec:
  assumes "pm_inv pm"
  shows "\<exists>zs. pm_pop cmp pm = Some (Some (pm_buf pm ! 0), zs) \<and>
    add_mset (pm_buf pm ! 0) (mset zs) = mset (pm_buf pm) \<and> is_heap key zs"
proof -
  have lv: "live_from (Suc 0) (pm_buf pm)" using assms by (auto simp: pm_inv_def dest: in_set_dropD)
  have "(case pm_original_len pm of Some n \<Rightarrow> n | None \<Rightarrow> pm_len pm) = length (pm_buf pm)"
    using assms by (auto simp: pm_inv_def split: option.splits)
  then show ?thesis
    using heap_pop_root [OF _ lv] assms by (simp add: pm_pop_def pm_inv_def)
qed

end

section \<open>Heaps with a total comparison\<close>

definition total_cmp :: "('a \<Rightarrow> 'k::linorder) \<Rightarrow> 'a comparison" where
  "total_cmp key a b = Some (ord_cmp (key a) (key b))"

interpretation key_heap: heap_order "total_cmp key" key "\<lambda>_. True" for key :: "'a \<Rightarrow> 'k::linorder"
  by unfold_locales (simp add: total_cmp_def)

lemma is_heap_list: "heap_edges key {} {} n xs \<longleftrightarrow> list_all (\<lambda>i. key (xs ! i) \<le> key (xs ! par i)) [1..<n]"
  by (auto simp: heap_edges_def list_all_iff)

lemmas is_heap_eval = is_heap_list par_def upt_rec



text \<open>
  Building a heap from any vector and taking it apart sorts. \<open>into_sorted_vec\<close> and \<open>drain_sorted\<close> of the
  heap built by \<open>from_vec\<close> return the elements of the vector, the first in increasing and the second in
  decreasing order.
\<close>

theorem heap_sorts:
  "\<exists>heap ys zs. heap_from_vec (total_cmp key) xs = Some heap \<and> is_heap key heap \<and>
    into_sorted_vec (total_cmp key) heap = Some ys \<and> mset ys = mset xs \<and> sorted (map key ys) \<and>
    drain_sorted (total_cmp key) heap = Some zs \<and> mset zs = mset xs \<and> sorted (map key (rev zs))"
proof -
  obtain heap where h: "heap_from_vec (total_cmp key) xs = Some heap" "mset heap = mset xs" "is_heap key heap"
    using key_heap.rebuild_spec [of xs key] by (auto simp: heap_from_vec_def)
  then show ?thesis
    using key_heap.into_sorted_vec_spec [OF h(3)] key_heap.drain_sorted_spec [OF h(3)] by auto
qed

text \<open>
  C16: \<open>peek_all\<close> calls its closure exactly on the elements that are equal to the maximum, each with its
  index, in increasing order of the indices. This order is what \<open>ListMerger\<close> relies on.
\<close>

theorem peek_all_maximal:
  assumes "is_heap key data"
  shows "peek_all (total_cmp key) data =
    Some (map (\<lambda>i. (i, data ! i)) (filter (\<lambda>i. \<forall>x \<in> set data. key x \<le> key (data ! i)) [0..<length data]))"
proof -
  have "key (data ! i) = key (data ! 0) \<longleftrightarrow> (\<forall>x \<in> set data. key x \<le> key (data ! i))" if "i < length data" for i
  proof -
    have "data ! 0 \<in> set data" "data ! i \<in> set data" using that by (auto intro!: nth_mem)
    moreover have "\<forall>x \<in> set data. key x \<le> key (data ! 0)"
      using key_heap.heap_root_greatest [OF assms] by (auto simp: in_set_conv_nth)
    ultimately show ?thesis by (metis antisym)
  qed
  then have "filter (\<lambda>i. key (data ! i) = key (data ! 0)) [0..<length data] =
    filter (\<lambda>i. \<forall>x \<in> set data. key x \<le> key (data ! i)) [0..<length data]"
    by (intro filter_cong) auto
  then show ?thesis using key_heap.peek_all_spec [OF assms] by simp
qed

theorem peek_all_maximal_witness:
  "peek_all (total_cmp id) [9, 9, 8, 5, 9 :: nat] = Some [(0, 9), (1, 9), (4, 9)]"
proof -
  have "is_heap id [9, 9, 8, 5, 9 :: nat]" by (simp add: is_heap_eval)
  from peek_all_maximal [OF this] show ?thesis by (simp add: upt_rec)
qed

text \<open>
  Removing by index keeps the heap when the last element is not greater than the parent of the index.
  The callers in \<open>ListMerger\<close> and \<open>CursorList\<close> remove elements whose ancestors are maximal or still to be
  sifted, for which this is not needed.
\<close>

lemma heap_remove_keeps:
  assumes "is_heap key data" and "index < length data"
    and "0 < index \<longrightarrow> key (last data) \<le> key (data ! par index)"
  shows "\<exists>zs. heap_remove (total_cmp key) data index = Some zs \<and> is_heap key zs \<and>
    mset data = add_mset (data ! index) (mset zs)"
proof -
  have e: "heap_edges key {} (insert index {}) (length data) data" using assms(1) by (simp add: heap_edges_def)
  have g: "gap_ok key {} (length data) data index"
    using heap_edgesD [OF assms(1)] assms(2) unfolding gap_ok_def by (metis empty_iff order_trans)
  show ?thesis using key_heap.heap_remove_spec [OF assms(2) _ _ e g] assms(3) by fastforce
qed

text \<open>
  C17: \<open>remove\<close> is documented to remove the element at any index from the heap, but it only sifts the last
  element down from there. Where that element is greater than its new parent the result is not a heap,
  and elements come out of it in the wrong order.
\<close>

theorem heap_remove_breaks_heap:
  "is_heap id [6, 2, 4, 2, 0, 2, 4 :: nat] \<and>
   heap_remove (total_cmp id) [6, 2, 4, 2, 0, 2, 4 :: nat] 3 = Some [6, 2, 4, 4, 0, 2] \<and>
   \<not> is_heap id [6, 2, 4, 4, 0, 2 :: nat] \<and>
   drain_sorted (total_cmp id) [6, 2, 4, 4, 0, 2 :: nat] = Some [6, 4, 2, 4, 2, 0]"
proof (intro conjI)
  show "heap_remove (total_cmp id) [6, 2, 4, 2, 0, 2, 4 :: nat] 3 = Some [6, 2, 4, 4, 0, 2]" by code_simp
  show "drain_sorted (total_cmp id) [6, 2, 4, 4, 0, 2 :: nat] = Some [6, 4, 2, 4, 2, 0]" by code_simp
qed (simp_all add: is_heap_eval)
end
