(* ===== verification/List_Merger.thy ===== *)
theory List_Merger
  imports Merge_Cursors Binary_Heap Logical_Time
begin

text \<open>
  \<open>ListMerger\<close> (\<open>crates/dbsp/src/trace/spine_async/list_merger.rs\<close>), which merges batches in the background: it
  keeps the indexes of its cursors in a binary heap ordered by the current key, and those that share
  the least key in a heap ordered by the current value. Merging can be interrupted when its fuel runs
  out and resumed. The loops are partial functions: \<open>None\<close> is a panic or a loop that does not end. The
  \<open>_mut\<close> variants of the pushes, which move a key or value out of a cursor that is about to leave it, push
  the same data and are not told apart.
\<close>

section \<open>Definitions\<close>

record ('c) list_merger =
  lm_cursors :: "'c list"
  lm_current_key :: "(nat \<times> nat) list"
  lm_key_heap :: "nat list"
  lm_current_val :: "(nat \<times> nat) list"
  lm_val_heap :: "nat list"
  lm_any_values :: bool

text \<open>
  What the factories of the batch type give: the sort of \<open>consolidate\<close>, whether tuples have times, and
  the default time.
\<close>

record ('t, 'r) merge_factories =
  mf_sort :: "('t \<times> 'r) list \<Rightarrow> ('t \<times> 'r) list"
  mf_timed :: bool
  mf_default_time :: 't

definition key_cmp :: "('c, 'k::linorder, 'v, 't, 'r) merge_cursor_ops \<Rightarrow> 'c list \<Rightarrow> nat comparison" where
  "key_cmp ops cursors a b = do {
     cb \<leftarrow> nth_opt cursors b;
     kb \<leftarrow> mc_key ops cb;
     ca \<leftarrow> nth_opt cursors a;
     ka \<leftarrow> mc_key ops ca;
     Some (ord_cmp kb ka)
   }"

definition val_cmp :: "('c, 'k, 'v::linorder, 't, 'r) merge_cursor_ops \<Rightarrow> 'c list \<Rightarrow> nat comparison" where
  "val_cmp ops cursors a b = do {
     cb \<leftarrow> nth_opt cursors b;
     vb \<leftarrow> mc_val ops cb;
     ca \<leftarrow> nth_opt cursors a;
     va \<leftarrow> mc_val ops ca;
     Some (ord_cmp vb va)
   }"

text \<open>
  The loop of \<open>update_key_heap\<close> and \<open>update_val_heap\<close> over the elements that \<open>peek_all\<close> returned, in reverse:
  sift a cursor that moved down, remove one that is exhausted.
\<close>

fun sift_changed ::
  "('a \<Rightarrow> bool option) \<Rightarrow> 'a comparison \<Rightarrow> ('a \<times> nat) list \<Rightarrow> 'a list \<Rightarrow> 'a list option" where
  "sift_changed valid cmp [] heap = Some heap"
| "sift_changed valid cmp ((index, pos) # rest) heap = do {
     v \<leftarrow> valid index;
     heap' \<leftarrow> (if v then do { r \<leftarrow> sift_down cmp heap pos; Some (snd r) } else heap_remove cmp heap pos);
     sift_changed valid cmp rest heap'
   }"

definition positions :: "(nat \<times> nat) list \<Rightarrow> (nat \<times> nat) list" where
  "positions calls = map (\<lambda>(pos, index). (index, pos)) calls"

text \<open>\<open>init_val_heap\<close>, with the loop that collects the cursors that have a value.\<close>

fun with_value :: "('c, 'k, 'v, 't, 'r) merge_cursor_ops \<Rightarrow> 'c list \<Rightarrow> (nat \<times> nat) list \<Rightarrow> nat list option" where
  "with_value ops cursors [] = Some []"
| "with_value ops cursors ((index, pos) # rest) = do {
     c \<leftarrow> nth_opt cursors index;
     is \<leftarrow> with_value ops cursors rest;
     Some (if mc_val_valid ops c then index # is else is)
   }"

definition init_val_heap ::
  "('c, 'k, 'v::linorder, 't, 'r) merge_cursor_ops \<Rightarrow> 'c list_merger \<Rightarrow> 'c list_merger option" where
  "init_val_heap ops m = do {
     let cmp = val_cmp ops (lm_cursors m);
     val_heap \<leftarrow> with_value ops (lm_cursors m) (lm_current_key m);
     heap \<leftarrow> heap_from_vec cmp val_heap;
     calls \<leftarrow> peek_all cmp heap;
     Some (m\<lparr>lm_current_val := positions calls, lm_val_heap := heap\<rparr>)
   }"

definition update_key_heap ::
  "('c, 'k::linorder, 'v::linorder, 't, 'r) merge_cursor_ops \<Rightarrow> 'c list_merger \<Rightarrow> 'c list_merger option" where
  "update_key_heap ops m = do {
     let cmp = key_cmp ops (lm_cursors m);
     heap \<leftarrow> sift_changed (\<lambda>i. map_option (mc_key_valid ops) (nth_opt (lm_cursors m) i)) cmp
               (rev (lm_current_key m)) (lm_key_heap m);
     calls \<leftarrow> peek_all cmp heap;
     init_val_heap ops (m\<lparr>lm_current_key := positions calls, lm_key_heap := heap\<rparr>)
   }"

definition update_val_heap ::
  "('c, 'k, 'v::linorder, 't, 'r) merge_cursor_ops \<Rightarrow> 'c list_merger \<Rightarrow> 'c list_merger option" where
  "update_val_heap ops m = do {
     let cmp = val_cmp ops (lm_cursors m);
     heap \<leftarrow> sift_changed (\<lambda>i. map_option (mc_val_valid ops) (nth_opt (lm_cursors m) i)) cmp
               (rev (lm_current_val m)) (lm_val_heap m);
     calls \<leftarrow> peek_all cmp heap;
     Some (m\<lparr>lm_current_val := positions calls, lm_val_heap := heap\<rparr>)
   }"

definition init_key_heap ::
  "('c, 'k::linorder, 'v::linorder, 't, 'r) merge_cursor_ops \<Rightarrow> 'c list_merger \<Rightarrow> 'c list_merger option" where
  "init_key_heap ops m = do {
     let cmp = key_cmp ops (lm_cursors m);
     let indexes = filter (\<lambda>i. mc_key_valid ops (lm_cursors m ! i)) [0..<length (lm_cursors m)];
     heap \<leftarrow> heap_from_vec cmp indexes;
     update_key_heap ops (m\<lparr>lm_key_heap := heap\<rparr>)
   }"

definition list_merger_new ::
  "('c, 'k::linorder, 'v::linorder, 't, 'r) merge_cursor_ops \<Rightarrow> 'c list \<Rightarrow> 'c list_merger option" where
  "list_merger_new ops cursors =
     init_key_heap ops \<lparr>lm_cursors = cursors, lm_current_key = [], lm_key_heap = [], lm_current_val = [],
       lm_val_heap = [], lm_any_values = False\<rparr>"

text \<open>\<open>copy_times\<close>: the times of all cursors at the least value, and the value.\<close>

fun gather_times ::
  "('c, 'k, 'v, 't, 'r) merge_cursor_ops \<Rightarrow> 'c list \<Rightarrow> (nat \<times> nat) list \<Rightarrow> ('t \<times> 'r) list option" where
  "gather_times ops cursors [] = Some []"
| "gather_times ops cursors ((index, pos) # rest) = do {
     c \<leftarrow> nth_opt cursors index;
     tds \<leftarrow> mc_times ops c;
     more \<leftarrow> gather_times ops cursors rest;
     Some (tds @ more)
   }"

definition push_time_diffs ::
  "('t \<times> 'r) list \<Rightarrow> ('k, 'v, 't, 'r) batch_builder \<Rightarrow> ('k, 'v, 't, 'r) batch_builder" where
  "push_time_diffs tds b = fold (\<lambda>(t, w). push_time_diff t w) tds b"

definition copy_times ::
  "('c, 'k, 'v, 't, 'r::comm_monoid_add) merge_cursor_ops \<Rightarrow> ('t, 'r) merge_factories \<Rightarrow> ('t \<Rightarrow> 't) option
    \<Rightarrow> 'c list_merger \<Rightarrow> ('k, 'v, 't, 'r) batch_builder \<Rightarrow> int
    \<Rightarrow> (bool \<times> ('k, 'v, 't, 'r) batch_builder \<times> int) option" where
  "copy_times ops mf map_func m b fuel = do {
     tds \<leftarrow> gather_times ops (lm_cursors m) (lm_current_val m);
     pushed \<leftarrow>
       (if mf_timed mf then
          (case map_func of
             Some f \<Rightarrow> do {
               td \<leftarrow> consolidate_from (mf_sort mf) (map (\<lambda>(t, w). (f t, w)) tds) 0;
               Some (if td = [] then None else Some (push_time_diffs td b))
             }
           | None \<Rightarrow>
               if length (lm_current_val m) > 1 then do {
                 td \<leftarrow> consolidate_from (mf_sort mf) tds 0;
                 Some (if td = [] then None else Some (push_time_diffs td b))
               } else Some (Some (push_time_diffs tds b)))
        else
          let tmp_weight = fold (\<lambda>(t, w) s. s + w) tds 0
          in Some (if tmp_weight = 0 then None else Some (push_time_diff (mf_default_time mf) tmp_weight b)));
     (case pushed of
        None \<Rightarrow> Some (False, b, fuel)
      | Some b' \<Rightarrow> do {
          (case lm_current_val m of
             [] \<Rightarrow> None
           | (index, _) # _ \<Rightarrow> do {
               c \<leftarrow> nth_opt (lm_cursors m) index;
               v \<leftarrow> mc_val ops c;
               Some (True, push_val v b', fuel - 1)
             })
        })
   }"

text \<open>The loops of \<open>work\<close>. The flag of a result says that the fuel ran out and \<open>work\<close> returns.\<close>

type_synonym ('c, 'k, 'v, 't, 'r) work_state =
  "bool \<times> 'c list_merger \<times> ('k, 'v, 't, 'r) batch_builder \<times> int"

fun step_each :: "('c \<Rightarrow> 'c option) \<Rightarrow> (nat \<times> nat) list \<Rightarrow> 'c list \<Rightarrow> 'c list option" where
  "step_each step [] cursors = Some cursors"
| "step_each step ((index, pos) # rest) cursors = do {
     c \<leftarrow> nth_opt cursors index;
     c' \<leftarrow> step c;
     step_each step rest (cursors[index := c'])
   }"

partial_function (option) val_heap_loop ::
  "('c, 'k::linorder, 'v::linorder, 't, 'r::comm_monoid_add) merge_cursor_ops \<Rightarrow> ('t, 'r) merge_factories
    \<Rightarrow> ('t \<Rightarrow> 't) option \<Rightarrow> 'c list_merger \<Rightarrow> ('k, 'v, 't, 'r) batch_builder \<Rightarrow> int
    \<Rightarrow> ('c, 'k, 'v, 't, 'r) work_state option" where
  "val_heap_loop ops mf map_func m b fuel =
     (if length (lm_val_heap m) > 1 then do {
        (pushed, b', fuel') \<leftarrow> copy_times ops mf map_func m b fuel;
        cursors \<leftarrow> step_each (mc_step_val ops) (lm_current_val m) (lm_cursors m);
        m' \<leftarrow> update_val_heap ops (m\<lparr>lm_any_values := pushed \<or> lm_any_values m, lm_cursors := cursors\<rparr>);
        if fuel' \<le> 0 then Some (True, m', b', fuel')
        else val_heap_loop ops mf map_func m' b' fuel'
      } else Some (False, m, b, fuel))"

partial_function (option) single_cursor_loop ::
  "('c, 'k::linorder, 'v::linorder, 't, 'r::comm_monoid_add) merge_cursor_ops \<Rightarrow> ('t, 'r) merge_factories
    \<Rightarrow> ('t \<Rightarrow> 't) option \<Rightarrow> nat \<Rightarrow> 'c list_merger \<Rightarrow> ('k, 'v, 't, 'r) batch_builder \<Rightarrow> int
    \<Rightarrow> ('c, 'k, 'v, 't, 'r) work_state option" where
  "single_cursor_loop ops mf map_func index m b fuel = do {
     (pushed, b', fuel') \<leftarrow> copy_times ops mf map_func m b fuel;
     cursors \<leftarrow> step_each (mc_step_val ops) [(index, 0)] (lm_cursors m);
     let m' = m\<lparr>lm_any_values := pushed \<or> lm_any_values m, lm_cursors := cursors\<rparr>;
     c \<leftarrow> nth_opt cursors index;
     if \<not> mc_val_valid ops c then Some (False, m'\<lparr>lm_val_heap := [], lm_current_val := []\<rparr>, b', fuel')
     else if fuel' \<le> 0 then Some (True, m', b', fuel')
     else single_cursor_loop ops mf map_func index m' b' fuel'
   }"

text \<open>Write the key if any of its values was written.\<close>

definition finish_key ::
  "('c, 'k, 'v, 't, 'r) merge_cursor_ops \<Rightarrow> 'c list_merger \<Rightarrow> ('k, 'v, 't, 'r) batch_builder
    \<Rightarrow> ('c list_merger \<times> ('k, 'v, 't, 'r) batch_builder) option" where
  "finish_key ops m b =
     (if lm_any_values m then
        (case lm_current_key m of
           [] \<Rightarrow> None
         | (index, _) # _ \<Rightarrow> do {
             c \<leftarrow> nth_opt (lm_cursors m) index;
             k \<leftarrow> mc_key ops c;
             Some (m\<lparr>lm_any_values := False\<rparr>, push_key k b)
           })
      else Some (m, b))"

partial_function (option) key_heap_loop ::
  "('c, 'k::linorder, 'v::linorder, 't, 'r::comm_monoid_add) merge_cursor_ops \<Rightarrow> ('t, 'r) merge_factories
    \<Rightarrow> ('t \<Rightarrow> 't) option \<Rightarrow> 'c list_merger \<Rightarrow> ('k, 'v, 't, 'r) batch_builder \<Rightarrow> int
    \<Rightarrow> ('c, 'k, 'v, 't, 'r) work_state option" where
  "key_heap_loop ops mf map_func m b fuel =
     (if length (lm_key_heap m) > 1 \<and> fuel > 0 then do {
        (ret, m1, b1, fuel1) \<leftarrow> val_heap_loop ops mf map_func m b fuel;
        if ret then Some (True, m1, b1, fuel1)
        else do {
          (ret, m2, b2, fuel2) \<leftarrow>
            (case lm_val_heap m1 of
               [] \<Rightarrow> Some (False, m1, b1, fuel1)
             | index # _ \<Rightarrow> single_cursor_loop ops mf map_func index m1 b1 fuel1);
          if ret then Some (True, m2, b2, fuel2)
          else do {
            (m3, b3) \<leftarrow> finish_key ops m2 b2;
            cursors \<leftarrow> step_each (mc_step_key ops) (lm_current_key m3) (lm_cursors m3);
            m4 \<leftarrow> update_key_heap ops (m3\<lparr>lm_cursors := cursors\<rparr>);
            key_heap_loop ops mf map_func m4 b3 fuel2
          }
        }
      } else Some (False, m, b, fuel))"

partial_function (option) last_values_loop ::
  "('c, 'k::linorder, 'v::linorder, 't, 'r::comm_monoid_add) merge_cursor_ops \<Rightarrow> ('t, 'r) merge_factories
    \<Rightarrow> ('t \<Rightarrow> 't) option \<Rightarrow> nat \<Rightarrow> 'c list_merger \<Rightarrow> ('k, 'v, 't, 'r) batch_builder \<Rightarrow> int
    \<Rightarrow> ('c, 'k, 'v, 't, 'r) work_state option" where
  "last_values_loop ops mf map_func index m b fuel = do {
     c \<leftarrow> nth_opt (lm_cursors m) index;
     if mc_val_valid ops c then do {
       (pushed, b', fuel') \<leftarrow> copy_times ops mf map_func m b fuel;
       cursors \<leftarrow> step_each (mc_step_val ops) [(index, 0)] (lm_cursors m);
       let m' = m\<lparr>lm_any_values := pushed \<or> lm_any_values m, lm_cursors := cursors\<rparr>;
       if fuel' \<le> 0 then Some (True, m', b', fuel')
       else last_values_loop ops mf map_func index m' b' fuel'
     } else Some (False, m, b, fuel)
   }"

partial_function (option) last_cursor_loop ::
  "('c, 'k::linorder, 'v::linorder, 't, 'r::comm_monoid_add) merge_cursor_ops \<Rightarrow> ('t, 'r) merge_factories
    \<Rightarrow> ('t \<Rightarrow> 't) option \<Rightarrow> nat \<Rightarrow> 'c list_merger \<Rightarrow> ('k, 'v, 't, 'r) batch_builder \<Rightarrow> int
    \<Rightarrow> ('c, 'k, 'v, 't, 'r) work_state option" where
  "last_cursor_loop ops mf map_func index m b fuel =
     (if fuel > 0 then do {
        (ret, m1, b1, fuel1) \<leftarrow> last_values_loop ops mf map_func index m b fuel;
        if ret then Some (True, m1, b1, fuel1)
        else do {
          (m2, b2) \<leftarrow> finish_key ops m1 b1;
          cursors \<leftarrow> step_each (mc_step_key ops) [(index, 0)] (lm_cursors m2);
          let m3 = m2\<lparr>lm_cursors := cursors\<rparr>;
          c \<leftarrow> nth_opt cursors index;
          if \<not> mc_key_valid ops c then Some (False, m3\<lparr>lm_current_key := [], lm_key_heap := []\<rparr>, b2, fuel1)
          else last_cursor_loop ops mf map_func index m3 b2 fuel1
        }
      } else Some (True, m, b, fuel))"

definition time_map_func :: "'t timestamp \<Rightarrow> 't \<Rightarrow> ('t \<Rightarrow> 't) option" where
  "time_map_func ts frontier = (if frontier = ts_minimum ts then None else Some (\<lambda>t. ts_join ts t frontier))"

definition work ::
  "('c, 'k::linorder, 'v::linorder, 't, 'r::comm_monoid_add) merge_cursor_ops \<Rightarrow> ('t, 'r) merge_factories
    \<Rightarrow> 't timestamp \<Rightarrow> 'c list_merger \<Rightarrow> ('k, 'v, 't, 'r) batch_builder \<Rightarrow> 't \<Rightarrow> int
    \<Rightarrow> ('c list_merger \<times> ('k, 'v, 't, 'r) batch_builder \<times> int) option" where
  "work ops mf ts m b frontier fuel = do {
     (ret, m1, b1, fuel1) \<leftarrow> key_heap_loop ops mf (time_map_func ts frontier) m b fuel;
     if ret then Some (m1, b1, fuel1)
     else
       (case lm_current_key m1 of
          [] \<Rightarrow> Some (m1, b1, fuel1)
        | (index, _) # _ \<Rightarrow> do {
            (_, m2, b2, fuel2) \<leftarrow> last_cursor_loop ops mf (time_map_func ts frontier) index m1 b1 fuel1;
            Some (m2, b2, fuel2)
          })
   }"

definition list_merge ::
  "('c, 'k::linorder, 'v::linorder, 't, 'r::comm_monoid_add) merge_cursor_ops \<Rightarrow> ('t, 'r) merge_factories
    \<Rightarrow> 't timestamp \<Rightarrow> ('k, 'v, 't, 'r) batch_builder \<Rightarrow> 'c list \<Rightarrow> ('k, 'v, 't, 'r) rows option" where
  "list_merge ops mf ts builder cursors = do {
     merger \<leftarrow> list_merger_new ops cursors;
     (_, builder', fuel) \<leftarrow> work ops mf ts merger builder (mf_default_time mf) (2 ^ 63 - 1);
     if fuel > 0 then Some (builder_done builder') else None
   }"

text \<open>Calls of \<open>work\<close> with the given amounts of fuel, as the background thread makes them.\<close>

fun work_calls ::
  "('c, 'k::linorder, 'v::linorder, 't, 'r::comm_monoid_add) merge_cursor_ops \<Rightarrow> ('t, 'r) merge_factories
    \<Rightarrow> 't timestamp \<Rightarrow> 't \<Rightarrow> int list \<Rightarrow> 'c list_merger \<Rightarrow> ('k, 'v, 't, 'r) batch_builder
    \<Rightarrow> ('c list_merger \<times> ('k, 'v, 't, 'r) batch_builder) option" where
  "work_calls ops mf ts frontier [] m b = Some (m, b)"
| "work_calls ops mf ts frontier (fuel # fuels) m b = do {
     (m', b', _) \<leftarrow> work ops mf ts m b frontier fuel;
     work_calls ops mf ts frontier fuels m' b'
   }"


section \<open>Heaps of cursors\<close>

text \<open>
  \<open>heap_state key S heap cur\<close>: the heap holds the indexes in \<open>S\<close> in heap order, and \<open>cur\<close> lists its maximal
  elements with their positions, as \<open>peek_all\<close> finds them.
\<close>

definition tops :: "(nat \<Rightarrow> 'k) \<Rightarrow> nat list \<Rightarrow> (nat \<times> nat) list" where
  "tops key heap = map (\<lambda>pos. (heap ! pos, pos)) (filter (\<lambda>pos. key (heap ! pos) = key (heap ! 0)) [0..<length heap])"

definition heap_state :: "(nat \<Rightarrow> 'k::linorder) \<Rightarrow> nat set \<Rightarrow> nat list \<Rightarrow> (nat \<times> nat) list \<Rightarrow> bool" where
  "heap_state key S heap cur \<longleftrightarrow> distinct heap \<and> set heap = S \<and> is_heap key heap \<and> cur = tops key heap"

lemma tops_Nil [simp]: "tops key [] = []"
  by (simp add: tops_def)

lemma tops_distinct: "distinct heap \<Longrightarrow> distinct (map fst (tops key heap))"
  by (auto simp: tops_def distinct_map inj_on_def comp_def nth_eq_iff_index_eq)

lemma tops_mem: "(i, pos) \<in> set (tops key heap) \<longleftrightarrow> pos < length heap \<and> i = heap ! pos \<and> key i = key (heap ! 0)"
  by (auto simp: tops_def)

lemma tops_Nil_iff: "tops key heap = [] \<longleftrightarrow> heap = []"
proof (cases heap)
  case (Cons x xs)
  then have "(x, 0) \<in> set (tops key heap)" by (simp add: tops_mem)
  then show ?thesis using Cons by auto
qed simp

lemma tops_positions_sorted: "sorted_wrt (<) (map snd (tops key heap))"
  by (simp add: tops_def comp_def sorted_wrt_filter)

lemma tops_one: "tops key [i] = [(i, 0)]"
  by (simp add: tops_def)

lemma heap_state_cur:
  assumes "heap_state key S heap cur"
  shows "fst ` set cur = {i \<in> S. \<forall>j \<in> S. key j \<le> key i}"
proof -
  have h: "is_heap key heap" "set heap = S" "cur = tops key heap" using assms by (auto simp: heap_state_def)
  have top: "\<forall>j \<in> S. key j \<le> key (heap ! 0)"
    using key_heap.heap_root_greatest [OF h(1)] h(2) by (auto simp: in_set_conv_nth)
  have max_iff: "key i = key (heap ! 0) \<longleftrightarrow> (\<forall>j \<in> S. key j \<le> key i)" if "i \<in> S" for i
  proof -
    have "heap ! 0 \<in> S" using that h(2) by (cases heap) auto
    then show ?thesis using top that by (metis antisym)
  qed
  have "fst ` set cur = {i \<in> set heap. key i = key (heap ! 0)}"
  proof (intro equalityI subsetI)
    fix i assume "i \<in> fst ` set cur"
    then show "i \<in> {i \<in> set heap. key i = key (heap ! 0)}" by (auto simp: h(3) tops_mem)
  next
    fix i assume i: "i \<in> {i \<in> set heap. key i = key (heap ! 0)}"
    then obtain pos where "pos < length heap" "i = heap ! pos" by (auto simp: in_set_conv_nth)
    then have "(i, pos) \<in> set cur" using i by (simp add: h(3) tops_mem)
    then show "i \<in> fst ` set cur" by force
  qed
  then show ?thesis using max_iff h(2) by auto
qed

lemma set_drop_nthE:
  assumes "y \<in> set (drop n xs)"
  obtains i where "n \<le> i" and "i < length xs" and "y = xs ! i"
proof -
  obtain j where "j < length (drop n xs)" "y = drop n xs ! j" using assms by (auto simp: in_set_conv_nth)
  then show thesis by (intro that [of "n + j"]) auto
qed

context heap_order
begin

lemma sift_changed_spec:
  assumes "sorted_wrt (>) (map snd ps)" and "\<forall>d \<in> snd ` set ps. 0 < d \<longrightarrow> par d \<in> snd ` set ps"
    and "heap_edges key {} (snd ` set ps) (length heap) heap"
    and "\<forall>i < length heap. i \<notin> snd ` set ps \<longrightarrow> live (heap ! i)"
    and "\<forall>(x, d) \<in> set ps. d < length heap \<and> heap ! d = x \<and> valid x = Some (live x)"
  shows "\<exists>zs. sift_changed valid cmp ps heap = Some zs \<and> mset zs = filter_mset live (mset heap) \<and> is_heap key zs"
  using assms
proof (induction ps arbitrary: heap)
  case Nil
  then have "filter live heap = heap" by (intro filter_True) (auto simp: in_set_conv_nth)
  then have "filter_mset live (mset heap) = mset heap" by (metis mset_filter)
  then show ?case using Nil.prems(3) by simp
next
  case (Cons q ps)
  obtain x p where q: "q = (x, p)" by (cases q)
  let ?D = "snd ` set ps"
  have D: "\<forall>d \<in> ?D. d < p" using Cons.prems(1) q by auto
  have x: "p < length heap" "heap ! p = x" "valid x = Some (live x)" using Cons.prems(5) q by auto
  have closed: "0 < d \<Longrightarrow> par d \<in> ?D" if "d = p \<or> d \<in> ?D" for d
  proof -
    assume d: "0 < d"
    have "par d < d" "d \<le> p" using d that D by (auto intro: par_less)
    moreover have "par d \<in> insert p ?D" using Cons.prems(2) that d q by auto
    ultimately show "par d \<in> ?D" by auto
  qed
  have e: "heap_edges key {} (insert p ?D) (length heap) heap" using Cons.prems(3) q by simp
  have g: "gap_ok key ?D (length heap) heap p" using closed [of p] by (auto simp: gap_ok_def)
  have lv: "live_from (Suc p) heap"
  proof
    fix y assume "y \<in> set (drop (Suc p) heap)"
    then obtain i where i: "i < length heap" "p < i" "y = heap ! i"
      by (elim set_drop_nthE) simp
    then have "i \<notin> snd ` set (q # ps)" using D q by auto
    then show "live y" using Cons.prems(4) i by blast
  qed
  obtain hs where hs: "(if live x then do { r \<leftarrow> sift_down cmp heap p; Some (snd r) } else heap_remove cmp heap p) = Some hs"
    "p \<le> length hs" "\<forall>i < p. hs ! i = heap ! i" "live_from p hs" "heap_edges key {} ?D (length hs) hs"
    "filter_mset live (mset hs) = filter_mset live (mset heap)"
  proof (cases "live x")
    case True
    have lvp: "live_from p heap" using lv True x(1,2) by (simp add: Cons_nth_drop_Suc [symmetric])
    obtain r zs where z: "sift_down cmp heap p = Some (r, zs)" "permutes p (length heap) heap zs"
      "heap_edges key {} ?D (length heap) zs"
      using sift_down_range_spec [OF x(1) order_refl D lvp e g] by (auto simp: sift_down_def)
    show thesis
    proof (rule that)
      show "(if live x then do { r \<leftarrow> sift_down cmp heap p; Some (snd r) } else heap_remove cmp heap p) = Some zs"
        using True z(1) by simp
      show "live_from p zs" by (rule permutes_all [where P = live, OF z(2) lvp])
      show "heap_edges key {} ?D (length zs) zs" using z(3) permutes_length [OF z(2)] by simp
    qed (use z(2) x(1) in \<open>auto simp: permutes_def\<close>)
  next
    case False
    have up: "0 < p \<and> par p \<notin> ?D \<longrightarrow> key (last heap) \<le> key (heap ! par p)" using closed [of p] by auto
    obtain zs where z: "heap_remove cmp heap p = Some zs" "length zs = length heap - 1" "take p zs = take p heap"
      "add_mset (heap ! p) (mset zs) = mset heap" "heap_edges key {} ?D (length zs) zs"
      using heap_remove_spec [OF x(1) D lv e g up] by blast
    have "mset (take p heap) + mset (drop p zs) = mset zs" using z(3) by (metis append_take_drop_id mset_append)
    moreover have "mset (take p heap) + add_mset (heap ! p) (mset (drop (Suc p) heap)) = mset heap"
      using x(1) by (metis Cons_nth_drop_Suc append_take_drop_id mset.simps(2) mset_append)
    ultimately have "mset (drop p zs) = mset (drop (Suc p) heap)"
      using z(4) by (metis add_mset_add_single add_left_cancel union_mset_add_mset_right add_mset_add_mset_same_iff)
    then have "live_from p zs" using lv by (metis set_mset_mset)
    moreover have "\<forall>i < p. zs ! i = heap ! i" using z(3) by (metis nth_take)
    moreover have "filter_mset live (mset zs) = filter_mset live (mset heap)"
      using arg_cong [OF z(4), of "filter_mset live"] False x(2) by simp
    ultimately show thesis using that [of zs] False z x(1) by simp
  qed
  have "\<exists>zs. sift_changed valid cmp ps hs = Some zs \<and> mset zs = filter_mset live (mset hs) \<and> is_heap key zs"
  proof (rule Cons.IH)
    show "sorted_wrt (>) (map snd ps)" using Cons.prems(1) by simp
    show "\<forall>d \<in> ?D. 0 < d \<longrightarrow> par d \<in> ?D" using closed by blast
    show "heap_edges key {} ?D (length hs) hs" by (rule hs(5))
    show "\<forall>i < length hs. i \<notin> ?D \<longrightarrow> live (hs ! i)"
    proof (intro allI impI)
      fix i assume i: "i < length hs" "i \<notin> ?D"
      show "live (hs ! i)"
      proof (cases "i < p")
        case True
        then have "i \<notin> snd ` set (q # ps)" using i q by simp
        then show ?thesis using True hs(3) Cons.prems(4) x(1) by auto
      next
        case False
        then show ?thesis using all_drop_nth [where P = live, OF hs(4)] i by simp
      qed
    qed
    show "\<forall>(y, d) \<in> set ps. d < length hs \<and> hs ! d = y \<and> valid y = Some (live y)"
      using Cons.prems(5) D hs(2,3) by force
  qed
  then show ?case using hs(1,6) x(3) q by simp
qed

end

lemma positions_tops:
  "positions (map (\<lambda>i. (i, heap ! i)) (filter (\<lambda>i. key (heap ! i) = key (heap ! 0)) [0..<length heap])) = tops key heap"
  by (simp add: positions_def tops_def)

text \<open>
  The cursors at the maximum move on or run out, the others stay: going through the old positions in
  reverse restores the heap, and \<open>peek_all\<close> finds the new maximum.
\<close>

lemma heap_state_update:
  assumes st: "heap_state key S heap cur" and ho: "heap_order cmp key' live"
    and same: "\<forall>i \<in> S. i \<notin> fst ` set cur \<longrightarrow> key' i = key i \<and> live i"
    and valid: "\<forall>i \<in> fst ` set cur. valid i = Some (live i)"
  shows "\<exists>heap' calls. sift_changed valid cmp (rev cur) heap = Some heap' \<and> peek_all cmp heap' = Some calls \<and>
    heap_state key' {i \<in> S. live i} heap' (positions calls)"
proof -
  have h: "is_heap key heap" "distinct heap" "set heap = S" "cur = tops key heap"
    using st by (auto simp: heap_state_def)
  let ?D = "snd ` set cur" and ?n = "length heap"
  have D: "d \<in> ?D \<longleftrightarrow> d < ?n \<and> key (heap ! d) = key (heap ! 0)" for d
    by (auto simp: h(4) tops_def image_image)
  have root: "key (heap ! i) \<le> key (heap ! 0)" if "i < ?n" for i
    by (rule key_heap.heap_root_greatest [OF h(1) that])
  have edge: "key (heap ! i) \<le> key (heap ! par i)" if "0 < i" "i < ?n" for i
    using heap_edgesD [OF h(1), of i] that by simp
  have closed: "par d \<in> ?D" if "d \<in> ?D" "0 < d" for d
  proof -
    have "d < ?n" "par d < d" "key (heap ! d) = key (heap ! 0)" using that D by (auto intro: par_less)
    then show ?thesis using edge [of d] root [of "par d"] that(2) D [of "par d"] by auto
  qed
  have out: "heap ! i \<notin> fst ` set cur" if "i < ?n" "i \<notin> ?D" for i
    using that D by (auto simp: h(4) tops_mem)
  have off: "key' (heap ! i) = key (heap ! i) \<and> live (heap ! i)" if "i < ?n" "i \<notin> ?D" for i
    using same out [OF that] nth_mem [OF that(1)] h(3) by blast
  have "heap_edges key' {} ?D ?n heap"
    unfolding heap_edges_def
  proof (intro allI impI)
    fix i assume i: "0 < i \<and> i < ?n \<and> i \<notin> {} \<and> par i \<notin> ?D"
    then have "i \<notin> ?D" "par i < ?n" using closed [of i] par_less [of i] by auto
    then show "key' (heap ! i) \<le> key' (heap ! par i)" using off [of i] off [of "par i"] edge [of i] i by simp
  qed
  moreover have "sorted_wrt (>) (map snd (rev cur))"
    using tops_positions_sorted [of key heap] h(4) by (simp add: rev_map [symmetric] sorted_wrt_rev)
  moreover have "\<forall>(x, d) \<in> set (rev cur). d < ?n \<and> heap ! d = x \<and> valid x = Some (live x)"
  proof (intro ballI, clarify)
    fix x d assume m: "(x, d) \<in> set (rev cur)"
    then have "x \<in> fst ` set cur" by force
    then show "d < ?n \<and> heap ! d = x \<and> valid x = Some (live x)" using m valid by (auto simp: h(4) tops_mem)
  qed
  ultimately obtain zs where z: "sift_changed valid cmp (rev cur) heap = Some zs"
    "mset zs = filter_mset live (mset heap)" "is_heap key' zs"
    using heap_order.sift_changed_spec [OF ho, of "rev cur" heap valid] closed off by auto
  have s: "set zs = {i \<in> S. live i}" using z(2) h(3) by (metis set_mset_filter set_mset_mset)
  have d: "distinct zs" using z(2) h(2) by (metis distinct_filter mset_eq_imp_distinct_iff mset_filter)
  have "peek_all cmp zs =
      Some (map (\<lambda>i. (i, zs ! i)) (filter (\<lambda>i. key' (zs ! i) = key' (zs ! 0)) [0..<length zs]))"
    using s by (intro heap_order.peek_all_spec [OF ho z(3)]) auto
  then show ?thesis using z(1,3) s d by (simp add: heap_state_def positions_tops)
qed

lemma heap_state_build:
  assumes "heap_order cmp key live" and "distinct xs" and "\<forall>x \<in> set xs. live x"
  shows "\<exists>heap calls. heap_from_vec cmp xs = Some heap \<and> peek_all cmp heap = Some calls \<and>
    heap_state key (set xs) heap (positions calls)"
proof -
  obtain zs where z: "heap_from_vec cmp xs = Some zs" "mset zs = mset xs" "is_heap key zs"
    using heap_order.rebuild_spec [OF assms(1,3)] by (auto simp: heap_from_vec_def)
  have s: "set zs = set xs" "distinct zs" using z(2) assms(2) by (metis set_mset_mset, metis mset_eq_imp_distinct_iff)
  have "peek_all cmp zs =
      Some (map (\<lambda>i. (i, zs ! i)) (filter (\<lambda>i. key (zs ! i) = key (zs ! 0)) [0..<length zs]))"
    using s assms(3) by (intro heap_order.peek_all_spec [OF assms(1) z(3)]) auto
  then show ?thesis using z(1,3) s by (simp add: heap_state_def positions_tops)
qed

section \<open>Weights of rows\<close>

text \<open>
  The weight of a tuple in rows whose times are mapped by \<open>g\<close>. Rows are in order when the keys and the
  values of each key increase strictly and every value has a nonempty consolidated list of times; a
  cursor may have used up the values of its first row.
\<close>

definition times_weight :: "('t \<Rightarrow> 't) \<Rightarrow> 't \<Rightarrow> ('t \<times> ('r::comm_monoid_add)) list \<Rightarrow> 'r" where
  "times_weight g t tds = weight_of t (map (\<lambda>(t, w). (g t, w)) tds)"

fun vals_weight :: "('t \<Rightarrow> 't) \<Rightarrow> 'v \<Rightarrow> 't \<Rightarrow> ('v \<times> ('t \<times> ('r::comm_monoid_add)) list) list \<Rightarrow> 'r" where
  "vals_weight g v t [] = 0"
| "vals_weight g v t ((v', tds) # vs) = (if v' = v then times_weight g t tds else 0) + vals_weight g v t vs"

fun rows_weight :: "('t \<Rightarrow> 't) \<Rightarrow> 'k \<Rightarrow> 'v \<Rightarrow> 't \<Rightarrow> ('k, 'v, 't, 'r::comm_monoid_add) rows \<Rightarrow> 'r" where
  "rows_weight g k v t [] = 0"
| "rows_weight g k v t ((k', vs) # rest) = (if k' = k then vals_weight g v t vs else 0) + rows_weight g k v t rest"

definition vals_ok :: "(('v::linorder) \<times> (('t::linorder) \<times> ('r::comm_monoid_add)) list) list \<Rightarrow> bool" where
  "vals_ok vs \<longleftrightarrow> sorted_wrt (<) (map fst vs) \<and> (\<forall>x \<in> set vs. snd x \<noteq> [] \<and> consolidated (snd x))"

definition rows_mid :: "('k::linorder, 'v::linorder, 't::linorder, 'r::comm_monoid_add) rows \<Rightarrow> bool" where
  "rows_mid rs \<longleftrightarrow> sorted_wrt (<) (map fst rs) \<and> (\<forall>x \<in> set rs. vals_ok (snd x)) \<and> (\<forall>x \<in> set (tl rs). snd x \<noteq> [])"

definition rows_ok :: "('k::linorder, 'v::linorder, 't::linorder, 'r::comm_monoid_add) rows \<Rightarrow> bool" where
  "rows_ok rs \<longleftrightarrow> rows_mid rs \<and> (\<forall>x \<in> set rs. snd x \<noteq> [])"

text \<open>The number of keys and values.\<close>

definition rows_size :: "('k, 'v, 't, 'r) rows \<Rightarrow> nat" where
  "rows_size rs = length rs + (\<Sum>x \<leftarrow> rs. length (snd x))"

lemma vals_weight_append: "vals_weight g v t (xs @ ys) = vals_weight g v t xs + vals_weight g v t ys"
  by (induction xs) (auto simp: add.assoc)

lemma rows_weight_append: "rows_weight g k v t (xs @ ys) = rows_weight g k v t xs + rows_weight g k v t ys"
  by (induction xs) (auto simp: add.assoc)

lemma times_weight_append: "times_weight g t (xs @ ys) = times_weight g t xs + times_weight g t ys"
  by (simp add: times_weight_def weight_of_append)

lemma vals_ok_Cons: "vals_ok ((v, tds) # vs) \<longleftrightarrow> tds \<noteq> [] \<and> consolidated tds \<and> (\<forall>x \<in> set vs. v < fst x) \<and> vals_ok vs"
  by (auto simp: vals_ok_def)

lemma vals_ok_snoc: "vals_ok (vs @ [(v, tds)]) \<longleftrightarrow> vals_ok vs \<and> tds \<noteq> [] \<and> consolidated tds \<and> (\<forall>x \<in> set vs. fst x < v)"
  by (auto simp: vals_ok_def sorted_wrt_append)

lemma rows_mid_Cons:
  "rows_mid ((k, vs) # rest) \<longleftrightarrow> vals_ok vs \<and> rows_ok rest \<and> (\<forall>x \<in> set rest. k < fst x)"
  by (cases rest) (auto simp: rows_mid_def rows_ok_def)

lemma rows_ok_mid: "rows_ok rs \<Longrightarrow> rows_mid rs"
  by (simp add: rows_ok_def)

lemma rows_ok_snoc: "rows_ok (rs @ [(k, vs)]) \<longleftrightarrow> rows_ok rs \<and> vs \<noteq> [] \<and> vals_ok vs \<and> (\<forall>x \<in> set rs. fst x < k)"
  by (cases rs) (auto simp: rows_ok_def rows_mid_def sorted_wrt_append)

lemma push_time_diffs_eq: "push_time_diffs tds b = b\<lparr>bb_diffs := bb_diffs b @ tds\<rparr>"
  by (induction tds arbitrary: b) (auto simp: push_time_diffs_def push_time_diff_def)

lemma weight_of_constant:
  "weight_of t (map (\<lambda>(_, w). (c, w)) tds) = (if t = c then sum_list (map snd tds) else 0)"
  by (induction tds) (auto simp: weight_simps)

text \<open>Consuming the first value of a row.\<close>

fun val_step :: "('k, 'v, 't, 'r) rows \<Rightarrow> ('k, 'v, 't, 'r) rows" where
  "val_step ((k, x # vs) # rest) = (k, vs) # rest"
| "val_step rs = rs"

section \<open>One step of a merge\<close>

definition time_map :: "('t, 'r) merge_factories \<Rightarrow> ('t \<Rightarrow> 't) option \<Rightarrow> 't \<Rightarrow> 't" where
  "time_map mf map_func =
     (if mf_timed mf then (case map_func of Some f \<Rightarrow> f | None \<Rightarrow> id) else (\<lambda>_. mf_default_time mf))"

locale merging = merge_cursor ops rows ok
  for ops :: "('c, 'k::linorder, 'v::linorder, 't::linorder, 'r::comm_monoid_add) merge_cursor_ops"
    and rows :: "'c \<Rightarrow> ('k, 'v, 't, 'r) rows" and ok :: "'c \<Rightarrow> bool" +
  fixes mf :: "('t, 'r) merge_factories" and map_func :: "('t \<Rightarrow> 't) option"
  assumes sort: "key_sort (mf_sort mf)"
begin

abbreviation g :: "'t \<Rightarrow> 't" where
  "g \<equiv> time_map mf map_func"

text \<open>The cursors in \<open>cv\<close> are all at the key \<open>k\<close> and the value \<open>v\<close>.\<close>

definition at_value :: "'c list \<Rightarrow> (nat \<times> nat) list \<Rightarrow> 'k \<Rightarrow> 'v \<Rightarrow> bool" where
  "at_value cs cv k v \<longleftrightarrow> distinct (map fst cv) \<and> cv \<noteq> [] \<and>
     (\<forall>i \<in> fst ` set cv. i < length cs \<and> ok (cs ! i) \<and> (\<exists>tds vs rest. rows (cs ! i) = (k, (v, tds) # vs) # rest))"

definition head_times :: "'c list \<Rightarrow> nat \<Rightarrow> ('t \<times> 'r) list" where
  "head_times cs i = snd (hd (snd (hd (rows (cs ! i)))))"

lemma gather_times_eq:
  assumes "\<forall>i \<in> fst ` set cv. i < length cs \<and> ok (cs ! i) \<and> (\<exists>tds vs rest. rows (cs ! i) = (k, (v, tds) # vs) # rest)"
  shows "gather_times ops cs cv = Some (concat (map (head_times cs) (map fst cv)))"
  using assms
proof (induction cv)
  case (Cons x cv)
  obtain i p where x: "x = (i, p)" by (cases x)
  obtain tds vs rest where r: "i < length cs" "ok (cs ! i)" "rows (cs ! i) = (k, (v, tds) # vs) # rest"
    using Cons.prems x by auto
  then show ?case using Cons x times [OF r(2,3)] by (simp add: nth_opt_def head_times_def)
qed simp

lemma times_weight_concat:
  "times_weight g t (concat (map f is)) = (\<Sum>i \<leftarrow> is. times_weight g t (f i))"
  by (induction "is") (auto simp: times_weight_append times_weight_def weight_simps)

text \<open>
  \<open>copy_times\<close> pushes the sum of the times of its cursors, if it is not zero, in consolidated form; a
  single list of times without a map is passed on as it is.
\<close>

lemma copy_times_spec:
  assumes at: "at_value (lm_cursors m) (lm_current_val m) k v" and b: "bb_diffs b = []"
    and wf: "\<forall>i \<in> fst ` set (lm_current_val m). head_times (lm_cursors m) i \<noteq> [] \<and> consolidated (head_times (lm_cursors m) i)"
  shows "\<exists>td. copy_times ops mf map_func m b fuel =
      Some (td \<noteq> [], if td = [] then b else b\<lparr>bb_vals := bb_vals b @ [(v, td)]\<rparr>, if td = [] then fuel else fuel - 1) \<and>
    consolidated td \<and>
    (\<forall>t. weight_of t td = (\<Sum>i \<in> fst ` set (lm_current_val m). times_weight g t (head_times (lm_cursors m) i)))"
proof -
  let ?cs = "lm_cursors m" and ?cv = "lm_current_val m"
  let ?tds = "concat (map (head_times ?cs) (map fst ?cv))"
  obtain i p cv' where cv: "?cv = (i, p) # cv'" using at by (cases ?cv) (auto simp: at_value_def)
  obtain tds vs rest where r: "i < length ?cs" "ok (?cs ! i)" "rows (?cs ! i) = (k, (v, tds) # vs) # rest"
    using at cv by (auto simp: at_value_def)
  have gt: "gather_times ops ?cs ?cv = Some ?tds" using at by (intro gather_times_eq [where k = k and v = v]) (simp add: at_value_def)
  have first: "nth_opt ?cs i = Some (?cs ! i)" "mc_val ops (?cs ! i) = Some v"
    using r val [OF r(2,3)] by (simp_all add: nth_opt_def)
  have sum: "times_weight g t ?tds = (\<Sum>i \<in> fst ` set ?cv. times_weight g t (head_times ?cs i))" for t
    using at sum.distinct_set_conv_list [of "map fst ?cv" "\<lambda>i. times_weight g t (head_times ?cs i)"]
    by (simp add: times_weight_concat at_value_def comp_def)
  obtain td where td: "copy_times ops mf map_func m b fuel =
      Some (td \<noteq> [], if td = [] then b else b\<lparr>bb_vals := bb_vals b @ [(v, td)]\<rparr>, if td = [] then fuel else fuel - 1)"
    "consolidated td" "\<forall>t. weight_of t td = times_weight g t ?tds"
  proof (cases "mf_timed mf")
    case False
    let ?w = "sum_list (map snd ?tds)"
    have "fold (\<lambda>(t, w) s. s + w) ?tds 0 = ?w"
      using fold_add_weights [of ?tds 0] by (simp add: case_prod_unfold)
    then have "copy_times ops mf map_func m b fuel =
        (if ?w = 0 then Some (False, b, fuel)
         else Some (True, b\<lparr>bb_vals := bb_vals b @ [(v, [(mf_default_time mf, ?w)])]\<rparr>, fuel - 1))"
      using False gt first b cv by (simp add: copy_times_def push_time_diff_def push_val_def Let_def)
    moreover have "times_weight g t ?tds = (if t = mf_default_time mf then ?w else 0)" for t
      using False by (simp add: time_map_def times_weight_def weight_of_constant)
    ultimately show thesis
      by (intro that [of "if ?w = 0 then [] else [(mf_default_time mf, ?w)]"]) (auto simp: consolidated_def weight_simps)
  next
    case timed: True
    have push: "push_val v (push_time_diffs td b) = b\<lparr>bb_vals := bb_vals b @ [(v, td)]\<rparr>" for td
      using b by (simp add: push_time_diffs_eq push_val_def)
    show thesis
    proof (cases "map_func = None \<and> cv' = []")
      case True
      then have "?tds = head_times ?cs i" "g = id" using cv timed by (auto simp: time_map_def)
      moreover have "copy_times ops mf map_func m b fuel = Some (True, push_val v (push_time_diffs ?tds b), fuel - 1)"
        using True timed gt first cv by (simp add: copy_times_def)
      ultimately show thesis
        using wf cv push True by (intro that [of ?tds]) (auto simp: times_weight_def)
    next
      case False
      let ?c = "consolidate (mf_sort mf) (map (\<lambda>(t, w). (g t, w)) ?tds)"
      have "copy_times ops mf map_func m b fuel =
          (if ?c = [] then Some (False, b, fuel) else Some (True, push_val v (push_time_diffs ?c b), fuel - 1))"
        using False timed gt first cv
        by (auto simp: copy_times_def time_map_def consolidate_from_eq [OF sort] split: option.splits)
      then show thesis
        using push consolidator.cons_canonical [OF consolidate_consolidator [OF sort]]
          consolidator.cons_weights [OF consolidate_consolidator [OF sort]]
        by (intro that [of ?c]) (auto simp: times_weight_def)
    qed
  qed
  then show ?thesis using sum by auto
qed

text \<open>
  The state of a merge: which cursors are not exhausted, their current key and the values left for it,
  and how much is left.
\<close>

definition alive :: "'c list \<Rightarrow> nat \<Rightarrow> bool" where
  "alive cs i \<longleftrightarrow> i < length cs \<and> rows (cs ! i) \<noteq> []"

definition cur_key :: "'c list \<Rightarrow> nat \<Rightarrow> 'k" where
  "cur_key cs i = fst (hd (rows (cs ! i)))"

definition cur_vals :: "'c list \<Rightarrow> nat \<Rightarrow> ('v \<times> ('t \<times> 'r) list) list" where
  "cur_vals cs i = snd (hd (rows (cs ! i)))"

definition cursors_ok :: "'c list \<Rightarrow> bool" where
  "cursors_ok cs \<longleftrightarrow> (\<forall>i < length cs. ok (cs ! i) \<and> rows_mid (rows (cs ! i)))"

definition remaining :: "'c list \<Rightarrow> 'k \<Rightarrow> 'v \<Rightarrow> 't \<Rightarrow> 'r" where
  "remaining cs k v t = (\<Sum>i < length cs. rows_weight g k v t (rows (cs ! i)))"

definition left_size :: "'c list \<Rightarrow> nat" where
  "left_size cs = (\<Sum>i < length cs. rows_size (rows (cs ! i)))"

text \<open>
  What has been written: rows in order before the current key, and values of the current key in order
  before the values that are left for it.
\<close>

definition written_ok :: "'c list \<Rightarrow> nat set \<Rightarrow> bool \<Rightarrow> ('k, 'v, 't, 'r) batch_builder \<Rightarrow> bool" where
  "written_ok cs K any b \<longleftrightarrow> bb_diffs b = [] \<and> any = (bb_vals b \<noteq> []) \<and> rows_ok (bb_rows b) \<and> vals_ok (bb_vals b) \<and>
     (\<forall>i. alive cs i \<longrightarrow> (\<forall>x \<in> set (bb_rows b). fst x < cur_key cs i)) \<and>
     (\<forall>i \<in> K. \<forall>x \<in> set (bb_vals b). \<forall>y \<in> set (cur_vals cs i). fst x < fst y)"

definition written :: "'k \<Rightarrow> ('k, 'v, 't, 'r) batch_builder \<Rightarrow> 'k \<Rightarrow> 'v \<Rightarrow> 't \<Rightarrow> 'r" where
  "written k0 b k v t = rows_weight id k v t (bb_rows b) + (if k0 = k then vals_weight id v t (bb_vals b) else 0)"

lemma alive_rows:
  "alive cs i \<Longrightarrow> rows (cs ! i) = (cur_key cs i, cur_vals cs i) # tl (rows (cs ! i))"
  by (cases "rows (cs ! i)") (auto simp: alive_def cur_key_def cur_vals_def)

lemma step_each_spec:
  assumes "distinct (map fst ps)" and "\<forall>i \<in> fst ` set ps. i < length cs \<and> (\<exists>c'. step (cs ! i) = Some c' \<and> P i c')"
  shows "\<exists>cs'. step_each step ps cs = Some cs' \<and> length cs' = length cs \<and>
    (\<forall>i. if i \<in> fst ` set ps then P i (cs' ! i) else cs' ! i = cs ! i)"
  using assms
proof (induction ps arbitrary: cs)
  case (Cons x ps)
  obtain j p where x: "x = (j, p)" by (cases x)
  obtain c' where c': "j < length cs" "step (cs ! j) = Some c'" "P j c'" using Cons.prems(2) x by auto
  have "\<forall>i \<in> fst ` set ps. i < length (cs[j := c']) \<and> (\<exists>c''. step (cs[j := c'] ! i) = Some c'' \<and> P i c'')"
    using Cons.prems x by (auto simp: nth_list_update)
  then obtain cs' where cs': "step_each step ps (cs[j := c']) = Some cs'" "length cs' = length cs"
    "\<forall>i. if i \<in> fst ` set ps then P i (cs' ! i) else cs' ! i = cs[j := c'] ! i"
    using Cons.IH [of "cs[j := c']"] Cons.prems(1) by auto
  have "j \<notin> fst ` set ps" using Cons.prems(1) x by auto
  then have "cs' ! j = c'" using cs'(3) [rule_format, of j] c'(1) by simp
  then show ?case using cs' c' x by (auto simp: nth_opt_def nth_list_update split: if_splits)
qed simp

text \<open>The weight left drops by what the consumed values have, and the work left by their number.\<close>

lemma remaining_step:
  assumes J: "\<forall>i \<in> J. i < length cs" and len: "length cs' = length cs"
    and f: "\<And>i. i < length cs \<Longrightarrow>
      rows_weight g k v t (rows (cs ! i)) = (if i \<in> J then f i else 0) + rows_weight g k v t (rows (cs' ! i))"
  shows "remaining cs k v t = (\<Sum>i \<in> J. f i) + remaining cs' k v t"
proof -
  have "{..<length cs} \<inter> J = J" using J by auto
  moreover have "remaining cs k v t =
      (\<Sum>i < length cs. (if i \<in> J then f i else 0) + rows_weight g k v t (rows (cs' ! i)))"
    unfolding remaining_def by (rule sum.cong) (auto simp: f)
  ultimately show ?thesis
    by (simp add: sum.distrib sum.inter_restrict [symmetric] remaining_def len)
qed

lemma left_size_step:
  assumes "length cs' = length cs" and "\<And>i. i < length cs \<Longrightarrow> rows_size (rows (cs' ! i)) \<le> rows_size (rows (cs ! i))"
    and "j < length cs" and "rows_size (rows (cs' ! j)) < rows_size (rows (cs ! j))"
  shows "left_size cs' < left_size cs"
  unfolding left_size_def assms(1) using assms by (intro sum_strict_mono_ex1) auto

lemma written_ok_push:
  assumes w: "written_ok cs K any b" and td: "consolidated td"
    and j: "j \<in> K" "v \<in> fst ` set (cur_vals cs j)"
    and al: "\<And>i. alive cs' i = alive cs i" and ck: "\<And>i. alive cs i \<Longrightarrow> cur_key cs' i = cur_key cs i"
    and cv: "\<And>i. i \<in> K \<Longrightarrow> set (cur_vals cs' i) \<subseteq> set (cur_vals cs i)"
    and gt: "\<And>i y. i \<in> K \<Longrightarrow> y \<in> set (cur_vals cs' i) \<Longrightarrow> v < fst y"
  shows "written_ok cs' K (td \<noteq> [] \<or> any) (if td = [] then b else b\<lparr>bb_vals := bb_vals b @ [(v, td)]\<rparr>)"
proof -
  have lt: "\<forall>x \<in> set (bb_vals b). fst x < v" using w j by (fastforce simp: written_ok_def)
  have keys: "\<forall>i. alive cs' i \<longrightarrow> (\<forall>x \<in> set (bb_rows b). fst x < cur_key cs' i)"
    using w al ck by (simp add: written_ok_def)
  have old: "\<forall>i \<in> K. \<forall>x \<in> set (bb_vals b). \<forall>y \<in> set (cur_vals cs' i). fst x < fst y"
    using w cv unfolding written_ok_def by blast
  show ?thesis using w td lt keys old gt by (auto simp: written_ok_def vals_ok_snoc)
qed

lemma value_step:
  assumes cs: "cursors_ok cs" and m: "lm_cursors m = cs" "fst ` set (lm_current_val m) = fst ` set cv"
      "distinct (map fst (lm_current_val m))" "lm_current_val m \<noteq> []" "distinct (map fst cv)"
    and K: "\<forall>i \<in> K. alive cs i \<and> cur_key cs i = k0" and J: "fst ` set cv \<subseteq> K"
    and v: "\<forall>i \<in> fst ` set cv. cur_vals cs i \<noteq> [] \<and> fst (hd (cur_vals cs i)) = v"
    and least: "\<forall>i \<in> K - fst ` set cv. \<forall>y \<in> set (cur_vals cs i). v < fst y"
    and w: "written_ok cs K any b"
  obtains pushed b' fuel' cs' where "copy_times ops mf map_func m b fuel = Some (pushed, b', fuel')"
    and "step_each (mc_step_val ops) cv cs = Some cs'" and "length cs' = length cs" and "cursors_ok cs'"
    and "\<And>i. alive cs' i = alive cs i" and "\<And>i. alive cs i \<Longrightarrow> cur_key cs' i = cur_key cs i"
    and "\<And>i. cur_vals cs' i = (if i \<in> fst ` set cv then tl (cur_vals cs i) else cur_vals cs i)"
    and "written_ok cs' K (pushed \<or> any) b'" and "left_size cs' < left_size cs"
    and "\<And>k v t. written k0 b' k v t + remaining cs' k v t = written k0 b k v t + remaining cs k v t"
    and "fuel' = (if pushed then fuel - 1 else fuel)"
proof -
  let ?J = "fst ` set cv"
  have row0: "rows (cs ! i) = (k0, (v, head_times cs i) # tl (cur_vals cs i)) # tl (rows (cs ! i))"
    and il: "i < length cs" "ok (cs ! i)" if "i \<in> ?J" for i
  proof -
    have a: "alive cs i" "cur_key cs i = k0" "cur_vals cs i \<noteq> []" "fst (hd (cur_vals cs i)) = v"
      using K J v that by auto
    show "i < length cs" "ok (cs ! i)" using a(1) cs by (auto simp: alive_def cursors_ok_def)
    have "hd (cur_vals cs i) = (v, head_times cs i)" using a(4) by (auto simp: head_times_def cur_vals_def)
    then show "rows (cs ! i) = (k0, (v, head_times cs i) # tl (cur_vals cs i)) # tl (rows (cs ! i))"
      using alive_rows [OF a(1)] a(2,3) by (metis list.collapse)
  qed
  obtain rs where row: "\<And>i. i \<in> ?J \<Longrightarrow> rows (cs ! i) = (k0, (v, head_times cs i) # tl (cur_vals cs i)) # rs i"
    using row0 by (rule that [of "\<lambda>i. tl (rows (cs ! i))"])
  have mid: "rows_mid (rows (cs ! i))" if "i < length cs" for i using cs that by (simp add: cursors_ok_def)
  have vok: "head_times cs i \<noteq> []" "consolidated (head_times cs i)" "vals_ok (tl (cur_vals cs i))"
    "\<forall>y \<in> set (tl (cur_vals cs i)). v < fst y" if "i \<in> ?J" for i
    using mid [OF il(1) [OF that]] row [OF that] by (simp_all add: rows_mid_Cons vals_ok_Cons)
  have at: "at_value (lm_cursors m) (lm_current_val m) k0 v"
    unfolding at_value_def m(1,2) using m(3,4) row il by blast
  obtain td where td: "copy_times ops mf map_func m b fuel =
      Some (td \<noteq> [], if td = [] then b else b\<lparr>bb_vals := bb_vals b @ [(v, td)]\<rparr>, if td = [] then fuel else fuel - 1)"
    "consolidated td" "\<forall>t. weight_of t td = (\<Sum>i \<in> ?J. times_weight g t (head_times cs i))"
    using copy_times_spec [OF at, of b fuel] w vok(1,2) by (auto simp: m(1,2) written_ok_def)
  let ?b = "if td = [] then b else b\<lparr>bb_vals := bb_vals b @ [(v, td)]\<rparr>"
  have "\<exists>c'. mc_step_val ops (cs ! i) = Some c' \<and> ok c' \<and> rows c' = val_step (rows (cs ! i))" if "i \<in> ?J" for i
    using step_val [OF il(2) [OF that] row [OF that]] row [OF that] by (metis val_step.simps(1))
  then obtain cs' where cs': "step_each (mc_step_val ops) cv cs = Some cs'" "length cs' = length cs"
    "\<forall>i. if i \<in> ?J then ok (cs' ! i) \<and> rows (cs' ! i) = val_step (rows (cs ! i)) else cs' ! i = cs ! i"
    using step_each_spec [OF m(5), of cs "mc_step_val ops" "\<lambda>i c'. ok c' \<and> rows c' = val_step (rows (cs ! i))"] il(1)
    by blast
  have row': "rows (cs' ! i) = (k0, tl (cur_vals cs i)) # rs i" if "i \<in> ?J" for i
    using cs'(3) [rule_format, of i] that row [OF that] by (metis val_step.simps(1))
  have same: "cs' ! i = cs ! i" if "i \<notin> ?J" for i using cs'(3) that by metis
  obtain j where j: "j \<in> ?J" using m(2,4) by (metis list.set_sel(1) image_eqI)
  show thesis
  proof (rule that [OF td(1) cs'(1,2)])
    show al: "alive cs' i = alive cs i" for i
      using row [of i] row' [of i] same [of i] cs'(2) by (cases "i \<in> ?J") (auto simp: alive_def)
    show ck: "cur_key cs' i = cur_key cs i" if "alive cs i" for i
      using row [of i] row' [of i] same [of i] by (cases "i \<in> ?J") (auto simp: cur_key_def)
    show cv': "cur_vals cs' i = (if i \<in> ?J then tl (cur_vals cs i) else cur_vals cs i)" for i
      using row' [of i] same [of i] by (cases "i \<in> ?J") (auto simp: cur_vals_def)
    show "cursors_ok cs'"
      unfolding cursors_ok_def
    proof (intro allI impI)
      fix i assume i: "i < length cs'"
      show "ok (cs' ! i) \<and> rows_mid (rows (cs' ! i))"
        using i cs cs'(2,3) same [of i] row [of i] row' [of i] mid [of i]
        by (cases "i \<in> ?J") (auto simp: cursors_ok_def rows_mid_Cons vals_ok_Cons)
    qed
    show "left_size cs' < left_size cs"
    proof (rule left_size_step [OF cs'(2)])
      show "rows_size (rows (cs' ! i)) \<le> rows_size (rows (cs ! i))" for i
        using row [of i] row' [of i] same [of i] by (cases "i \<in> ?J") (simp_all add: rows_size_def)
      show "j < length cs" "rows_size (rows (cs' ! j)) < rows_size (rows (cs ! j))"
        using il [OF j] row [OF j] row' [OF j] by (simp_all add: rows_size_def)
    qed
    show "written_ok cs' K (td \<noteq> [] \<or> any) ?b"
    proof (rule written_ok_push [OF w td(2) _ _ al ck])
      show "j \<in> K" using j J by blast
      show "v \<in> fst ` set (cur_vals cs j)" using v j by (metis hd_in_set image_eqI)
      show "set (cur_vals cs' i) \<subseteq> set (cur_vals cs i)" if "i \<in> K" for i
        using cv' [of i] by (cases "cur_vals cs i") auto
      show "v < fst y" if "i \<in> K" "y \<in> set (cur_vals cs' i)" for i y
        using that cv' [of i] least vok(4) [of i] by (auto split: if_splits)
    qed
    show "(if td = [] then fuel else fuel - 1) = (if td \<noteq> [] then fuel - 1 else fuel)" by simp
    fix k v' t
    let ?f = "\<lambda>i. if k0 = k \<and> v = v' then times_weight g t (head_times cs i) else 0"
    have "remaining cs k v' t = (\<Sum>i \<in> ?J. ?f i) + remaining cs' k v' t"
    proof (rule remaining_step [OF _ cs'(2)])
      show "\<forall>i \<in> ?J. i < length cs" using il(1) by blast
      show "rows_weight g k v' t (rows (cs ! i)) = (if i \<in> ?J then ?f i else 0) + rows_weight g k v' t (rows (cs' ! i))" for i
        using row [of i] row' [of i] same [of i] by (cases "i \<in> ?J") (simp_all add: add.assoc)
    qed
    moreover have "written k0 ?b k v' t = written k0 b k v' t + (\<Sum>i \<in> ?J. ?f i)"
      using td(3) by (auto simp: written_def vals_weight_append times_weight_def weight_simps add.assoc)
    ultimately show "written k0 ?b k v' t + remaining cs' k v' t = written k0 b k v' t + remaining cs k v' t"
      by (simp add: add.assoc)
  qed
qed

section \<open>The invariant of the merger\<close>

abbreviation kkey :: "'c list \<Rightarrow> nat \<Rightarrow> 'k reversed" where
  "kkey cs i \<equiv> Reversed (cur_key cs i)"

abbreviation vkey :: "'c list \<Rightarrow> nat \<Rightarrow> 'v reversed" where
  "vkey cs i \<equiv> Reversed (fst (hd (cur_vals cs i)))"

abbreviation at_min :: "'c list_merger \<Rightarrow> nat set" where
  "at_min m \<equiv> fst ` set (lm_current_key m)"

definition key_inv :: "'c list_merger \<Rightarrow> bool" where
  "key_inv m \<longleftrightarrow> cursors_ok (lm_cursors m) \<and>
     heap_state (kkey (lm_cursors m)) {i. alive (lm_cursors m) i} (lm_key_heap m) (lm_current_key m) \<and>
     (\<forall>i. alive (lm_cursors m) i \<and> i \<notin> at_min m \<longrightarrow> cur_vals (lm_cursors m) i \<noteq> [])"

definition val_inv :: "'c list_merger \<Rightarrow> bool" where
  "val_inv m \<longleftrightarrow>
     heap_state (vkey (lm_cursors m)) {i \<in> at_min m. cur_vals (lm_cursors m) i \<noteq> []} (lm_val_heap m) (lm_current_val m)"

text \<open>With one cursor left, the value heap is not maintained any more.\<close>

definition last_inv :: "'c list_merger \<Rightarrow> bool" where
  "last_inv m \<longleftrightarrow> (\<forall>i. lm_key_heap m = [i] \<longrightarrow> (\<exists>p. lm_current_val m = [(i, p)]))"

definition least_key :: "'c list_merger \<Rightarrow> 'k" where
  "least_key m = cur_key (lm_cursors m) (fst (hd (lm_current_key m)))"

definition core_inv :: "'c list_merger \<Rightarrow> ('k, 'v, 't, 'r) batch_builder \<Rightarrow> ('k \<Rightarrow> 'v \<Rightarrow> 't \<Rightarrow> 'r) \<Rightarrow> bool" where
  "core_inv m b T \<longleftrightarrow> key_inv m \<and> written_ok (lm_cursors m) (at_min m) (lm_any_values m) b \<and>
     (lm_current_key m = [] \<longrightarrow> bb_vals b = []) \<and>
     (\<forall>k v t. written (least_key m) b k v t + remaining (lm_cursors m) k v t = T k v t)"

definition merge_inv :: "'c list_merger \<Rightarrow> ('k, 'v, 't, 'r) batch_builder \<Rightarrow> ('k \<Rightarrow> 'v \<Rightarrow> 't \<Rightarrow> 'r) \<Rightarrow> bool" where
  "merge_inv m b T \<longleftrightarrow> core_inv m b T \<and> (if length (lm_key_heap m) > 1 then val_inv m else last_inv m)"

lemma heap_state_cong:
  assumes "\<forall>i \<in> S. key' i = key i" shows "heap_state key' S heap cur = heap_state key S heap cur"
proof -
  have "is_heap key' heap = is_heap key heap \<and> tops key' heap = tops key heap" if "set heap = S"
  proof
    have k: "key' (heap ! i) = key (heap ! i)" if "i < length heap" for i
      using assms \<open>set heap = S\<close> that by (metis nth_mem)
    have "par i < length heap" if "0 < i" "i < length heap" for i using that par_less [of i] by linarith
    then show "is_heap key' heap = is_heap key heap" using k by (auto simp: heap_edges_def)
    show "tops key' heap = tops key heap"
    proof -
      have "key' (heap ! x) = key' (heap ! 0) \<longleftrightarrow> key (heap ! x) = key (heap ! 0)" if "x < length heap" for x
        using k [OF that] k [of 0] that by (cases heap) auto
      then show ?thesis unfolding tops_def by (intro arg_cong [of _ _ "map _"] filter_cong) auto
    qed
  qed
  then show ?thesis by (auto simp: heap_state_def)
qed

lemma alive_key: "cursors_ok cs \<Longrightarrow> alive cs i \<Longrightarrow> mc_key ops (cs ! i) = Some (cur_key cs i)"
  using key [OF _ alive_rows, of cs i] by (simp add: cursors_ok_def alive_def)

lemma key_heap_order:
  assumes "cursors_ok cs" shows "heap_order (key_cmp ops cs) (kkey cs) (alive cs)"
proof
  fix a b assume "alive cs a" "alive cs b"
  then have "mc_key ops (cs ! a) = Some (cur_key cs a)" "mc_key ops (cs ! b) = Some (cur_key cs b)"
    "a < length cs" "b < length cs"
    using alive_key [OF assms] by (auto simp: alive_def)
  then show "key_cmp ops cs a b = Some (ord_cmp (kkey cs a) (kkey cs b))"
    by (simp add: key_cmp_def nth_opt_def ord_cmp_reversed)
qed

abbreviation has_val :: "'c list \<Rightarrow> nat \<Rightarrow> bool" where
  "has_val cs i \<equiv> alive cs i \<and> cur_vals cs i \<noteq> []"

lemma has_val_val:
  assumes "cursors_ok cs" "has_val cs i"
  shows "mc_val ops (cs ! i) = Some (fst (hd (cur_vals cs i)))"
proof -
  obtain v tds vs where "cur_vals cs i = (v, tds) # vs" using assms(2) by (cases "cur_vals cs i") auto
  then have "rows (cs ! i) = (cur_key cs i, (v, tds) # vs) # tl (rows (cs ! i))"
    using alive_rows [of cs i] assms(2) by simp
  from val [OF _ this] show ?thesis
    using assms \<open>cur_vals cs i = (v, tds) # vs\<close> by (simp add: cursors_ok_def alive_def)
qed

lemma val_heap_order:
  assumes "cursors_ok cs" shows "heap_order (val_cmp ops cs) (vkey cs) (has_val cs)"
proof
  fix a b assume "has_val cs a" "has_val cs b"
  then show "val_cmp ops cs a b = Some (ord_cmp (vkey cs a) (vkey cs b))"
    using has_val_val [OF assms] by (auto simp: val_cmp_def nth_opt_def ord_cmp_reversed alive_def)
qed

lemma val_valid_iff:
  "cursors_ok cs \<Longrightarrow> alive cs i \<Longrightarrow> mc_val_valid ops (cs ! i) \<longleftrightarrow> cur_vals cs i \<noteq> []"
  using val_valid [OF _ alive_rows, of cs i] by (simp add: cursors_ok_def alive_def)

lemma key_valid_iff: "cursors_ok cs \<Longrightarrow> i < length cs \<Longrightarrow> mc_key_valid ops (cs ! i) \<longleftrightarrow> alive cs i"
  using key_valid by (auto simp: cursors_ok_def alive_def)

text \<open>The cursors with the least key.\<close>

lemma at_min_iff:
  assumes "key_inv m"
  shows "i \<in> at_min m \<longleftrightarrow> alive (lm_cursors m) i \<and> (\<forall>j. alive (lm_cursors m) j \<longrightarrow> cur_key (lm_cursors m) i \<le> cur_key (lm_cursors m) j)"
  using heap_state_cur [of "kkey (lm_cursors m)" "{i. alive (lm_cursors m) i}"] assms
  by (auto simp: key_inv_def less_eq_reversed_def)

lemma current_key_Nil_iff:
  assumes "key_inv m" shows "lm_current_key m = [] \<longleftrightarrow> lm_key_heap m = []"
  using assms by (simp add: key_inv_def heap_state_def tops_Nil_iff)

lemma at_min_least:
  assumes "key_inv m" and "i \<in> at_min m" shows "cur_key (lm_cursors m) i = least_key m"
proof -
  let ?j = "fst (hd (lm_current_key m))"
  have "?j \<in> at_min m" using assms(2) by (cases "lm_current_key m") auto
  then show ?thesis
    unfolding least_key_def
    using at_min_iff [OF assms(1), of ?j] at_min_iff [OF assms(1), of i] assms(2) by (intro antisym) blast+
qed

lemma with_value_eq:
  "cursors_ok cs \<Longrightarrow> \<forall>i \<in> fst ` set ck. alive cs i \<Longrightarrow>
    with_value ops cs ck = Some (filter (\<lambda>i. cur_vals cs i \<noteq> []) (map fst ck))"
  by (induction ck) (auto simp: nth_opt_def alive_def val_valid_iff)

lemma init_val_heap_spec:
  assumes "key_inv m"
  shows "\<exists>cv vh. init_val_heap ops m = Some (m\<lparr>lm_current_val := cv, lm_val_heap := vh\<rparr>) \<and>
    val_inv (m\<lparr>lm_current_val := cv, lm_val_heap := vh\<rparr>)"
proof -
  let ?cs = "lm_cursors m" and ?xs = "filter (\<lambda>i. cur_vals (lm_cursors m) i \<noteq> []) (map fst (lm_current_key m))"
  have cs: "cursors_ok ?cs" and al: "\<forall>i \<in> at_min m. alive ?cs i"
    using assms at_min_iff [OF assms] by (auto simp: key_inv_def)
  have "distinct (map fst (lm_current_key m))"
    using assms by (simp add: key_inv_def heap_state_def tops_distinct)
  then have d: "distinct ?xs" by (rule distinct_filter)
  obtain heap calls where h: "heap_from_vec (val_cmp ops ?cs) ?xs = Some heap"
    "peek_all (val_cmp ops ?cs) heap = Some calls" "heap_state (vkey ?cs) (set ?xs) heap (positions calls)"
    using heap_state_build [OF val_heap_order [OF cs] d] al by auto
  moreover have "set ?xs = {i \<in> at_min m. cur_vals ?cs i \<noteq> []}" by auto
  ultimately show ?thesis
    using with_value_eq [OF cs al]
    by (intro exI [of _ "positions calls"] exI [of _ heap]) (simp add: init_val_heap_def val_inv_def)
qed

lemma update_key_heap_spec:
  assumes st: "heap_state (kkey cs0) {i. alive cs0 i} (lm_key_heap m) (lm_current_key m)"
    and cs: "cursors_ok (lm_cursors m)" and len: "length (lm_cursors m) = length cs0"
    and same: "\<And>i. i \<notin> at_min m \<Longrightarrow> lm_cursors m ! i = cs0 ! i"
    and fresh: "\<And>i. alive (lm_cursors m) i \<Longrightarrow> cur_vals (lm_cursors m) i \<noteq> []"
  shows "\<exists>ck kh cv vh. let m' = m\<lparr>lm_current_key := ck, lm_key_heap := kh, lm_current_val := cv, lm_val_heap := vh\<rparr>
    in update_key_heap ops m = Some m' \<and> key_inv m' \<and> val_inv m'"
proof -
  let ?cs = "lm_cursors m"
  have sub: "at_min m \<subseteq> {i. alive cs0 i}" using heap_state_cur [OF st] by auto
  have off: "\<forall>i \<in> {i. alive cs0 i}. i \<notin> at_min m \<longrightarrow> kkey ?cs i = kkey cs0 i \<and> alive ?cs i"
    using same len by (auto simp: cur_key_def alive_def)
  have valid: "\<forall>i \<in> at_min m. map_option (mc_key_valid ops) (nth_opt ?cs i) = Some (alive ?cs i)"
    using sub len key_valid_iff [OF cs] by (auto simp: nth_opt_def alive_def)
  obtain heap calls where h: "sift_changed (\<lambda>i. map_option (mc_key_valid ops) (nth_opt ?cs i)) (key_cmp ops ?cs)
      (rev (lm_current_key m)) (lm_key_heap m) = Some heap" "peek_all (key_cmp ops ?cs) heap = Some calls"
    "heap_state (kkey ?cs) {i \<in> {i. alive cs0 i}. alive ?cs i} heap (positions calls)"
    using heap_state_update [OF st key_heap_order [OF cs] off valid] by blast
  have "alive cs0 i" if "alive ?cs i" for i
    using that same [of i] sub len by (cases "i \<in> at_min m") (auto simp: alive_def)
  then have "{i \<in> {i. alive cs0 i}. alive ?cs i} = {i. alive ?cs i}" by auto
  then have k: "key_inv (m\<lparr>lm_current_key := positions calls, lm_key_heap := heap\<rparr>)"
    using h(3) cs fresh by (simp add: key_inv_def)
  then obtain cv vh where "init_val_heap ops (m\<lparr>lm_current_key := positions calls, lm_key_heap := heap\<rparr>) =
      Some (m\<lparr>lm_current_key := positions calls, lm_key_heap := heap, lm_current_val := cv, lm_val_heap := vh\<rparr>)"
    "val_inv (m\<lparr>lm_current_key := positions calls, lm_key_heap := heap, lm_current_val := cv, lm_val_heap := vh\<rparr>)"
    using init_val_heap_spec [OF k] by auto
  then show ?thesis
    using h(1,2) k
    by (intro exI [of _ "positions calls"] exI [of _ heap] exI [of _ cv] exI [of _ vh])
      (simp add: update_key_heap_def key_inv_def)
qed

lemma update_val_heap_spec:
  assumes st: "heap_state (vkey cs0) {i \<in> at_min m. cur_vals cs0 i \<noteq> []} (lm_val_heap m) (lm_current_val m)"
    and cs: "cursors_ok (lm_cursors m)" and al: "\<forall>i \<in> at_min m. alive (lm_cursors m) i"
    and same: "\<And>i. cur_vals (lm_cursors m) i = (if i \<in> fst ` set (lm_current_val m) then tl (cur_vals cs0 i) else cur_vals cs0 i)"
  shows "\<exists>cv vh. update_val_heap ops m = Some (m\<lparr>lm_current_val := cv, lm_val_heap := vh\<rparr>) \<and>
    val_inv (m\<lparr>lm_current_val := cv, lm_val_heap := vh\<rparr>)"
proof -
  let ?cs = "lm_cursors m" and ?S = "{i \<in> at_min m. cur_vals cs0 i \<noteq> []}"
  have sub: "fst ` set (lm_current_val m) \<subseteq> at_min m" using heap_state_cur [OF st] by auto
  have off: "\<forall>i \<in> ?S. i \<notin> fst ` set (lm_current_val m) \<longrightarrow> vkey ?cs i = vkey cs0 i \<and> has_val ?cs i"
    using same al by auto
  have valid: "\<forall>i \<in> fst ` set (lm_current_val m). map_option (mc_val_valid ops) (nth_opt ?cs i) = Some (has_val ?cs i)"
  proof
    fix i assume "i \<in> fst ` set (lm_current_val m)"
    then have "alive ?cs i" using sub al by blast
    then show "map_option (mc_val_valid ops) (nth_opt ?cs i) = Some (has_val ?cs i)"
      using val_valid_iff [OF cs] by (simp add: nth_opt_def alive_def)
  qed
  obtain heap calls where h: "sift_changed (\<lambda>i. map_option (mc_val_valid ops) (nth_opt ?cs i)) (val_cmp ops ?cs)
      (rev (lm_current_val m)) (lm_val_heap m) = Some heap" "peek_all (val_cmp ops ?cs) heap = Some calls"
    "heap_state (vkey ?cs) {i \<in> ?S. has_val ?cs i} heap (positions calls)"
    using heap_state_update [OF st val_heap_order [OF cs] off valid] by blast
  have "{i \<in> ?S. has_val ?cs i} = {i \<in> at_min m. cur_vals ?cs i \<noteq> []}"
    using al same by (auto split: if_splits)
  then show ?thesis
    using h by (intro exI [of _ "positions calls"] exI [of _ heap]) (simp add: update_val_heap_def val_inv_def)
qed

lemma val_inv_current:
  assumes "key_inv m" "val_inv m" "lm_val_heap m \<noteq> []"
  obtains v where "lm_current_val m \<noteq> []" and "distinct (map fst (lm_current_val m))"
    and "fst ` set (lm_current_val m) \<subseteq> at_min m"
    and "\<forall>i \<in> fst ` set (lm_current_val m). cur_vals (lm_cursors m) i \<noteq> [] \<and> fst (hd (cur_vals (lm_cursors m) i)) = v"
    and "\<forall>i \<in> at_min m - fst ` set (lm_current_val m). \<forall>y \<in> set (cur_vals (lm_cursors m) i). v < fst y"
proof -
  let ?cs = "lm_cursors m" and ?cv = "lm_current_val m" and ?S = "{i \<in> at_min m. cur_vals (lm_cursors m) i \<noteq> []}"
  let ?h = "\<lambda>i. fst (hd (cur_vals (lm_cursors m) i))"
  have st: "heap_state (vkey ?cs) ?S (lm_val_heap m) ?cv" using assms(2) by (simp add: val_inv_def)
  have cur: "fst ` set ?cv = {i \<in> ?S. \<forall>j \<in> ?S. ?h i \<le> ?h j}"
    using heap_state_cur [OF st] by (simp add: less_eq_reversed_def)
  have ne: "?cv \<noteq> []" "distinct (map fst ?cv)"
    using st assms(3) by (simp_all add: heap_state_def tops_distinct tops_Nil_iff)
  let ?i = "fst (hd ?cv)"
  have i: "?i \<in> ?S" "\<forall>j \<in> ?S. ?h ?i \<le> ?h j" using ne(1) cur by (metis (mono_tags, lifting) hd_in_set image_eqI mem_Collect_eq)+
  show thesis
  proof (rule that [OF ne, of "?h ?i"])
    show "fst ` set ?cv \<subseteq> at_min m" using cur by auto
    show "\<forall>i \<in> fst ` set ?cv. cur_vals ?cs i \<noteq> [] \<and> ?h i = ?h ?i"
      unfolding cur using i by (auto intro: antisym)
    show "\<forall>i \<in> at_min m - fst ` set ?cv. \<forall>y \<in> set (cur_vals ?cs i). ?h ?i < fst y"
    proof (intro ballI)
      fix j y assume j: "j \<in> at_min m - fst ` set ?cv" and y: "y \<in> set (cur_vals ?cs j)"
      then have "j \<in> ?S" "j \<notin> fst ` set ?cv" by auto
      then obtain l where "l \<in> ?S" "?h l < ?h j" using cur by (auto simp: not_le)
      then have "?h ?i < ?h j" using i(2) by (blast intro: le_less_trans)
      moreover have "?h j \<le> fst y"
      proof -
        have "alive ?cs j" using j at_min_iff [OF assms(1)] by blast
        then have "vals_ok (cur_vals ?cs j)"
          using assms(1) alive_rows [of ?cs j] by (metis alive_def cursors_ok_def key_inv_def rows_mid_Cons)
        then show ?thesis using y by (cases "cur_vals ?cs j") (auto simp: vals_ok_def)
      qed
      ultimately show "?h ?i < fst y" by simp
    qed
  qed
qed

lemma core_value_step:
  assumes inv: "core_inv m b T" and cv: "fst ` set (lm_current_val m) = fst ` set cv"
      "distinct (map fst (lm_current_val m))" "lm_current_val m \<noteq> []" "distinct (map fst cv)"
    and J: "fst ` set cv \<subseteq> at_min m"
    and v: "\<forall>i \<in> fst ` set cv. cur_vals (lm_cursors m) i \<noteq> [] \<and> fst (hd (cur_vals (lm_cursors m) i)) = v"
    and least: "\<forall>i \<in> at_min m - fst ` set cv. \<forall>y \<in> set (cur_vals (lm_cursors m) i). v < fst y"
  obtains pushed b' fuel' cs' where "copy_times ops mf map_func m b fuel = Some (pushed, b', fuel')"
    and "step_each (mc_step_val ops) cv (lm_cursors m) = Some cs'" and "length cs' = length (lm_cursors m)"
    and "\<And>i. alive cs' i = alive (lm_cursors m) i"
    and "\<And>i. cur_vals cs' i = (if i \<in> fst ` set cv then tl (cur_vals (lm_cursors m) i) else cur_vals (lm_cursors m) i)"
    and "core_inv (m\<lparr>lm_any_values := pushed \<or> lm_any_values m, lm_cursors := cs'\<rparr>) b' T"
    and "left_size cs' < left_size (lm_cursors m)" and "fuel' = (if pushed then fuel - 1 else fuel)"
proof -
  let ?cs = "lm_cursors m" and ?K = "at_min m"
  have k: "key_inv m" and w: "written_ok ?cs ?K (lm_any_values m) b"
    and T: "\<And>k v t. written (least_key m) b k v t + remaining ?cs k v t = T k v t"
    using inv by (simp_all add: core_inv_def)
  have cs: "cursors_ok ?cs" using k by (simp add: key_inv_def)
  have K: "\<forall>i \<in> ?K. alive ?cs i \<and> cur_key ?cs i = least_key m"
    using at_min_iff [OF k] at_min_least [OF k] by blast
  obtain pushed b' fuel' cs' where s: "copy_times ops mf map_func m b fuel = Some (pushed, b', fuel')"
    "step_each (mc_step_val ops) cv ?cs = Some cs'" "length cs' = length ?cs" "cursors_ok cs'"
    "\<And>i. alive cs' i = alive ?cs i" "\<And>i. alive ?cs i \<Longrightarrow> cur_key cs' i = cur_key ?cs i"
    "\<And>i. cur_vals cs' i = (if i \<in> fst ` set cv then tl (cur_vals ?cs i) else cur_vals ?cs i)"
    "written_ok cs' ?K (pushed \<or> lm_any_values m) b'" "left_size cs' < left_size ?cs"
    "\<And>k v t. written (least_key m) b' k v t + remaining cs' k v t = written (least_key m) b k v t + remaining ?cs k v t"
    "fuel' = (if pushed then fuel - 1 else fuel)"
    by (rule value_step [OF cs refl cv K J v least w]) blast
  let ?m = "m\<lparr>lm_any_values := pushed \<or> lm_any_values m, lm_cursors := cs'\<rparr>"
  have "heap_state (kkey cs') {i. alive ?cs i} (lm_key_heap m) (lm_current_key m)"
    using k s(6) heap_state_cong [of "{i. alive ?cs i}" "kkey cs'" "kkey ?cs"] by (simp add: key_inv_def)
  then have k': "key_inv ?m" using k s(4,5,7) J by (auto simp: key_inv_def)
  have ne: "lm_current_key m \<noteq> []" using cv(1,3) J by (metis image_is_empty list.set_intros(1) neq_Nil_conv set_empty subset_empty)
  then have "fst (hd (lm_current_key m)) \<in> ?K" by simp
  then have "alive ?cs (fst (hd (lm_current_key m)))" using K by blast
  then have "least_key ?m = least_key m" using s(6) by (simp add: least_key_def)
  then have "core_inv ?m b' T" using k' s(8,10) T ne by (simp add: core_inv_def)
  then show thesis using that s(1,2,3,5,7,9,11) by blast
qed

lemma val_heap_loop_spec:
  assumes "core_inv m b T" and "val_inv m"
  shows "\<exists>ret m' b' fuel'. val_heap_loop ops mf map_func m b fuel = Some (ret, m', b', fuel') \<and>
    core_inv m' b' T \<and> val_inv m' \<and> lm_key_heap m' = lm_key_heap m \<and> lm_current_key m' = lm_current_key m \<and>
    left_size (lm_cursors m') \<le> left_size (lm_cursors m) \<and>
    (ret \<longrightarrow> fuel' \<le> 0 \<and> left_size (lm_cursors m') < left_size (lm_cursors m)) \<and> (\<not> ret \<longrightarrow> length (lm_val_heap m') \<le> 1) \<and>
    int (left_size (lm_cursors m')) + fuel \<le> int (left_size (lm_cursors m)) + fuel'"
  using assms
proof (induction "left_size (lm_cursors m)" arbitrary: m b fuel rule: less_induct)
  case less
  show ?case
  proof (cases "length (lm_val_heap m) > 1")
    case False
    then have "val_heap_loop ops mf map_func m b fuel = Some (False, m, b, fuel)"
      by (subst val_heap_loop.simps) simp
    then show ?thesis using less.prems False by (intro exI [of _ False] exI [of _ m] exI [of _ b] exI [of _ fuel]) simp
  next
    case True
    then have ne: "lm_val_heap m \<noteq> []" by auto
    have k: "key_inv m" using less.prems(1) by (simp add: core_inv_def)
    obtain v where cv: "lm_current_val m \<noteq> []" "distinct (map fst (lm_current_val m))"
      "fst ` set (lm_current_val m) \<subseteq> at_min m"
      "\<forall>i \<in> fst ` set (lm_current_val m). cur_vals (lm_cursors m) i \<noteq> [] \<and> fst (hd (cur_vals (lm_cursors m) i)) = v"
      "\<forall>i \<in> at_min m - fst ` set (lm_current_val m). \<forall>y \<in> set (cur_vals (lm_cursors m) i). v < fst y"
      by (rule val_inv_current [OF k less.prems(2) ne])
    obtain pushed b' fuel' cs' where s: "copy_times ops mf map_func m b fuel = Some (pushed, b', fuel')"
      "step_each (mc_step_val ops) (lm_current_val m) (lm_cursors m) = Some cs'" "length cs' = length (lm_cursors m)"
      "\<And>i. alive cs' i = alive (lm_cursors m) i"
      "\<And>i. cur_vals cs' i = (if i \<in> fst ` set (lm_current_val m) then tl (cur_vals (lm_cursors m) i) else cur_vals (lm_cursors m) i)"
      "core_inv (m\<lparr>lm_any_values := pushed \<or> lm_any_values m, lm_cursors := cs'\<rparr>) b' T"
      "left_size cs' < left_size (lm_cursors m)" "fuel' = (if pushed then fuel - 1 else fuel)"
      by (rule core_value_step [OF less.prems(1) refl cv(2,1,2,3,4,5)]) blast
    have fl: "fuel \<le> fuel' + 1" using s(8) by simp
    let ?m = "m\<lparr>lm_any_values := pushed \<or> lm_any_values m, lm_cursors := cs'\<rparr>"
    have st: "heap_state (vkey (lm_cursors m)) {i \<in> at_min ?m. cur_vals (lm_cursors m) i \<noteq> []} (lm_val_heap ?m) (lm_current_val ?m)"
      using less.prems(2) by (simp add: val_inv_def)
    have cs: "cursors_ok (lm_cursors ?m)" using s(6) by (simp add: core_inv_def key_inv_def)
    have al: "\<forall>i \<in> at_min ?m. alive (lm_cursors ?m) i" using at_min_iff [OF k] s(4) by auto
    obtain cv' vh where u: "update_val_heap ops ?m = Some (?m\<lparr>lm_current_val := cv', lm_val_heap := vh\<rparr>)"
      "val_inv (?m\<lparr>lm_current_val := cv', lm_val_heap := vh\<rparr>)"
      using update_val_heap_spec [OF st cs al] s(5) by auto
    let ?m' = "?m\<lparr>lm_current_val := cv', lm_val_heap := vh\<rparr>"
    have core: "core_inv ?m' b' T" using s(6) by (simp add: core_inv_def key_inv_def least_key_def)
    have step: "val_heap_loop ops mf map_func m b fuel =
        (if fuel' \<le> 0 then Some (True, ?m', b', fuel') else val_heap_loop ops mf map_func ?m' b' fuel')"
      using True s(1,2) u(1) by (subst val_heap_loop.simps) simp
    show ?thesis
    proof (cases "fuel' \<le> 0")
      case True
      then show ?thesis using step core u(2) s(7) fl by (intro exI [of _ True] exI [of _ ?m'] exI [of _ b'] exI [of _ fuel']) simp
    next
      case False
      have lt: "left_size (lm_cursors ?m') < left_size (lm_cursors m)" using s(7) by simp
      from less.hyps [OF lt core u(2), of fuel'] obtain ret m'' b'' fuel'' where
        r: "val_heap_loop ops mf map_func ?m' b' fuel' = Some (ret, m'', b'', fuel'')" "core_inv m'' b'' T" "val_inv m''"
        "lm_key_heap m'' = lm_key_heap m" "lm_current_key m'' = lm_current_key m"
        "left_size (lm_cursors m'') \<le> left_size cs'"
        "ret \<longrightarrow> fuel'' \<le> 0" "\<not> ret \<longrightarrow> length (lm_val_heap m'') \<le> 1"
        "int (left_size (lm_cursors m'')) + fuel' \<le> int (left_size cs') + fuel''"
        by auto
      show ?thesis
        using step False r s(7) fl by (intro exI [of _ ret] exI [of _ m''] exI [of _ b''] exI [of _ fuel'']) auto
    qed
  qed
qed

lemma single_cursor_loop_spec:
  assumes "core_inv m b T" and "val_inv m" and "lm_val_heap m = [index]"
  shows "\<exists>ret m' b' fuel'. single_cursor_loop ops mf map_func index m b fuel = Some (ret, m', b', fuel') \<and>
    core_inv m' b' T \<and> val_inv m' \<and> lm_key_heap m' = lm_key_heap m \<and> lm_current_key m' = lm_current_key m \<and>
    left_size (lm_cursors m') < left_size (lm_cursors m) \<and>
    (ret \<longrightarrow> fuel' \<le> 0) \<and> (\<not> ret \<longrightarrow> lm_val_heap m' = []) \<and>
    int (left_size (lm_cursors m')) + fuel \<le> int (left_size (lm_cursors m)) + fuel'"
  using assms
proof (induction "left_size (lm_cursors m)" arbitrary: m b fuel rule: less_induct)
  case less
  have k: "key_inv m" using less.prems(1) by (simp add: core_inv_def)
  have S: "{i \<in> at_min m. cur_vals (lm_cursors m) i \<noteq> []} = {index}"
    and cur: "lm_current_val m = [(index, 0)]"
    using less.prems(2,3) by (auto simp: val_inv_def heap_state_def tops_one)
  obtain v where cv: "fst ` set (lm_current_val m) \<subseteq> at_min m"
    "\<forall>i \<in> fst ` set (lm_current_val m). cur_vals (lm_cursors m) i \<noteq> [] \<and> fst (hd (cur_vals (lm_cursors m) i)) = v"
    "\<forall>i \<in> at_min m - fst ` set (lm_current_val m). \<forall>y \<in> set (cur_vals (lm_cursors m) i). v < fst y"
    by (rule val_inv_current [OF k less.prems(2)]) (use less.prems(3) in \<open>simp, blast\<close>)
  have cv': "fst ` set (lm_current_val m) = fst ` set [(index, 0 :: nat)]" "distinct (map fst (lm_current_val m))"
    "lm_current_val m \<noteq> []" "distinct (map fst [(index, 0 :: nat)])" using cur by simp_all
  obtain pushed b' fuel' cs' where s: "copy_times ops mf map_func m b fuel = Some (pushed, b', fuel')"
    "step_each (mc_step_val ops) [(index, 0)] (lm_cursors m) = Some cs'" "length cs' = length (lm_cursors m)"
    "\<And>i. alive cs' i = alive (lm_cursors m) i"
    "\<And>i. cur_vals cs' i = (if i \<in> fst ` set [(index, 0 :: nat)] then tl (cur_vals (lm_cursors m) i) else cur_vals (lm_cursors m) i)"
    "core_inv (m\<lparr>lm_any_values := pushed \<or> lm_any_values m, lm_cursors := cs'\<rparr>) b' T"
    "left_size cs' < left_size (lm_cursors m)" "fuel' = (if pushed then fuel - 1 else fuel)"
    by (rule core_value_step [OF less.prems(1) cv' cv [unfolded cv'(1)]]) blast
  have fl: "fuel \<le> fuel' + 1" using s(8) by simp
  let ?m = "m\<lparr>lm_any_values := pushed \<or> lm_any_values m, lm_cursors := cs'\<rparr>"
  have cs: "cursors_ok cs'" using s(6) by (simp add: core_inv_def key_inv_def)
  have "index \<in> at_min m" using S by blast
  then have al: "alive cs' index" using at_min_iff [OF k, of index] s(4) by simp
  then have il: "index < length cs'" by (simp add: alive_def)
  have vv: "mc_val_valid ops (cs' ! index) \<longleftrightarrow> cur_vals cs' index \<noteq> []" by (rule val_valid_iff [OF cs al])
  have S': "{i \<in> at_min m. cur_vals cs' i \<noteq> []} = (if cur_vals cs' index \<noteq> [] then {index} else {})"
    using S s(5) by (auto split: if_splits)
  have step: "single_cursor_loop ops mf map_func index m b fuel =
      (if cur_vals cs' index = [] then Some (False, ?m\<lparr>lm_val_heap := [], lm_current_val := []\<rparr>, b', fuel')
       else if fuel' \<le> 0 then Some (True, ?m, b', fuel')
       else single_cursor_loop ops mf map_func index ?m b' fuel')"
    using s(1,2) vv il by (subst single_cursor_loop.simps) (simp add: nth_opt_def Let_def)
  show ?case
  proof (cases "cur_vals cs' index = []")
    case True
    let ?m' = "?m\<lparr>lm_val_heap := [], lm_current_val := []\<rparr>"
    have "core_inv ?m' b' T" using s(6) by (simp add: core_inv_def key_inv_def least_key_def)
    moreover have "val_inv ?m'" using S' True by (simp add: val_inv_def heap_state_def heap_edges_def)
    ultimately show ?thesis
      using step True s(7) fl by (intro exI [of _ False] exI [of _ ?m'] exI [of _ b'] exI [of _ fuel']) simp
  next
    case False
    have vi: "val_inv ?m" using S' False cur less.prems(3) by (simp add: val_inv_def heap_state_def heap_edges_def tops_one)
    show ?thesis
    proof (cases "fuel' \<le> 0")
      case True
      then show ?thesis
        using step False s(6,7) vi fl by (intro exI [of _ True] exI [of _ ?m] exI [of _ b'] exI [of _ fuel']) simp
    next
      case fuel: False
      have lt: "left_size (lm_cursors ?m) < left_size (lm_cursors m)" and vh: "lm_val_heap ?m = [index]"
        using s(7) less.prems(3) by simp_all
      from less.hyps [OF lt s(6) vi vh, of fuel'] obtain ret m'' b'' fuel'' where
        r: "single_cursor_loop ops mf map_func index ?m b' fuel' = Some (ret, m'', b'', fuel'')" "core_inv m'' b'' T" "val_inv m''"
        "lm_key_heap m'' = lm_key_heap m" "lm_current_key m'' = lm_current_key m"
        "left_size (lm_cursors m'') < left_size cs'" "ret \<longrightarrow> fuel'' \<le> 0" "\<not> ret \<longrightarrow> lm_val_heap m'' = []"
        "int (left_size (lm_cursors m'')) + fuel' \<le> int (left_size cs') + fuel''"
        by auto
      show ?thesis
        using step False fuel r s(7) fl by (intro exI [of _ ret] exI [of _ m''] exI [of _ b''] exI [of _ fuel'']) auto
    qed
  qed
qed

text \<open>When the values of the least key are used up, the key is written and its cursors move on.\<close>

lemma key_step:
  assumes inv: "core_inv m b T" and ne: "lm_current_key m \<noteq> []"
    and ps: "fst ` set ps = at_min m" "distinct (map fst ps)"
    and used: "\<forall>i \<in> at_min m. cur_vals (lm_cursors m) i = []"
  obtains b' cs' where "finish_key ops m b = Some (m\<lparr>lm_any_values := False\<rparr>, b')"
    and "step_each (mc_step_key ops) ps (lm_cursors m) = Some cs'" and "length cs' = length (lm_cursors m)"
    and "cursors_ok cs'" and "\<And>i. i \<notin> at_min m \<Longrightarrow> cs' ! i = lm_cursors m ! i"
    and "\<And>i. alive cs' i \<Longrightarrow> cur_vals cs' i \<noteq> []" and "\<And>K. written_ok cs' K False b'" and "bb_vals b' = []"
    and "\<And>k0 k v t. written k0 b' k v t + remaining cs' k v t = T k v t"
    and "left_size cs' < left_size (lm_cursors m)"
proof -
  let ?cs = "lm_cursors m" and ?K = "at_min m"
  have k: "key_inv m" and w: "written_ok ?cs ?K (lm_any_values m) b"
    and T: "\<And>k v t. written (least_key m) b k v t + remaining ?cs k v t = T k v t"
    using inv by (simp_all add: core_inv_def)
  have cs: "cursors_ok ?cs" using k by (simp add: key_inv_def)
  have K: "alive ?cs i \<and> cur_key ?cs i = least_key m" if "i \<in> ?K" for i
    using at_min_iff [OF k, of i] at_min_least [OF k, of i] that by blast
  obtain rs where row: "\<And>i. i \<in> ?K \<Longrightarrow> rows (?cs ! i) = (least_key m, []) # rs i"
  proof (rule that)
    show "rows (?cs ! i) = (least_key m, []) # tl (rows (?cs ! i))" if "i \<in> ?K" for i
      using alive_rows [of ?cs i] K [OF that] used that by simp
  qed
  have il: "i < length ?cs" "ok (?cs ! i)" "rows_mid (rows (?cs ! i))" if "i \<in> ?K" for i
    using K [OF that] cs by (auto simp: alive_def cursors_ok_def)
  have rs_ok: "rows_ok (rs i)" "\<forall>x \<in> set (rs i). least_key m < fst x" if "i \<in> ?K" for i
    using il(3) [OF that] row [OF that] by (simp_all add: rows_mid_Cons)
  have "\<exists>c'. mc_step_key ops (?cs ! i) = Some c' \<and> ok c' \<and> rows c' = rs i" if "i \<in> ?K" for i
    by (rule step_key [OF il(2) [OF that] row [OF that]])
  then obtain cs' where cs': "step_each (mc_step_key ops) ps ?cs = Some cs'" "length cs' = length ?cs"
    "\<forall>i. if i \<in> ?K then ok (cs' ! i) \<and> rows (cs' ! i) = rs i else cs' ! i = ?cs ! i"
    using step_each_spec [OF ps(2), of ?cs "mc_step_key ops" "\<lambda>i c'. ok c' \<and> rows c' = rs i"] il(1) ps(1) by auto
  let ?b = "if bb_vals b = [] then b else push_key (least_key m) b"
  obtain i0 p0 ck where ck: "lm_current_key m = (i0, p0) # ck" using ne by (cases "lm_current_key m") auto
  have i0: "mc_key ops (?cs ! i0) = Some (least_key m)" "i0 < length ?cs"
    using alive_key [OF cs] K [of i0] ck il(1) [of i0] by auto
  have fin: "finish_key ops m b = Some (m\<lparr>lm_any_values := False\<rparr>, ?b)"
    using w i0 ck by (cases "bb_vals b = []") (auto simp: finish_key_def nth_opt_def written_ok_def)
  have same: "cs' ! i = ?cs ! i" if "i \<notin> ?K" for i using cs'(3) that by metis
  have row': "rows (cs' ! i) = rs i" "ok (cs' ! i)" if "i \<in> ?K" for i using cs'(3) that by metis+
  have later: "least_key m < cur_key cs' i" if "alive cs' i" for i
  proof (cases "i \<in> ?K")
    case True
    then have "hd (rs i) \<in> set (rs i)" using that row' by (simp add: alive_def)
    then show ?thesis using rs_ok(2) [OF True] row' [OF True] by (simp add: cur_key_def)
  next
    case False
    then have "alive ?cs i" "cur_key cs' i = cur_key ?cs i" using that same cs'(2) by (simp_all add: alive_def cur_key_def)
    moreover have "least_key m \<le> cur_key ?cs j" if "alive ?cs j" for j
      using at_min_iff [OF k, of i0] K [of i0] ck that by auto
    ultimately show ?thesis using at_min_iff [OF k, of i] False by (metis le_less_trans not_le)
  qed
  have before: "\<forall>x \<in> set (bb_rows b). fst x < least_key m"
  proof -
    have "alive ?cs i0" "cur_key ?cs i0 = least_key m" using K [of i0] ck by auto
    then show ?thesis using w unfolding written_ok_def by metis
  qed
  show thesis
  proof (rule that [OF fin cs'(1,2)])
    show "cursors_ok cs'"
      unfolding cursors_ok_def
    proof (intro allI impI)
      fix i assume "i < length cs'"
      then show "ok (cs' ! i) \<and> rows_mid (rows (cs' ! i))"
        using cs cs'(2) same [of i] row' [of i] rs_ok(1) [of i] by (cases "i \<in> ?K") (auto simp: cursors_ok_def rows_ok_mid)
    qed
    show "cs' ! i = ?cs ! i" if "i \<notin> ?K" for i by (rule same [OF that])
    show "cur_vals cs' i \<noteq> []" if "alive cs' i" for i
    proof (cases "i \<in> ?K")
      case True
      then have "hd (rs i) \<in> set (rs i)" using that row' by (simp add: alive_def)
      then show ?thesis using rs_ok(1) [OF True] row' [OF True] by (simp add: cur_vals_def rows_ok_def)
    next
      case False
      then show ?thesis using that k same [OF False] cs'(2) by (simp add: key_inv_def alive_def cur_vals_def)
    qed
    show "written_ok cs' K False ?b" for K
      using w before later by (auto simp: written_ok_def push_key_def rows_ok_snoc vals_ok_def dest: less_trans)
    show "bb_vals ?b = []" by (simp add: push_key_def)
    show "left_size cs' < left_size ?cs"
    proof (rule left_size_step [OF cs'(2)])
      show "rows_size (rows (cs' ! i)) \<le> rows_size (rows (?cs ! i))" for i
        using row [of i] row' [of i] same [of i] by (cases "i \<in> ?K") (simp_all add: rows_size_def)
      show "i0 < length ?cs" "rows_size (rows (cs' ! i0)) < rows_size (rows (?cs ! i0))"
        using i0(2) row [of i0] row' [of i0] ck by (simp_all add: rows_size_def)
    qed
    fix k0 k v t
    have "remaining ?cs k v t = remaining cs' k v t"
      unfolding remaining_def cs'(2)
    proof (rule sum.cong)
      fix i
      show "rows_weight g k v t (rows (?cs ! i)) = rows_weight g k v t (rows (cs' ! i))"
        using row [of i] row' [of i] same [of i] by (cases "i \<in> ?K") simp_all
    qed simp
    moreover have "written k0 ?b k v t = written (least_key m) b k v t"
      by (simp add: written_def push_key_def rows_weight_append)
    ultimately show "written k0 ?b k v t + remaining cs' k v t = T k v t" using T [of k v t] by simp
  qed
qed

lemma val_inv_used:
  assumes "val_inv m" and "lm_val_heap m = []" shows "\<forall>i \<in> at_min m. cur_vals (lm_cursors m) i = []"
  using assms by (auto simp: val_inv_def heap_state_def)

lemma core_inv_after_key_step:
  assumes "cursors_ok cs'" and "\<And>K. written_ok cs' K False b'" and "bb_vals b' = []"
    and "\<And>k0 k v t. written k0 b' k v t + remaining cs' k v t = T k v t"
    and "key_inv m'" and "lm_cursors m' = cs'" and "\<not> lm_any_values m'"
  shows "core_inv m' b' T"
  using assms by (simp add: core_inv_def)

lemma last_inv_of_val_inv:
  assumes "key_inv m" and "val_inv m" and "\<And>i. alive (lm_cursors m) i \<Longrightarrow> cur_vals (lm_cursors m) i \<noteq> []"
  shows "last_inv m"
  unfolding last_inv_def
proof (intro allI impI)
  fix i assume kh: "lm_key_heap m = [i]"
  then have "lm_current_key m = [(i, 0)]" and al: "alive (lm_cursors m) i"
    using assms(1) by (auto simp: key_inv_def heap_state_def tops_one)
  then have "heap_state (vkey (lm_cursors m)) {i} (lm_val_heap m) (lm_current_val m)"
    using assms(2,3) by (auto simp: val_inv_def Collect_conv_if)
  then have "distinct (lm_val_heap m)" "set (lm_val_heap m) = {i}" "lm_current_val m = tops (vkey (lm_cursors m)) (lm_val_heap m)"
    by (simp_all add: heap_state_def)
  moreover from this(1,2) have "lm_val_heap m = [i]" by (cases "lm_val_heap m") (auto simp: distinct_card subset_singleton_iff)
  ultimately show "\<exists>p. lm_current_val m = [(i, p)]" by (simp add: tops_one)
qed

lemma advance_key:
  assumes core: "core_inv m b T" and vi: "val_inv m" and used: "lm_val_heap m = []" and ne: "lm_current_key m \<noteq> []"
  shows "\<exists>m3 b3 cs m4. finish_key ops m b = Some (m3, b3) \<and>
    step_each (mc_step_key ops) (lm_current_key m3) (lm_cursors m3) = Some cs \<and>
    update_key_heap ops (m3\<lparr>lm_cursors := cs\<rparr>) = Some m4 \<and> merge_inv m4 b3 T \<and>
    left_size (lm_cursors m4) < left_size (lm_cursors m)"
proof -
  have k: "key_inv m" using core by (simp add: core_inv_def)
  then have st: "heap_state (kkey (lm_cursors m)) {i. alive (lm_cursors m) i} (lm_key_heap m) (lm_current_key m)"
    and d: "distinct (map fst (lm_current_key m))"
    by (auto simp: key_inv_def heap_state_def tops_distinct)
  obtain b' cs' where s: "finish_key ops m b = Some (m\<lparr>lm_any_values := False\<rparr>, b')"
    "step_each (mc_step_key ops) (lm_current_key m) (lm_cursors m) = Some cs'" "length cs' = length (lm_cursors m)"
    "cursors_ok cs'" "\<And>i. i \<notin> at_min m \<Longrightarrow> cs' ! i = lm_cursors m ! i"
    "\<And>i. alive cs' i \<Longrightarrow> cur_vals cs' i \<noteq> []" "\<And>K. written_ok cs' K False b'" "bb_vals b' = []"
    "\<And>k0 k v t. written k0 b' k v t + remaining cs' k v t = T k v t" "left_size cs' < left_size (lm_cursors m)"
    by (rule key_step [OF core ne refl d val_inv_used [OF vi used]]) blast
  let ?m = "m\<lparr>lm_any_values := False, lm_cursors := cs'\<rparr>"
  obtain ck kh cv vh where u: "update_key_heap ops ?m =
      Some (?m\<lparr>lm_current_key := ck, lm_key_heap := kh, lm_current_val := cv, lm_val_heap := vh\<rparr>)"
    "key_inv (?m\<lparr>lm_current_key := ck, lm_key_heap := kh, lm_current_val := cv, lm_val_heap := vh\<rparr>)"
    "val_inv (?m\<lparr>lm_current_key := ck, lm_key_heap := kh, lm_current_val := cv, lm_val_heap := vh\<rparr>)"
    using update_key_heap_spec [of "lm_cursors m" ?m] st s(3-6) by (auto simp: Let_def)
  let ?m' = "?m\<lparr>lm_current_key := ck, lm_key_heap := kh, lm_current_val := cv, lm_val_heap := vh\<rparr>"
  have "core_inv ?m' b' T" by (rule core_inv_after_key_step [OF s(4,7,8,9) u(2)]) simp_all
  moreover have "last_inv ?m'" by (rule last_inv_of_val_inv [OF u(2,3)]) (simp add: s(6))
  ultimately have "merge_inv ?m' b' T" using u(3) by (simp add: merge_inv_def)
  then show ?thesis
    using s(1,2,10) u(1)
    by (intro exI [of _ "m\<lparr>lm_any_values := False\<rparr>"] exI [of _ b'] exI [of _ cs'] exI [of _ ?m']) simp
qed

lemma key_heap_loop_spec:
  assumes "merge_inv m b T"
  shows "\<exists>ret m' b' fuel'. key_heap_loop ops mf map_func m b fuel = Some (ret, m', b', fuel') \<and> merge_inv m' b' T \<and>
    (ret \<longrightarrow> fuel' \<le> 0) \<and> (\<not> ret \<longrightarrow> length (lm_key_heap m') \<le> 1 \<or> fuel' \<le> 0) \<and>
    left_size (lm_cursors m') \<le> left_size (lm_cursors m) \<and>
    (0 < fuel \<and> 1 < length (lm_key_heap m) \<longrightarrow> left_size (lm_cursors m') < left_size (lm_cursors m)) \<and>
    (length (lm_key_heap m) \<le> 1 \<longrightarrow> m' = m \<and> b' = b \<and> fuel' = fuel) \<and>
    int (left_size (lm_cursors m')) + fuel \<le> int (left_size (lm_cursors m)) + fuel'"
  using assms
proof (induction "left_size (lm_cursors m)" arbitrary: m b fuel rule: less_induct)
  case less
  show ?case
  proof (cases "1 < length (lm_key_heap m) \<and> 0 < fuel")
    case False
    then have "key_heap_loop ops mf map_func m b fuel = Some (False, m, b, fuel)"
      by (subst key_heap_loop.simps) auto
    then show ?thesis
      using less.prems False by (intro exI [of _ False] exI [of _ m] exI [of _ b] exI [of _ fuel]) auto
  next
    case True
    have core: "core_inv m b T" and vi: "val_inv m" using less.prems True by (simp_all add: merge_inv_def)
    obtain ret1 m1 b1 fuel1 where r1: "val_heap_loop ops mf map_func m b fuel = Some (ret1, m1, b1, fuel1)"
      "core_inv m1 b1 T" "val_inv m1" "lm_key_heap m1 = lm_key_heap m" "lm_current_key m1 = lm_current_key m"
      "left_size (lm_cursors m1) \<le> left_size (lm_cursors m)"
      "ret1 \<longrightarrow> fuel1 \<le> 0 \<and> left_size (lm_cursors m1) < left_size (lm_cursors m)"
      "\<not> ret1 \<longrightarrow> length (lm_val_heap m1) \<le> 1" "int (left_size (lm_cursors m1)) + fuel \<le> int (left_size (lm_cursors m)) + fuel1"
      using val_heap_loop_spec [OF core vi, of fuel] by auto
    define next2 where "next2 = (case lm_val_heap m1 of [] \<Rightarrow> Some (False, m1, b1, fuel1)
      | index # _ \<Rightarrow> single_cursor_loop ops mf map_func index m1 b1 fuel1)"
    show ?thesis
    proof (cases ret1)
      case ret: True
      then have "key_heap_loop ops mf map_func m b fuel = Some (True, m1, b1, fuel1)"
        using True r1(1) by (subst key_heap_loop.simps) simp
      moreover have "merge_inv m1 b1 T" using r1(2,3,4) True by (simp add: merge_inv_def)
      ultimately show ?thesis
        using r1(6,7,9) ret True by (intro exI [of _ True] exI [of _ m1] exI [of _ b1] exI [of _ fuel1]) simp
    next
      case cont: False
      obtain ret2 m2 b2 fuel2 where r2: "next2 = Some (ret2, m2, b2, fuel2)" "core_inv m2 b2 T" "val_inv m2"
        "lm_key_heap m2 = lm_key_heap m" "lm_current_key m2 = lm_current_key m"
        "left_size (lm_cursors m2) \<le> left_size (lm_cursors m)"
        "ret2 \<longrightarrow> fuel2 \<le> 0 \<and> left_size (lm_cursors m2) < left_size (lm_cursors m)" "\<not> ret2 \<longrightarrow> lm_val_heap m2 = []"
        "int (left_size (lm_cursors m2)) + fuel \<le> int (left_size (lm_cursors m)) + fuel2"
      proof (cases "lm_val_heap m1")
        case Nil
        then show thesis using r1(2-6,9) by (intro that [of False m1 b1 fuel1]) (simp_all add: next2_def)
      next
        case (Cons index xs)
        then have "lm_val_heap m1 = [index]" using r1(8) cont by simp
        from single_cursor_loop_spec [OF r1(2,3) this, of fuel1] obtain ret2 m2 b2 fuel2 where
          "single_cursor_loop ops mf map_func index m1 b1 fuel1 = Some (ret2, m2, b2, fuel2)" "core_inv m2 b2 T" "val_inv m2"
          "lm_key_heap m2 = lm_key_heap m" "lm_current_key m2 = lm_current_key m"
          "left_size (lm_cursors m2) < left_size (lm_cursors m1)" "ret2 \<longrightarrow> fuel2 \<le> 0" "\<not> ret2 \<longrightarrow> lm_val_heap m2 = []"
          "int (left_size (lm_cursors m2)) + fuel1 \<le> int (left_size (lm_cursors m1)) + fuel2"
          using r1(4,5) by auto
        then show thesis using r1(6,9) Cons by (intro that [of ret2 m2 b2 fuel2]) (auto simp: next2_def)
      qed
      show ?thesis
      proof (cases ret2)
        case ret: True
        then have "key_heap_loop ops mf map_func m b fuel = Some (True, m2, b2, fuel2)"
          using True r1(1) cont r2(1) by (subst key_heap_loop.simps) (simp add: next2_def)
        moreover have "merge_inv m2 b2 T" using r2(2,3,4) True by (simp add: merge_inv_def)
        ultimately show ?thesis
          using r2(6,7,9) ret True by (intro exI [of _ True] exI [of _ m2] exI [of _ b2] exI [of _ fuel2]) simp
      next
        case cont2: False
        have ne: "lm_current_key m2 \<noteq> []"
          using True r2(4) current_key_Nil_iff [of m2] r2(2) by (auto simp: core_inv_def)
        obtain m3 b3 cs m4 where a: "finish_key ops m2 b2 = Some (m3, b3)"
          "step_each (mc_step_key ops) (lm_current_key m3) (lm_cursors m3) = Some cs"
          "update_key_heap ops (m3\<lparr>lm_cursors := cs\<rparr>) = Some m4" "merge_inv m4 b3 T"
          "left_size (lm_cursors m4) < left_size (lm_cursors m2)"
          using advance_key [OF r2(2,3) _ ne] r2(8) cont2 by blast
        have step: "key_heap_loop ops mf map_func m b fuel = key_heap_loop ops mf map_func m4 b3 fuel2"
          using True r1(1) cont r2(1) cont2 a(1-3) by (subst key_heap_loop.simps) (simp add: next2_def)
        have lt: "left_size (lm_cursors m4) < left_size (lm_cursors m)" using a(5) r2(6) by simp
        from less.hyps [OF lt a(4), of fuel2] obtain ret m' b' fuel' where
          r: "key_heap_loop ops mf map_func m4 b3 fuel2 = Some (ret, m', b', fuel')" "merge_inv m' b' T"
          "ret \<longrightarrow> fuel' \<le> 0" "\<not> ret \<longrightarrow> length (lm_key_heap m') \<le> 1 \<or> fuel' \<le> 0"
          "left_size (lm_cursors m') \<le> left_size (lm_cursors m4)"
          "int (left_size (lm_cursors m')) + fuel2 \<le> int (left_size (lm_cursors m4)) + fuel'"
          by blast
        then show ?thesis
          unfolding step using lt True a(5) r2(9) by (intro exI [of _ ret] exI [of _ m'] exI [of _ b'] exI [of _ fuel']) auto
      qed
    qed
  qed
qed

text \<open>With one cursor left: its values, and then key by key.\<close>

definition one_left :: "'c list_merger \<Rightarrow> nat \<Rightarrow> bool" where
  "one_left m index \<longleftrightarrow> lm_key_heap m = [index] \<and> lm_current_key m = [(index, 0)] \<and> (\<exists>p. lm_current_val m = [(index, p)])"

lemma one_left_alive:
  assumes "key_inv m" and "one_left m index" shows "{i. alive (lm_cursors m) i} = {index}" and "index < length (lm_cursors m)"
proof -
  show "{i. alive (lm_cursors m) i} = {index}" using assms by (auto simp: key_inv_def heap_state_def one_left_def)
  then have "alive (lm_cursors m) index" by auto
  then show "index < length (lm_cursors m)" by (simp add: alive_def)
qed

lemma last_values_loop_spec:
  assumes "core_inv m b T" and "one_left m index" and "0 < fuel"
  shows "\<exists>ret m' b' fuel'. last_values_loop ops mf map_func index m b fuel = Some (ret, m', b', fuel') \<and>
    core_inv m' b' T \<and> one_left m' index \<and> left_size (lm_cursors m') \<le> left_size (lm_cursors m) \<and>
    (ret \<longrightarrow> fuel' \<le> 0 \<and> left_size (lm_cursors m') < left_size (lm_cursors m)) \<and>
    (\<not> ret \<longrightarrow> 0 < fuel' \<and> cur_vals (lm_cursors m') index = []) \<and>
    int (left_size (lm_cursors m')) + fuel \<le> int (left_size (lm_cursors m)) + fuel'"
  using assms
proof (induction "left_size (lm_cursors m)" arbitrary: m b fuel rule: less_induct)
  case less
  have k: "key_inv m" using less.prems(1) by (simp add: core_inv_def)
  then have cs: "cursors_ok (lm_cursors m)" by (simp add: key_inv_def)
  note one = one_left_alive [OF k less.prems(2)]
  have al: "alive (lm_cursors m) index" using one(1) by auto
  obtain p where cur: "lm_current_val m = [(index, p)]" and am: "at_min m = {index}"
    using less.prems(2) by (auto simp: one_left_def)
  show ?case
  proof (cases "cur_vals (lm_cursors m) index = []")
    case True
    then have "last_values_loop ops mf map_func index m b fuel = Some (False, m, b, fuel)"
      using one(2) val_valid_iff [OF cs al] by (subst last_values_loop.simps) (simp add: nth_opt_def)
    then show ?thesis
      using less.prems True by (intro exI [of _ False] exI [of _ m] exI [of _ b] exI [of _ fuel]) simp
  next
    case False
    let ?v = "fst (hd (cur_vals (lm_cursors m) index))" and ?ps = "[(index, 0 :: nat)]"
    have cv: "fst ` set (lm_current_val m) = fst ` set ?ps" "distinct (map fst (lm_current_val m))"
      "lm_current_val m \<noteq> []" "distinct (map fst ?ps)" "fst ` set ?ps \<subseteq> at_min m"
      "\<forall>i \<in> fst ` set ?ps. cur_vals (lm_cursors m) i \<noteq> [] \<and> fst (hd (cur_vals (lm_cursors m) i)) = ?v"
      "\<forall>i \<in> at_min m - fst ` set ?ps. \<forall>y \<in> set (cur_vals (lm_cursors m) i). ?v < fst y"
      using cur am False by simp_all
    obtain pushed b' fuel' cs' where s: "copy_times ops mf map_func m b fuel = Some (pushed, b', fuel')"
      "step_each (mc_step_val ops) ?ps (lm_cursors m) = Some cs'"
      "core_inv (m\<lparr>lm_any_values := pushed \<or> lm_any_values m, lm_cursors := cs'\<rparr>) b' T"
      "left_size cs' < left_size (lm_cursors m)" "fuel' = (if pushed then fuel - 1 else fuel)"
      by (rule core_value_step [OF less.prems(1) cv]) blast
    have fl: "fuel \<le> fuel' + 1" using s(5) by simp
    let ?m = "m\<lparr>lm_any_values := pushed \<or> lm_any_values m, lm_cursors := cs'\<rparr>"
    have step: "last_values_loop ops mf map_func index m b fuel =
        (if fuel' \<le> 0 then Some (True, ?m, b', fuel') else last_values_loop ops mf map_func index ?m b' fuel')"
      using s(1,2) one(2) val_valid_iff [OF cs al] False
      by (subst last_values_loop.simps) (simp add: nth_opt_def Let_def del: step_each.simps)
    have ol: "one_left ?m index" using less.prems(2) by (simp add: one_left_def)
    show ?thesis
    proof (cases "fuel' \<le> 0")
      case True
      then show ?thesis
        using step s(3,4) ol fl by (intro exI [of _ True] exI [of _ ?m] exI [of _ b'] exI [of _ fuel']) simp
    next
      case fuel: False
      have lt: "left_size (lm_cursors ?m) < left_size (lm_cursors m)" and pos: "0 < fuel'" using s(4) fuel by simp_all
      from less.hyps [OF lt s(3) ol pos] obtain ret m'' b'' fuel'' where
        r: "last_values_loop ops mf map_func index ?m b' fuel' = Some (ret, m'', b'', fuel'')" "core_inv m'' b'' T"
        "one_left m'' index" "left_size (lm_cursors m'') \<le> left_size cs'"
        "ret \<longrightarrow> fuel'' \<le> 0" "\<not> ret \<longrightarrow> 0 < fuel'' \<and> cur_vals (lm_cursors m'') index = []"
        "int (left_size (lm_cursors m'')) + fuel' \<le> int (left_size cs') + fuel''"
        by auto
      then show ?thesis
        using step fuel s(4) fl by (intro exI [of _ ret] exI [of _ m''] exI [of _ b''] exI [of _ fuel'']) auto
    qed
  qed
qed

lemma last_cursor_loop_spec:
  assumes "core_inv m b T" and "one_left m index"
  shows "\<exists>ret m' b' fuel'. last_cursor_loop ops mf map_func index m b fuel = Some (ret, m', b', fuel') \<and>
    core_inv m' b' T \<and> (one_left m' index \<or> lm_key_heap m' = []) \<and>
    left_size (lm_cursors m') \<le> left_size (lm_cursors m) \<and>
    (0 < fuel \<longrightarrow> left_size (lm_cursors m') < left_size (lm_cursors m)) \<and> (0 < fuel' \<longrightarrow> lm_key_heap m' = []) \<and>
    int (left_size (lm_cursors m')) + fuel \<le> int (left_size (lm_cursors m)) + fuel'"
  using assms
proof (induction "left_size (lm_cursors m)" arbitrary: m b fuel rule: less_induct)
  case less
  show ?case
  proof (cases "0 < fuel")
    case False
    then have "last_cursor_loop ops mf map_func index m b fuel = Some (True, m, b, fuel)"
      by (subst last_cursor_loop.simps) simp
    then show ?thesis
      using less.prems False by (intro exI [of _ True] exI [of _ m] exI [of _ b] exI [of _ fuel]) simp
  next
    case pos: True
    obtain ret1 m1 b1 fuel1 where r1: "last_values_loop ops mf map_func index m b fuel = Some (ret1, m1, b1, fuel1)"
      "core_inv m1 b1 T" "one_left m1 index" "left_size (lm_cursors m1) \<le> left_size (lm_cursors m)"
      "ret1 \<longrightarrow> fuel1 \<le> 0 \<and> left_size (lm_cursors m1) < left_size (lm_cursors m)"
      "\<not> ret1 \<longrightarrow> 0 < fuel1 \<and> cur_vals (lm_cursors m1) index = []"
      "int (left_size (lm_cursors m1)) + fuel \<le> int (left_size (lm_cursors m)) + fuel1"
      using last_values_loop_spec [OF less.prems pos] by blast
    show ?thesis
    proof (cases ret1)
      case True
      then have "last_cursor_loop ops mf map_func index m b fuel = Some (True, m1, b1, fuel1)"
        using pos r1(1) by (subst last_cursor_loop.simps) simp
      then show ?thesis
        using r1 True by (intro exI [of _ True] exI [of _ m1] exI [of _ b1] exI [of _ fuel1]) simp
    next
      case cont: False
      have k: "key_inv m1" using r1(2) by (simp add: core_inv_def)
      note one = one_left_alive [OF k r1(3)]
      have am: "at_min m1 = {index}" "lm_current_key m1 \<noteq> []" "lm_key_heap m1 = [index]"
        using r1(3) by (auto simp: one_left_def)
      have ps: "fst ` set [(index, 0 :: nat)] = at_min m1" "distinct (map fst [(index, 0 :: nat)])"
        "\<forall>i \<in> at_min m1. cur_vals (lm_cursors m1) i = []" using am r1(6) cont by simp_all
      obtain b' cs' where s: "finish_key ops m1 b1 = Some (m1\<lparr>lm_any_values := False\<rparr>, b')"
        "step_each (mc_step_key ops) [(index, 0)] (lm_cursors m1) = Some cs'" "length cs' = length (lm_cursors m1)"
        "cursors_ok cs'" "\<And>i. i \<notin> at_min m1 \<Longrightarrow> cs' ! i = lm_cursors m1 ! i"
        "\<And>i. alive cs' i \<Longrightarrow> cur_vals cs' i \<noteq> []" "\<And>K. written_ok cs' K False b'" "bb_vals b' = []"
        "\<And>k0 k v t. written k0 b' k v t + remaining cs' k v t = T k v t" "left_size cs' < left_size (lm_cursors m1)"
        by (rule key_step [OF r1(2) am(2) ps]) blast
      let ?m = "m1\<lparr>lm_any_values := False, lm_cursors := cs'\<rparr>"
      have others: "alive cs' i \<Longrightarrow> i = index" for i
        using s(3) s(5) [of i] am(1) one(1) by (auto simp: alive_def)
      have lt: "left_size cs' < left_size (lm_cursors m)" using s(10) r1(4) by simp
      have step: "last_cursor_loop ops mf map_func index m b fuel =
          (if alive cs' index then last_cursor_loop ops mf map_func index ?m b' fuel1
           else Some (False, ?m\<lparr>lm_current_key := [], lm_key_heap := []\<rparr>, b', fuel1))"
        using pos r1(1) cont s(1,2,3) one(2) key_valid_iff [OF s(4), of index]
        by (subst last_cursor_loop.simps) (simp add: nth_opt_def Let_def del: step_each.simps)
      show ?thesis
      proof (cases "alive cs' index")
        case False
        let ?m' = "?m\<lparr>lm_current_key := [], lm_key_heap := []\<rparr>"
        have "{i. alive cs' i} = {}" using others False by blast
        then have "key_inv ?m'" using s(4,6) by (auto simp: key_inv_def heap_state_def heap_edges_def)
        then have "core_inv ?m' b' T" by (intro core_inv_after_key_step [OF s(4,7,8,9)]) simp_all
        then show ?thesis
          using step False lt r1(7) s(10) by (intro exI [of _ False] exI [of _ ?m'] exI [of _ b'] exI [of _ fuel1]) simp
      next
        case True
        then have "{i. alive cs' i} = {index}" using others by blast
        moreover have ck: "lm_current_key m1 = [(index, 0)]" using r1(3) by (simp add: one_left_def)
        ultimately have "key_inv ?m"
          using s(4,6) am(3) by (simp add: key_inv_def heap_state_def heap_edges_def tops_one)
        then have core: "core_inv ?m b' T" by (intro core_inv_after_key_step [OF s(4,7,8,9)]) simp_all
        have ol: "one_left ?m index" using r1(3) by (simp add: one_left_def)
        have lt': "left_size (lm_cursors ?m) < left_size (lm_cursors m)" using lt by simp
        from less.hyps [OF lt' core ol, of fuel1] obtain ret m'' b'' fuel'' where
          r: "last_cursor_loop ops mf map_func index ?m b' fuel1 = Some (ret, m'', b'', fuel'')" "core_inv m'' b'' T"
          "one_left m'' index \<or> lm_key_heap m'' = []" "left_size (lm_cursors m'') \<le> left_size cs'"
          "0 < fuel'' \<longrightarrow> lm_key_heap m'' = []" "int (left_size (lm_cursors m'')) + fuel1 \<le> int (left_size cs') + fuel''"
          by auto
        then show ?thesis
          using step True lt r1(7) s(10) by (intro exI [of _ ret] exI [of _ m''] exI [of _ b''] exI [of _ fuel'']) auto
      qed
    qed
  qed
qed

section \<open>Whole merges\<close>

lemma merge_inv_core: "merge_inv m b T \<Longrightarrow> core_inv m b T"
  by (simp add: merge_inv_def)

lemma merge_inv_one_left:
  assumes "core_inv m b T" and "one_left m index \<or> lm_key_heap m = []" shows "merge_inv m b T"
  using assms by (auto simp: merge_inv_def last_inv_def one_left_def)

lemma one_left_of_inv:
  assumes "merge_inv m b T" and "length (lm_key_heap m) \<le> 1" and "lm_current_key m = (index, p) # rest"
  shows "one_left m index"
proof -
  have k: "key_inv m" and l: "last_inv m" using assms(1,2) by (auto simp: merge_inv_def core_inv_def)
  then obtain i where "lm_key_heap m = [i]"
    using assms(2,3) current_key_Nil_iff [OF k] by (cases "lm_key_heap m") auto
  moreover then have "lm_current_key m = [(i, 0)]" using k by (simp add: key_inv_def heap_state_def tops_one)
  ultimately show ?thesis using l assms(3) by (auto simp: one_left_def last_inv_def)
qed

text \<open>
  \<open>work\<close> returns, keeps the invariant and makes progress; when it returns with fuel left, all cursors are
  exhausted.
\<close>

lemma work_spec:
  assumes inv: "merge_inv m b T" and mapf: "map_func = time_map_func ts frontier"
  shows "\<exists>m' b' fuel'. work ops mf ts m b frontier fuel = Some (m', b', fuel') \<and> merge_inv m' b' T \<and>
    (0 < fuel' \<longrightarrow> lm_key_heap m' = []) \<and> left_size (lm_cursors m') \<le> left_size (lm_cursors m) \<and>
    (0 < fuel \<and> lm_key_heap m \<noteq> [] \<longrightarrow> left_size (lm_cursors m') < left_size (lm_cursors m)) \<and>
    int (left_size (lm_cursors m')) + fuel \<le> int (left_size (lm_cursors m)) + fuel'"
proof -
  obtain ret m1 b1 fuel1 where r: "key_heap_loop ops mf map_func m b fuel = Some (ret, m1, b1, fuel1)" "merge_inv m1 b1 T"
    "ret \<longrightarrow> fuel1 \<le> 0" "\<not> ret \<longrightarrow> length (lm_key_heap m1) \<le> 1 \<or> fuel1 \<le> 0"
    "left_size (lm_cursors m1) \<le> left_size (lm_cursors m)"
    "0 < fuel \<and> 1 < length (lm_key_heap m) \<longrightarrow> left_size (lm_cursors m1) < left_size (lm_cursors m)"
    "length (lm_key_heap m) \<le> 1 \<longrightarrow> m1 = m \<and> b1 = b \<and> fuel1 = fuel"
    "int (left_size (lm_cursors m1)) + fuel \<le> int (left_size (lm_cursors m)) + fuel1"
    using key_heap_loop_spec [OF inv, of fuel] by blast
  have k1: "key_inv m1" using r(2) by (simp add: merge_inv_def core_inv_def)
  have stop: ?thesis if w: "work ops mf ts m b frontier fuel = Some (m1, b1, fuel1)"
    and d: "0 < fuel1 \<longrightarrow> lm_key_heap m1 = []"
  proof -
    have "left_size (lm_cursors m1) < left_size (lm_cursors m)" if "0 < fuel \<and> lm_key_heap m \<noteq> []"
      using that r(6,7) d by (cases "length (lm_key_heap m) \<le> 1") auto
    then show ?thesis using w d r(2,5,8) by blast
  qed
  show ?thesis
  proof (cases ret)
    case True
    then show ?thesis using r(1,3) by (intro stop) (simp_all add: work_def mapf [symmetric])
  next
    case cont: False
    show ?thesis
    proof (cases "lm_current_key m1")
      case Nil
      then show ?thesis using r(1) cont current_key_Nil_iff [OF k1] by (intro stop) (simp_all add: work_def mapf [symmetric])
    next
      case (Cons x rest)
      obtain index p where x: "x = (index, p)" by (cases x)
      show ?thesis
      proof (cases "fuel1 \<le> 0")
        case True
        then have "last_cursor_loop ops mf map_func index m1 b1 fuel1 = Some (True, m1, b1, fuel1)"
          by (subst last_cursor_loop.simps) simp
        then show ?thesis using r(1) cont Cons x True by (intro stop) (simp_all add: work_def mapf [symmetric])
      next
        case False
        then have ol: "one_left m1 index" using one_left_of_inv [OF r(2)] r(4) cont Cons x by simp
        obtain ret2 m2 b2 fuel2 where s: "last_cursor_loop ops mf map_func index m1 b1 fuel1 = Some (ret2, m2, b2, fuel2)"
          "core_inv m2 b2 T" "one_left m2 index \<or> lm_key_heap m2 = []"
          "left_size (lm_cursors m2) \<le> left_size (lm_cursors m1)"
          "0 < fuel1 \<longrightarrow> left_size (lm_cursors m2) < left_size (lm_cursors m1)" "0 < fuel2 \<longrightarrow> lm_key_heap m2 = []"
          "int (left_size (lm_cursors m2)) + fuel1 \<le> int (left_size (lm_cursors m1)) + fuel2"
          using last_cursor_loop_spec [OF merge_inv_core [OF r(2)] ol, of fuel1] by blast
        have "work ops mf ts m b frontier fuel = Some (m2, b2, fuel2)"
          using r(1) cont Cons x s(1) by (simp add: work_def mapf [symmetric])
        then show ?thesis
          using merge_inv_one_left [OF s(2,3)] s(4-7) r(5,8) False
          by (intro exI [of _ m2] exI [of _ b2] exI [of _ fuel2]) auto
      qed
    qed
  qed
qed

text \<open>A new merger.\<close>

lemma list_merger_new_spec:
  assumes ok: "\<forall>c \<in> set cs. ok c \<and> rows_ok (rows c)"
  shows "\<exists>m. list_merger_new ops cs = Some m \<and> lm_cursors m = cs \<and> merge_inv m new_builder (remaining cs)"
proof -
  have co: "cursors_ok cs" using ok by (auto simp: cursors_ok_def rows_ok_mid)
  have fresh: "cur_vals cs i \<noteq> []" if "alive cs i" for i
  proof -
    have "rows_ok (rows (cs ! i))" "rows (cs ! i) \<noteq> []" using ok that by (auto simp: alive_def)
    then show ?thesis by (cases "rows (cs ! i)") (auto simp: rows_ok_def cur_vals_def)
  qed
  let ?m0 = "\<lparr>lm_cursors = cs, lm_current_key = [], lm_key_heap = [], lm_current_val = [],
       lm_val_heap = [], lm_any_values = False\<rparr>" and ?is = "filter (\<lambda>i. mc_key_valid ops (cs ! i)) [0..<length cs]"
  have sis: "set ?is = {i. alive cs i}" using key_valid_iff [OF co] by (auto simp: alive_def)
  have ho: "heap_order (key_cmp ops cs) (kkey cs) (alive cs)" by (rule key_heap_order [OF co])
  obtain h where h: "heap_from_vec (key_cmp ops cs) ?is = Some h" "heap_state (kkey cs) {i. alive cs i} h (tops (kkey cs) h)"
    using heap_state_build [OF ho, of ?is] sis by (auto simp: heap_state_def)
  obtain calls where c: "peek_all (key_cmp ops cs) h = Some calls" "heap_state (kkey cs) {i. alive cs i} h (positions calls)"
    using heap_state_build [OF ho, of ?is] sis h(1) by auto
  let ?m1 = "?m0\<lparr>lm_current_key := positions calls, lm_key_heap := h\<rparr>"
  have k: "key_inv ?m1" using co c(2) fresh by (simp add: key_inv_def)
  obtain cv vh where v: "init_val_heap ops ?m1 = Some (?m1\<lparr>lm_current_val := cv, lm_val_heap := vh\<rparr>)"
    "val_inv (?m1\<lparr>lm_current_val := cv, lm_val_heap := vh\<rparr>)"
    using init_val_heap_spec [OF k] by blast
  let ?m = "?m1\<lparr>lm_current_val := cv, lm_val_heap := vh\<rparr>"
  have k': "key_inv ?m" using k by (simp add: key_inv_def)
  have new: "list_merger_new ops cs = Some ?m"
    using h(1) c(1) v(1) by (simp add: list_merger_new_def init_key_heap_def update_key_heap_def)
  have "core_inv ?m new_builder (remaining cs)"
    using k' by (simp add: core_inv_def written_ok_def written_def new_builder_def rows_ok_def rows_mid_def vals_ok_def)
  moreover have "last_inv ?m" using fresh by (intro last_inv_of_val_inv [OF k' v(2)]) simp
  ultimately have "merge_inv ?m new_builder (remaining cs)" using v(2) by (simp add: merge_inv_def)
  then show ?thesis using new by simp
qed

text \<open>A finished merger has written the sum of its inputs.\<close>

lemma merge_inv_done:
  assumes "merge_inv m b T" and "lm_key_heap m = []"
  shows "bb_diffs b = []" and "bb_vals b = []" and "rows_ok (bb_rows b)" and "rows_weight id k v t (bb_rows b) = T k v t"
proof -
  have c: "core_inv m b T" using assms(1) by (rule merge_inv_core)
  then have k: "key_inv m" and w: "written_ok (lm_cursors m) (at_min m) (lm_any_values m) b" by (simp_all add: core_inv_def)
  have "{i. alive (lm_cursors m) i} = {}" using k assms(2) by (simp add: key_inv_def heap_state_def)
  then have "rows (lm_cursors m ! i) = []" if "i < length (lm_cursors m)" for i using that by (auto simp: alive_def)
  then have rem: "remaining (lm_cursors m) k v t = 0" by (simp add: remaining_def)
  show "bb_diffs b = []" "rows_ok (bb_rows b)" using w by (simp_all add: written_ok_def)
  show vs: "bb_vals b = []" using c current_key_Nil_iff [OF k] assms(2) by (simp add: core_inv_def)
  have "written (least_key m) b k v t + remaining (lm_cursors m) k v t = T k v t" using c by (simp add: core_inv_def)
  then show "rows_weight id k v t (bb_rows b) = T k v t" using vs rem by (simp add: written_def cong: if_cong)
qed

lemma left_size_0:
  assumes "merge_inv m b T" shows "left_size (lm_cursors m) = 0 \<longleftrightarrow> lm_key_heap m = []"
proof -
  have "left_size (lm_cursors m) = 0 \<longleftrightarrow> {i. alive (lm_cursors m) i} = {}"
    by (auto simp: left_size_def alive_def rows_size_def)
  also have "{i. alive (lm_cursors m) i} = set (lm_key_heap m)"
    using assms by (simp add: merge_inv_def core_inv_def key_inv_def heap_state_def)
  finally show ?thesis by simp
qed

text \<open>Any sequence of calls returns; once the calls have used as much fuel as there is data, the merge is done.\<close>

lemma work_calls_spec:
  assumes "merge_inv m b T" and "map_func = time_map_func ts frontier"
  shows "\<exists>m' b'. work_calls ops mf ts frontier fuels m b = Some (m', b') \<and> merge_inv m' b' T \<and>
    (left_size (lm_cursors m) \<le> length (filter (\<lambda>f. 0 < f) fuels) \<longrightarrow> lm_key_heap m' = [])"
  using assms
proof (induction fuels arbitrary: m b)
  case Nil
  then show ?case using left_size_0 [of m b T] by auto
next
  case (Cons fuel fuels)
  obtain m1 b1 fuel1 where w: "work ops mf ts m b frontier fuel = Some (m1, b1, fuel1)" "merge_inv m1 b1 T"
    "left_size (lm_cursors m1) \<le> left_size (lm_cursors m)"
    "0 < fuel \<and> lm_key_heap m \<noteq> [] \<longrightarrow> left_size (lm_cursors m1) < left_size (lm_cursors m)"
    using work_spec [OF Cons.prems, of fuel] by blast
  obtain m' b' where c: "work_calls ops mf ts frontier fuels m1 b1 = Some (m', b')" "merge_inv m' b' T"
    "left_size (lm_cursors m1) \<le> length (filter (\<lambda>f. 0 < f) fuels) \<longrightarrow> lm_key_heap m' = []"
    using Cons.IH [OF w(2) Cons.prems(2)] by blast
  show ?case
  proof (cases "0 < fuel \<and> lm_key_heap m = []")
    case False
    then show ?thesis using w c by (intro exI [of _ m'] exI [of _ b']) auto
  next
    case True
    then have "left_size (lm_cursors m) = 0" using left_size_0 [OF Cons.prems(1)] by simp
    then show ?thesis using w c by (intro exI [of _ m'] exI [of _ b']) auto
  qed
qed


lemma remaining_sum: "remaining cs k v t = (\<Sum>c \<leftarrow> cs. rows_weight g k v t (rows c))"
  by (simp add: remaining_def sum_list_sum_nth atLeast0LessThan)

lemma left_size_sum: "left_size cs = (\<Sum>c \<leftarrow> cs. rows_size (rows c))"
  by (simp add: left_size_def sum_list_sum_nth atLeast0LessThan)

lemma list_merge_spec:
  assumes "\<forall>c \<in> set cs. ok c \<and> rows_ok (rows c)" and "int (left_size cs) < 2 ^ 63 - 1"
    and "map_func = time_map_func ts (mf_default_time mf)"
  shows "\<exists>out. list_merge ops mf ts new_builder cs = Some out \<and> rows_ok out \<and>
    (\<forall>k v t. rows_weight id k v t out = (\<Sum>c \<leftarrow> cs. rows_weight g k v t (rows c)))"
proof -
  obtain m where m: "list_merger_new ops cs = Some m" "lm_cursors m = cs" "merge_inv m new_builder (remaining cs)"
    using list_merger_new_spec [OF assms(1)] by blast
  obtain m' b' fuel' where w: "work ops mf ts m new_builder (mf_default_time mf) (2 ^ 63 - 1) = Some (m', b', fuel')"
    "merge_inv m' b' (remaining cs)" "0 < fuel' \<longrightarrow> lm_key_heap m' = []"
    "int (left_size (lm_cursors m')) + (2 ^ 63 - 1) \<le> int (left_size (lm_cursors m)) + fuel'"
    using work_spec [OF m(3) assms(3), of "2 ^ 63 - 1"] by blast
  have pos: "0 < fuel'" using w(4) assms(2) m(2) by simp
  then show ?thesis
    using m(1) w(1,3) merge_inv_done(3,4) [OF w(2)] by (simp add: list_merge_def builder_done_def remaining_sum)
qed

lemma work_calls_merge:
  assumes "\<forall>c \<in> set cs. ok c \<and> rows_ok (rows c)" and "map_func = time_map_func ts frontier"
  shows "\<exists>m m' b'. list_merger_new ops cs = Some m \<and> work_calls ops mf ts frontier fuels m new_builder = Some (m', b') \<and>
    (left_size cs \<le> length (filter (\<lambda>f. 0 < f) fuels) \<longrightarrow> lm_key_heap m' = []) \<and>
    (lm_key_heap m' = [] \<longrightarrow> rows_ok (builder_done b') \<and>
      (\<forall>k v t. rows_weight id k v t (builder_done b') = (\<Sum>c \<leftarrow> cs. rows_weight g k v t (rows c)))) \<and>
    (\<exists>m'' b'' fuel''. work ops mf ts m' b' frontier fuel = Some (m'', b'', fuel'') \<and> (0 < fuel'' \<longrightarrow> lm_key_heap m'' = []))"
proof -
  obtain m where m: "list_merger_new ops cs = Some m" "lm_cursors m = cs" "merge_inv m new_builder (remaining cs)"
    using list_merger_new_spec [OF assms(1)] by blast
  obtain m' b' where w: "work_calls ops mf ts frontier fuels m new_builder = Some (m', b')" "merge_inv m' b' (remaining cs)"
    "left_size (lm_cursors m) \<le> length (filter (\<lambda>f. 0 < f) fuels) \<longrightarrow> lm_key_heap m' = []"
    using work_calls_spec [OF m(3) assms(2)] by blast
  have "\<exists>m'' b'' fuel''. work ops mf ts m' b' frontier fuel = Some (m'', b'', fuel'') \<and> (0 < fuel'' \<longrightarrow> lm_key_heap m'' = [])"
    using work_spec [OF w(2) assms(2), of fuel] by blast
  moreover have "lm_key_heap m' = [] \<longrightarrow> rows_ok (builder_done b') \<and>
      (\<forall>k v t. rows_weight id k v t (builder_done b') = (\<Sum>c \<leftarrow> cs. rows_weight g k v t (rows c)))"
    using merge_inv_done(3,4) [OF w(2)] by (simp add: builder_done_def remaining_sum)
  ultimately show ?thesis using m(1,2) w(1,3) by blast
qed

end

text \<open>Rows in order are determined by their weights.\<close>

lemma strict_sorted_map_of_unique:
  assumes "sorted_wrt (<) (map fst xs)" and "sorted_wrt (<) (map fst (ys :: ('a::linorder \<times> 'b) list))" and "map_of xs = map_of ys"
  shows "xs = ys"
proof -
  have list: "map (\<lambda>k. (k, the (map_of zs k))) (map fst zs) = zs" if "sorted_wrt (<) (map fst zs)" for zs :: "('a \<times> 'b) list"
    using that by (simp add: comp_def) (intro map_idI, auto simp: strict_sorted_iff)
  have "fst ` set xs = fst ` set ys" using assms(3) by (metis dom_map_of_conv_image_fst)
  then have "map fst xs = map fst ys"
    using assms(1,2) by (intro sorted_distinct_set_unique) (simp_all add: strict_sorted_iff)
  then show ?thesis using list [OF assms(1)] list [OF assms(2)] assms(3) by simp
qed

lemma times_weight_id: "times_weight id t tds = weight_of t tds"
  by (simp add: times_weight_def)

lemma vals_weight_map_of:
  assumes "distinct (map fst vs)"
  shows "vals_weight id v t vs = (case map_of vs v of None \<Rightarrow> 0 | Some tds \<Rightarrow> weight_of t tds)"
  using assms
proof (induction vs)
  case (Cons x vs)
  have "map_of vs (fst x) = None" using Cons.prems by (simp add: map_of_eq_None_iff)
  then show ?case using Cons by (cases x; cases "fst x = v") (auto simp: times_weight_def id_def)
qed simp

lemma rows_weight_map_of:
  assumes "distinct (map fst rs)"
  shows "rows_weight id k v t rs = (case map_of rs k of None \<Rightarrow> 0 | Some vs \<Rightarrow> vals_weight id v t vs)"
  using assms
proof (induction rs)
  case (Cons x rs)
  have "map_of rs (fst x) = None" using Cons.prems by (simp add: map_of_eq_None_iff)
  then show ?case using Cons by (cases x; cases "fst x = k") (auto simp: id_def)
qed simp

lemma vals_ok_distinct: "vals_ok vs \<Longrightarrow> distinct (map fst vs)"
  by (simp add: vals_ok_def strict_sorted_iff)

lemma vals_ok_times: "vals_ok vs \<Longrightarrow> map_of vs v = Some tds \<Longrightarrow> tds \<noteq> [] \<and> consolidated tds"
  using map_of_SomeD [of vs v tds] by (force simp: vals_ok_def)

lemma consolidated_nonzero: "consolidated tds \<Longrightarrow> tds \<noteq> [] \<Longrightarrow> \<exists>t. weight_of t tds \<noteq> 0"
  using consolidated_mem_iff [of tds "fst (hd tds)" "snd (hd tds)"] by (cases tds) (auto intro: exI [of _ "fst (hd tds)"])

lemma vals_ok_unique:
  assumes "vals_ok xs" and "vals_ok ys" and "\<And>v t. vals_weight id v t xs = vals_weight id v t ys"
  shows "xs = ys"
proof (rule strict_sorted_map_of_unique)
  show "sorted_wrt (<) (map fst xs)" "sorted_wrt (<) (map fst ys)" using assms(1,2) by (simp_all add: vals_ok_def)
  show "map_of xs = map_of ys"
  proof
    fix v
    have w: "(case map_of xs v of None \<Rightarrow> 0 | Some tds \<Rightarrow> weight_of t tds) =
        (case map_of ys v of None \<Rightarrow> 0 | Some tds \<Rightarrow> weight_of t tds)" for t
      using assms(3) [of v t] by (simp add: vals_weight_map_of vals_ok_distinct assms(1,2))
    note ok = vals_ok_times [OF assms(1), of v] vals_ok_times [OF assms(2), of v]
    show "map_of xs v = map_of ys v"
    proof (cases "map_of xs v")
      case None
      then have "map_of ys v = None" using w ok(2) consolidated_nonzero by (cases "map_of ys v") force+
      with None show ?thesis by simp
    next
      case (Some tds)
      then obtain tds' where ys: "map_of ys v = Some tds'" using w ok(1) consolidated_nonzero by (cases "map_of ys v") force+
      then have "tds = tds'" using Some w ok by (intro consolidated_unique) auto
      with Some ys show ?thesis by simp
    qed
  qed
qed

lemma vals_ok_nonzero: "vals_ok vs \<Longrightarrow> vs \<noteq> [] \<Longrightarrow> \<exists>v t. vals_weight id v t vs \<noteq> 0"
  using vals_ok_unique [of vs "[]"] by (auto simp: vals_ok_def)

lemma rows_ok_unique:
  assumes "rows_ok xs" and "rows_ok ys" and "\<And>k v t. rows_weight id k v t xs = rows_weight id k v t ys"
  shows "xs = ys"
proof (rule strict_sorted_map_of_unique)
  show s: "sorted_wrt (<) (map fst xs)" "sorted_wrt (<) (map fst ys)"
    using assms(1,2) by (simp_all add: rows_ok_def rows_mid_def)
  then have d: "distinct (map fst xs)" "distinct (map fst ys)" by (simp_all add: strict_sorted_iff)
  show "map_of xs = map_of ys"
  proof
    fix k
    have w: "(case map_of xs k of None \<Rightarrow> 0 | Some vs \<Rightarrow> vals_weight id v t vs) =
        (case map_of ys k of None \<Rightarrow> 0 | Some vs \<Rightarrow> vals_weight id v t vs)" for v t
      using assms(3) [of k v t] by (simp add: rows_weight_map_of d)
    have ok: "map_of xs k = Some vs \<Longrightarrow> vs \<noteq> [] \<and> vals_ok vs" "map_of ys k = Some vs \<Longrightarrow> vs \<noteq> [] \<and> vals_ok vs" for vs
      using assms(1,2) map_of_SomeD [of xs k vs] map_of_SomeD [of ys k vs] by (force simp: rows_ok_def rows_mid_def)+
    show "map_of xs k = map_of ys k"
    proof (cases "map_of xs k")
      case None
      then have "map_of ys k = None" using w ok(2) vals_ok_nonzero by (cases "map_of ys k") force+
      with None show ?thesis by simp
    next
      case (Some vs)
      then obtain vs' where ys: "map_of ys k = Some vs'" using w ok(1) vals_ok_nonzero by (cases "map_of ys k") force+
      then have "vs = vs'" using Some w ok by (intro vals_ok_unique) auto
      with Some ys show ?thesis by simp
    qed
  qed
qed

lemma rows_merging:
  "key_sort (mf_sort mf) \<Longrightarrow> merging rows_cursor_ops (\<lambda>c. c) (\<lambda>_. True) mf"
  by (simp add: merging_def merging_axioms_def rows_cursor.merge_cursor_axioms)

lemma filtered_rows_merging:
  "key_sort (mf_sort mf) \<Longrightarrow>
    merging (filtered_cursor_ops rows_cursor_ops) (filtered_rows (\<lambda>c. c)) (filtered_ok (\<lambda>c. c) (\<lambda>_. True)) mf"
  by (simp add: merging_def merging_axioms_def filtered_rows_cursor.merge_cursor_axioms)

lemma work_calls_append:
  "work_calls ops mf ts frontier (xs @ ys) m b =
    Option.bind (work_calls ops mf ts frontier xs m b) (\<lambda>(m', b'). work_calls ops mf ts frontier ys m' b')"
  by (induction xs arbitrary: m b) (auto simp: split: Option.bind_splits)

interpretation rows_merge: merging rows_cursor_ops "\<lambda>c. c" "\<lambda>_. True"
  "\<lparr>mf_sort = sort_key fst, mf_timed = timed, mf_default_time = d\<rparr>" map_func for timed d map_func
  by (rule rows_merging) (simp add: std.key_sort_axioms)

interpretation filtered_merge: merging "filtered_cursor_ops rows_cursor_ops" "filtered_rows (\<lambda>c. c)"
  "filtered_ok (\<lambda>c. c) (\<lambda>_. True)" "\<lparr>mf_sort = sort_key fst, mf_timed = timed, mf_default_time = d\<rparr>" map_func
  for timed d map_func
  by (rule filtered_rows_merging) (simp add: std.key_sort_axioms)

section \<open>Properties\<close>

text \<open>Two batches with a common key, one tuple of which cancels, used as an example below.\<close>

definition example_rows :: "(nat, nat, 32 word, int) rows list" where
  "example_rows = [[(1, [(5, [(0, 1)]), (6, [(0, 2)])]), (3, [(1, [(0, 1)])])], [(1, [(5, [(0, -1)])]), (2, [(9, [(0, 4)])])]]"

definition example_factories :: "(32 word, int) merge_factories" where
  "example_factories = \<lparr>mf_sort = sort_key fst, mf_timed = True, mf_default_time = 0\<rparr>"

lemma example_rows_ok: "\<forall>rs \<in> set example_rows. rows_ok rs"
  by (simp add: example_rows_def rows_ok_def rows_mid_def vals_ok_def consolidated_def)

lemma example_rows_size: "(\<Sum>rs \<leftarrow> example_rows. rows_size rs) = 9"
  by (simp add: example_rows_def rows_size_def)

lemma example_sort: "key_sort (mf_sort example_factories)"
  by (simp add: example_factories_def std.key_sort_axioms)

text \<open>
  C1: \<open>ListMerger::merge\<close> never panics on batches whose keys, values and times are in order, as long as
  their total size is below the largest \<open>isize\<close>. The result is a batch in order without zero weights, and the
  weight of every tuple is the sum of its weights in the inputs, with the times mapped as \<open>work\<close> does.
\<close>

theorem list_merge_adds_weights:
  assumes "key_sort (mf_sort mf)" and "\<forall>rs \<in> set batches. rows_ok rs" and "int (\<Sum>rs \<leftarrow> batches. rows_size rs) < 2 ^ 63 - 1"
  shows "\<exists>out. list_merge rows_cursor_ops mf ts new_builder batches = Some out \<and> rows_ok out \<and>
    (\<forall>k v t. rows_weight id k v t out =
      (\<Sum>rs \<leftarrow> batches. rows_weight (time_map mf (time_map_func ts (mf_default_time mf))) k v t rs))"
  using merging.list_merge_spec [OF rows_merging [OF assms(1)] _ _ refl, of batches ts] assms(2,3)
  by (simp add: merging.left_size_sum [OF rows_merging [OF assms(1)]])

theorem list_merge_adds_weights_witness:
  "list_merge rows_cursor_ops example_factories u32_ops new_builder example_rows =
    Some [(1, [(6, [(0, 2)])]), (2, [(9, [(0, 4)])]), (3, [(1, [(0, 1)])])]"
proof -
  have id: "time_map example_factories (time_map_func u32_ops (mf_default_time example_factories)) = id"
    by (simp add: time_map_def time_map_func_def example_factories_def u32_ops_def)
  obtain out where out: "list_merge rows_cursor_ops example_factories u32_ops new_builder example_rows = Some out" "rows_ok out"
    "\<And>k v t. rows_weight id k v t out = (\<Sum>rs \<leftarrow> example_rows. rows_weight id k v t rs)"
    using list_merge_adds_weights [OF example_sort example_rows_ok, of u32_ops] example_rows_size unfolding id by auto
  have "out = [(1, [(6, [(0, 2)])]), (2, [(9, [(0, 4)])]), (3, [(1, [(0, 1)])])]"
  proof (rule rows_ok_unique [OF out(2)])
    show "rows_ok [(1 :: nat, [(6, [(0 :: 32 word, 2 :: int)])]), (2, [(9, [(0, 4)])]), (3, [(1 :: nat, [(0, 1)])])]"
      by (simp add: rows_ok_def rows_mid_def vals_ok_def consolidated_def)
    show "rows_weight id k v t out = rows_weight id k v t [(1, [(6, [(0, 2)])]), (2, [(9, [(0, 4)])]), (3, [(1, [(0, 1)])])]" for k v t
      unfolding out(3) by (simp add: example_rows_def times_weight_def weight_simps)
  qed
  then show ?thesis using out(1) by simp
qed

text \<open>
  C7: A merge can be interrupted at any points. Every sequence of calls of \<open>work\<close> with any amounts of fuel
  returns; after as many calls with positive fuel as the inputs have keys and values the merge is
  finished; the batch it has built then is the same for all sequences of amounts.
\<close>

theorem interrupted_merge_terminates:
  assumes "key_sort (mf_sort mf)" and "\<forall>rs \<in> set batches. rows_ok rs"
  shows "\<exists>m m1 b1 m2 b2. list_merger_new rows_cursor_ops batches = Some m \<and>
    work_calls rows_cursor_ops mf ts frontier fuels1 m new_builder = Some (m1, b1) \<and>
    work_calls rows_cursor_ops mf ts frontier fuels2 m new_builder = Some (m2, b2) \<and>
    ((\<Sum>rs \<leftarrow> batches. rows_size rs) \<le> length (filter (\<lambda>f. 0 < f) fuels1) \<longrightarrow> lm_key_heap m1 = []) \<and>
    (lm_key_heap m1 = [] \<and> lm_key_heap m2 = [] \<longrightarrow> builder_done b1 = builder_done b2)"
proof -
  note spec = merging.work_calls_merge [OF rows_merging [OF assms(1)] _ refl, of batches ts frontier]
  note size = merging.left_size_sum [OF rows_merging [OF assms(1)], of batches]
  have ok: "\<forall>c \<in> set batches. True \<and> rows_ok c" using assms(2) by simp
  obtain m m1 b1 m2 b2 where m: "list_merger_new rows_cursor_ops batches = Some m"
    and w1: "work_calls rows_cursor_ops mf ts frontier fuels1 m new_builder = Some (m1, b1)"
      "(\<Sum>rs \<leftarrow> batches. rows_size rs) \<le> length (filter (\<lambda>f. 0 < f) fuels1) \<longrightarrow> lm_key_heap m1 = []"
      "lm_key_heap m1 = [] \<longrightarrow> rows_ok (builder_done b1) \<and> (\<forall>k v t. rows_weight id k v t (builder_done b1) =
        (\<Sum>rs \<leftarrow> batches. rows_weight (time_map mf (time_map_func ts frontier)) k v t rs))"
    and w2: "work_calls rows_cursor_ops mf ts frontier fuels2 m new_builder = Some (m2, b2)"
      "lm_key_heap m2 = [] \<longrightarrow> rows_ok (builder_done b2) \<and> (\<forall>k v t. rows_weight id k v t (builder_done b2) =
        (\<Sum>rs \<leftarrow> batches. rows_weight (time_map mf (time_map_func ts frontier)) k v t rs))"
    using spec [OF ok, of fuels1] spec [OF ok, of fuels2] unfolding size by fastforce
  then show ?thesis by (intro exI [of _ m] exI [of _ m1] exI [of _ b1] exI [of _ m2] exI [of _ b2]) (auto intro: rows_ok_unique)
qed

theorem interrupted_merge_terminates_witness:
  "\<exists>m m1 b1 m2 b2. list_merger_new rows_cursor_ops example_rows = Some m \<and>
    work_calls rows_cursor_ops example_factories u32_ops 0 (replicate 9 1) m new_builder = Some (m1, b1) \<and>
    work_calls rows_cursor_ops example_factories u32_ops 0 (replicate 9 5) m new_builder = Some (m2, b2) \<and>
    lm_key_heap m1 = [] \<and> (lm_key_heap m2 = [] \<longrightarrow> builder_done b1 = builder_done b2)"
  using interrupted_merge_terminates [OF example_sort example_rows_ok, of u32_ops 0 "replicate 9 1" "replicate 9 5"] example_rows_size
  by auto

text \<open>
  C15: What the documentation of \<open>work\<close> promises: when a call returns with fuel left, after whatever calls
  were made before, the inputs are fully merged.
\<close>

theorem work_with_fuel_left_is_done:
  assumes "key_sort (mf_sort mf)" and "\<forall>rs \<in> set batches. rows_ok rs" and "list_merger_new rows_cursor_ops batches = Some m"
    and "work_calls rows_cursor_ops mf ts frontier fuels m new_builder = Some (m', b')"
    and "work rows_cursor_ops mf ts m' b' frontier fuel = Some (m'', b'', fuel'')" and "0 < fuel''"
  shows "lm_key_heap m'' = [] \<and> rows_ok (builder_done b'') \<and>
    (\<forall>k v t. rows_weight id k v t (builder_done b'') =
      (\<Sum>rs \<leftarrow> batches. rows_weight (time_map mf (time_map_func ts frontier)) k v t rs))"
proof -
  have calls: "work_calls rows_cursor_ops mf ts frontier (fuels @ [fuel]) m new_builder = Some (m'', b'')"
    using assms(5) work_calls_append [of rows_cursor_ops mf ts frontier fuels "[fuel]" m new_builder] assms(4) by simp
  show ?thesis
    using merging.work_calls_merge [OF rows_merging [OF assms(1)] _ refl, of batches ts frontier "fuels @ [fuel]"]
      merging.work_calls_merge [OF rows_merging [OF assms(1)] _ refl, of batches ts frontier fuels fuel] assms calls
    by auto
qed

lemma example_work:
  "\<exists>m m'' b'' fuel''. list_merger_new rows_cursor_ops example_rows = Some m \<and>
    work rows_cursor_ops example_factories u32_ops m new_builder 0 100 = Some (m'', b'', fuel'') \<and> 0 < fuel''"
proof -
  note i = rows_merging [OF example_sort]
  obtain m where m: "list_merger_new rows_cursor_ops example_rows = Some m" "lm_cursors m = example_rows"
    "merging.merge_inv (\<lambda>c. c) (\<lambda>_. True) example_factories (time_map_func u32_ops 0) m new_builder
      (merging.remaining (\<lambda>c. c) example_factories (time_map_func u32_ops 0) example_rows)"
    using merging.list_merger_new_spec [OF i, of example_rows "time_map_func u32_ops 0"] example_rows_ok by auto
  show ?thesis
    using merging.work_spec [OF i m(3) refl, of 100] m(1) example_rows_size
    by (auto simp: merging.left_size_sum [OF i] m(2))
qed

theorem work_with_fuel_left_is_done_witness:
  "\<exists>m m'' b'' fuel''. list_merger_new rows_cursor_ops example_rows = Some m \<and>
    work rows_cursor_ops example_factories u32_ops m new_builder 0 100 = Some (m'', b'', fuel'') \<and> 0 < fuel'' \<and>
    lm_key_heap m'' = [] \<and> rows_ok (builder_done b'')"
proof -
  obtain m m'' b'' fuel'' where e: "list_merger_new rows_cursor_ops example_rows = Some m"
    "work rows_cursor_ops example_factories u32_ops m new_builder 0 100 = Some (m'', b'', fuel'')" "0 < fuel''"
    using example_work by blast
  show ?thesis using e work_with_fuel_left_is_done [OF example_sort example_rows_ok e(1) _ e(2,3), of "[]"] by auto
qed

end
