(* ===== verification/Group_Filters.thy ===== *)
theory Group_Filters
  imports List_Merger
begin

text \<open>
  The filters that garbage collection applies to the values of a key during a merge
  (\<open>crates/dbsp/src/trace/filter.rs\<close>, \<open>GroupFilterCursor\<close> and \<open>FilteredMergeCursorWithSnapshot\<close> in
  \<open>crates/dbsp/src/trace/cursor.rs\<close>): which values of a batch survive depends on a snapshot of the whole spine.
  The batch cursor and the snapshot cursor are the rows that are left to them; a walk through the values
  of the snapshot is a list in the order of the walk, and where it stops in that list is not kept, since
  the next key starts a new walk. \<open>None\<close> is a panic.
\<close>

section \<open>Definitions\<close>

datatype 'v group_filter =
  Simple "'v \<Rightarrow> bool"
| LastN nat "'v \<Rightarrow> bool"
| TopN nat "'v \<Rightarrow> bool"
| BottomN nat "'v \<Rightarrow> bool"

definition requires_snapshot :: "'v group_filter \<Rightarrow> bool" where
  "requires_snapshot gf = (case gf of Simple _ \<Rightarrow> False | LastN _ _ \<Rightarrow> True | TopN _ _ \<Rightarrow> True | BottomN _ _ \<Rightarrow> True)"

datatype 'v group_filter_cursor =
  SimpleCursor "'v \<Rightarrow> bool"
| LastNCursor nat "'v \<Rightarrow> bool"
| TopNCursor nat "'v \<Rightarrow> bool" 'v bool
| BottomNCursor nat "'v \<Rightarrow> bool" 'v bool


text \<open>Stepping a cursor over values until one satisfies the predicate.\<close>

fun skip_until :: "('v \<Rightarrow> bool) \<Rightarrow> ('v \<times> 'a) list \<Rightarrow> ('v \<times> 'a) list" where
  "skip_until p [] = []"
| "skip_until p (x # vs) = (if p (fst x) then x # vs else skip_until p vs)"

definition seek_key_exact :: "'k::linorder \<Rightarrow> ('k, 'v, 't, 'r) rows \<Rightarrow> bool \<times> ('k, 'v, 't, 'r) rows" where
  "seek_key_exact key trace =
     (let trace' = dropWhile (\<lambda>x. fst x < key) trace
      in (case trace' of (k, _) # _ \<Rightarrow> k = key | [] \<Rightarrow> False, trace'))"

text \<open>\<open>LastN\<close>: step back \<open>n - 1\<close> values.\<close>

fun last_n_loop :: "nat \<Rightarrow> nat \<Rightarrow> 'v list \<Rightarrow> 'v list" where
  "last_n_loop cnt n [] = []"
| "last_n_loop cnt n (v # vs) = (if cnt < n then last_n_loop (cnt + 1) n vs else v # vs)"

text \<open>\<open>TopN\<close> and \<open>BottomN\<close>: find the \<open>n\<close>-th value below the waterline, walking backwards or forwards.\<close>

fun waterline_loop :: "nat \<Rightarrow> ('v \<Rightarrow> bool) \<Rightarrow> nat \<Rightarrow> nat \<Rightarrow> 'v list \<Rightarrow> nat \<times> nat \<times> 'v option" where
  "waterline_loop n f abv blw [] = (abv, blw, None)"
| "waterline_loop n f abv blw (v # vs) =
     (if f v then waterline_loop n f (abv + 1) blw vs
      else if blw + 1 = n then (abv, blw + 1, Some v)
      else waterline_loop n f abv (blw + 1) vs)"

definition on_step_key ::
  "('v::linorder) group_filter_cursor \<Rightarrow> ('k::linorder, 'v, 't, 'r) rows \<Rightarrow> ('k, 'v, 't, 'r) rows
    \<Rightarrow> (bool \<times> 'v group_filter_cursor \<times> ('k, 'v, 't, 'r) rows \<times> ('k, 'v, 't, 'r) rows) option" where
  "on_step_key gf cursor trace =
     (case cursor of
        [] \<Rightarrow> None
      | (key, vs) # rest \<Rightarrow>
          (case seek_key_exact key trace of (found, trace') \<Rightarrow>
             if \<not> found then Some (False, gf, cursor, trace')
             else
               (let tvs = map fst (snd (hd trace')) in
                case gf of
                  SimpleCursor f \<Rightarrow>
                    (let vs' = skip_until f vs in Some (vs' \<noteq> [], gf, (key, vs') # rest, trace'))
                | LastNCursor n f \<Rightarrow>
                    (let vs' = (case last_n_loop 1 n (dropWhile f (rev tvs)) of
                                  [] \<Rightarrow> vs
                                | v # _ \<Rightarrow> skip_until (\<lambda>x. \<not> x < v) vs)
                     in Some (vs' \<noteq> [], gf, (key, vs') # rest, trace'))
                | TopNCursor n f m _ \<Rightarrow>
                    (case waterline_loop n f 0 0 (rev tvs) of (abv, blw, bound) \<Rightarrow>
                       let m' = (case bound of Some v \<Rightarrow> v | None \<Rightarrow> m);
                           gf' = TopNCursor n f m' (bound \<noteq> None)
                       in if blw + abv > 0 then
                            let vs' = (if bound \<noteq> None then skip_until (\<lambda>x. f x \<or> m' \<le> x) vs else vs)
                            in Some (vs' \<noteq> [], gf', (key, vs') # rest, trace')
                          else Some (False, gf', cursor, trace'))
                | BottomNCursor n f m _ \<Rightarrow>
                    (case waterline_loop n f 0 0 tvs of (abv, blw, bound) \<Rightarrow>
                       let m' = (case bound of Some v \<Rightarrow> v | None \<Rightarrow> m)
                       in Some (blw + abv > 0, BottomNCursor n f m' (bound \<noteq> None), cursor, trace')))))"

fun top_n_skip :: "(('v::linorder) \<Rightarrow> bool) \<Rightarrow> 'v \<Rightarrow> bool \<Rightarrow> ('v \<times> 'a) list \<Rightarrow> bool \<times> ('v \<times> 'a) list" where
  "top_n_skip f m valid [] = (valid, [])"
| "top_n_skip f m valid (x # vs) =
     (if f (fst x) \<or> \<not> valid then (valid, x # vs)
      else if m \<le> fst x then (False, x # vs)
      else top_n_skip f m valid vs)"

definition on_step_val ::
  "('v::linorder) group_filter_cursor \<Rightarrow> ('v \<times> 'a) list \<Rightarrow> 'v group_filter_cursor \<times> ('v \<times> 'a) list" where
  "on_step_val gf vs =
     (case gf of
        SimpleCursor f \<Rightarrow> (gf, skip_until f vs)
      | LastNCursor _ _ \<Rightarrow> (gf, vs)
      | TopNCursor n f m valid \<Rightarrow> (case top_n_skip f m valid vs of (valid', vs') \<Rightarrow> (TopNCursor n f m valid', vs'))
      | BottomNCursor n f m valid \<Rightarrow> (gf, skip_until (\<lambda>v. f v \<or> \<not> valid \<or> v \<le> m) vs))"

record ('k, 'v, 't, 'r) snapshot_cursor =
  sc_cursor :: "('k, 'v, 't, 'r) rows"
  sc_trace :: "('k, 'v, 't, 'r) rows"
  sc_key_filter :: "('k \<Rightarrow> bool) option"
  sc_value_filter :: "'v group_filter_cursor"

lemma on_step_key_length: "on_step_key gf cursor trace = Some (b, gf', cursor', trace') \<Longrightarrow> length cursor' = length cursor"
  by (auto simp: on_step_key_def Let_def split: list.splits prod.splits if_splits group_filter_cursor.splits)

function snapshot_skip_keys ::
  "('k::linorder, 'v::linorder, 't, 'r) snapshot_cursor \<Rightarrow> ('k, 'v, 't, 'r) snapshot_cursor option" where
  "snapshot_skip_keys c =
     (case sc_cursor c of
        [] \<Rightarrow> Some c
      | (key, _) # rest \<Rightarrow>
          if filter_include (sc_key_filter c) key then
            (case on_step_key (sc_value_filter c) (sc_cursor c) (sc_trace c) of
               None \<Rightarrow> None
             | Some (b, gf, cursor, trace) \<Rightarrow>
                 let c' = c\<lparr>sc_cursor := cursor, sc_trace := trace, sc_value_filter := gf\<rparr>
                 in if b then Some c' else snapshot_skip_keys (c'\<lparr>sc_cursor := tl cursor\<rparr>))
          else snapshot_skip_keys (c\<lparr>sc_cursor := rest\<rparr>))"
  by pat_completeness auto
termination
  by (relation "measure (\<lambda>c. length (sc_cursor c))") (auto dest!: on_step_key_length)

declare snapshot_skip_keys.simps [simp del]


definition snapshot_cursor_ops ::
  "(('k::linorder, 'v::linorder, 't, 'r) snapshot_cursor, 'k, 'v, 't, 'r) merge_cursor_ops" where
  "snapshot_cursor_ops = \<lparr>
     mc_key_valid = (\<lambda>c. mc_key_valid rows_cursor_ops (sc_cursor c)),
     mc_val_valid = (\<lambda>c. mc_val_valid rows_cursor_ops (sc_cursor c)),
     mc_key = (\<lambda>c. mc_key rows_cursor_ops (sc_cursor c)),
     mc_val = (\<lambda>c. mc_val rows_cursor_ops (sc_cursor c)),
     mc_times = (\<lambda>c. mc_times rows_cursor_ops (sc_cursor c)),
     mc_step_key = (\<lambda>c. case mc_step_key rows_cursor_ops (sc_cursor c) of
        None \<Rightarrow> None
      | Some cursor \<Rightarrow> snapshot_skip_keys (c\<lparr>sc_cursor := cursor\<rparr>)),
     mc_step_val = (\<lambda>c. case mc_step_val rows_cursor_ops (sc_cursor c) of
        Some ((k, vs) # rest) \<Rightarrow>
          (case on_step_val (sc_value_filter c) vs of (gf, vs') \<Rightarrow>
             Some (c\<lparr>sc_cursor := (k, vs') # rest, sc_value_filter := gf\<rparr>))
      | _ \<Rightarrow> None)\<rparr>"

section \<open>What survives\<close>

text \<open>
  The bound of a filter: the value from which \<open>LastN\<close> and \<open>TopN\<close>, or up to which \<open>BottomN\<close>, keeps values
  whatever the predicate says; without a bound everything is kept.
\<close>

definition nth_failing :: "nat \<Rightarrow> ('v \<Rightarrow> bool) \<Rightarrow> 'v list \<Rightarrow> 'v option" where
  "nth_failing n f vs = (if n = 0 then None else nth_opt (filter (\<lambda>v. \<not> f v) vs) (n - 1))"

definition keeps :: "('v::linorder) group_filter \<Rightarrow> 'v list \<Rightarrow> 'v \<Rightarrow> bool" where
  "keeps gf tvs v =
     (case gf of
        Simple f \<Rightarrow> f v
      | LastN n f \<Rightarrow> (case drop (n - 1) (dropWhile f (rev tvs)) of [] \<Rightarrow> True | b # _ \<Rightarrow> b \<le> v)
      | TopN n f \<Rightarrow> f v \<or> (case nth_failing n f (rev tvs) of None \<Rightarrow> True | Some b \<Rightarrow> b \<le> v)
      | BottomN n f \<Rightarrow> f v \<or> (case nth_failing n f tvs of None \<Rightarrow> True | Some b \<Rightarrow> v \<le> b))"

text \<open>\<open>BottomN\<close> does not look at the first value of a key.\<close>

definition kept_vals :: "('v::linorder) group_filter \<Rightarrow> 'v list \<Rightarrow> ('v \<times> 'a) list \<Rightarrow> ('v \<times> 'a) list" where
  "kept_vals gf tvs vs =
     (case gf of
        BottomN _ _ \<Rightarrow> take 1 vs @ filter (\<lambda>x. keeps gf tvs (fst x)) (drop 1 vs)
      | _ \<Rightarrow> filter (\<lambda>x. keeps gf tvs (fst x)) vs)"

fun group_rows ::
  "('k::linorder \<Rightarrow> bool) option \<Rightarrow> ('v::linorder) group_filter \<Rightarrow> ('k, 'v, 't, 'r) rows
    \<Rightarrow> ('k, 'v, 't, 'r) rows \<Rightarrow> ('k, 'v, 't, 'r) rows" where
  "group_rows kf gf trace [] = []"
| "group_rows kf gf trace ((k, vs) # rest) =
     (if filter_include kf k then
        (case seek_key_exact k trace of (found, trace') \<Rightarrow>
           let us = kept_vals gf (map fst (snd (hd trace'))) vs
           in if found \<and> us \<noteq> [] then (k, us) # group_rows kf gf trace' rest
              else group_rows kf gf trace' rest)
      else group_rows kf gf trace rest)"

text \<open>The filter of a cursor, and what it will still keep of the values behind the current one.\<close>

fun filter_of :: "'v group_filter_cursor \<Rightarrow> 'v group_filter" where
  "filter_of (SimpleCursor f) = Simple f"
| "filter_of (LastNCursor n f) = LastN n f"
| "filter_of (TopNCursor n f _ _) = TopN n f"
| "filter_of (BottomNCursor n f _ _) = BottomN n f"

fun keeps_next :: "('v::linorder) group_filter_cursor \<Rightarrow> 'v \<Rightarrow> bool" where
  "keeps_next (SimpleCursor f) v = f v"
| "keeps_next (LastNCursor n f) v = True"
| "keeps_next (TopNCursor n f m valid) v = (f v \<or> \<not> valid \<or> m \<le> v)"
| "keeps_next (BottomNCursor n f m valid) v = (f v \<or> \<not> valid \<or> v \<le> m)"

definition current_vals :: "('v::linorder) group_filter_cursor \<Rightarrow> ('v \<times> 'a) list \<Rightarrow> ('v \<times> 'a) list" where
  "current_vals gf vs = take 1 vs @ filter (\<lambda>x. keeps_next gf (fst x)) (drop 1 vs)"

definition snapshot_rows :: "('k::linorder, 'v::linorder, 't, 'r) snapshot_cursor \<Rightarrow> ('k, 'v, 't, 'r) rows" where
  "snapshot_rows c =
     (case sc_cursor c of
        [] \<Rightarrow> []
      | (k, vs) # rest \<Rightarrow>
          (k, current_vals (sc_value_filter c) vs) # group_rows (sc_key_filter c) (filter_of (sc_value_filter c)) (sc_trace c) rest)"

definition snapshot_ok :: "('k::linorder, 'v::linorder, 't, 'r) snapshot_cursor \<Rightarrow> bool" where
  "snapshot_ok c \<longleftrightarrow> (\<forall>x \<in> set (sc_cursor c). sorted_wrt (<) (map fst (snd x))) \<and>
     (\<forall>x \<in> set (tl (sc_cursor c)). snd x \<noteq> []) \<and> (\<forall>x \<in> set (sc_trace c). snd x \<noteq> [])"

section \<open>The cursor on a batch with a snapshot\<close>

lemma skip_until_dropWhile: "skip_until p vs = dropWhile (\<lambda>x. \<not> p (fst x)) vs"
  by (induction vs) auto

lemma last_n_loop_drop: "last_n_loop cnt n vs = drop (n - cnt) vs"
  by (induction cnt n vs rule: last_n_loop.induct) (auto simp: Suc_diff_Suc [symmetric] simp del: Suc_diff_Suc)

lemma waterline_loop_spec:
  assumes "waterline_loop n f abv blw vs = (a, b, bound)"
  shows "bound = (if blw < n then nth_opt (filter (\<lambda>v. \<not> f v) vs) (n - blw - 1) else None)" and
    "0 < b + a \<longleftrightarrow> 0 < blw + abv \<or> vs \<noteq> []"
  using assms
proof (induction n f abv blw vs rule: waterline_loop.induct)
  case (2 n f abv blw v vs)
  {
    case 1
    then show ?case using 2 by (auto simp: nth_opt_def nth_Cons' split: if_splits)
  next
    case 2
    then show ?case using "2.IH" by (auto split: if_splits)
  }
qed (auto simp: nth_opt_def)

lemma filter_skip_until:
  "take 1 (skip_until p vs) @ filter (\<lambda>x. p (fst x)) (drop 1 (skip_until p vs)) = filter (\<lambda>x. p (fst x)) vs"
  by (induction vs) auto

lemma skip_until_Nil_iff: "skip_until p vs = [] \<longleftrightarrow> filter (\<lambda>x. p (fst x)) vs = []"
  by (induction vs) auto

lemma skip_until_ge:
  "sorted_wrt (<) (map fst vs) \<Longrightarrow> skip_until (\<lambda>x. \<not> x < b) vs = filter (\<lambda>x. (b :: 'v::linorder) \<le> fst x) vs"
  by (induction vs) (auto simp: not_less intro!: filter_True [symmetric] dest: less_imp_le order_trans)

lemma sorted_skip_until: "sorted_wrt (<) (map fst vs) \<Longrightarrow> sorted_wrt (<) (map fst (skip_until p vs))"
  by (induction vs) auto

lemma top_n_skip_spec:
  assumes "top_n_skip f m valid vs = (valid', vs')" and "sorted_wrt (<) (map fst vs)"
  shows "current_vals (TopNCursor n f m valid') vs' = filter (\<lambda>x. keeps_next (TopNCursor n f m valid) (fst x)) vs"
    and "sorted_wrt (<) (map fst vs')"
  using assms by (induction f m valid vs rule: top_n_skip.induct)
    (auto simp: current_vals_def intro!: filter_True [symmetric] filter_cong dest: less_imp_le order_trans split: if_splits)

lemma on_step_val_spec:
  assumes "on_step_val gf vs = (gf', vs')" and "sorted_wrt (<) (map fst vs)"
  shows "filter_of gf' = filter_of gf" and "current_vals gf' vs' = filter (\<lambda>x. keeps_next gf (fst x)) vs"
    and "sorted_wrt (<) (map fst vs')"
proof -
  have "filter_of gf' = filter_of gf \<and> current_vals gf' vs' = filter (\<lambda>x. keeps_next gf (fst x)) vs \<and>
      sorted_wrt (<) (map fst vs')"
  proof (cases gf)
    case (SimpleCursor f)
    then show ?thesis using assms filter_skip_until [of f vs] by (auto simp: on_step_val_def current_vals_def sorted_skip_until)
  next
    case (LastNCursor n f)
    then show ?thesis using assms by (cases vs) (auto simp: on_step_val_def current_vals_def)
  next
    case (TopNCursor n f m valid)
    obtain valid1 vs1 where t: "top_n_skip f m valid vs = (valid1, vs1)" by force
    then show ?thesis
      using TopNCursor assms(1) top_n_skip_spec(1) [OF t assms(2), of n] top_n_skip_spec(2) [OF t assms(2)] by (auto simp: on_step_val_def)
  next
    case (BottomNCursor n f m valid)
    then show ?thesis
      using assms filter_skip_until [of "\<lambda>v. f v \<or> \<not> valid \<or> v \<le> m" vs]
      by (auto simp: on_step_val_def current_vals_def sorted_skip_until)
  qed
  then show "filter_of gf' = filter_of gf" "current_vals gf' vs' = filter (\<lambda>x. keeps_next gf (fst x)) vs"
    "sorted_wrt (<) (map fst vs')" by auto
qed

lemma on_step_key_spec:
  fixes gf :: "('v::linorder) group_filter_cursor"
  assumes found: "seek_key_exact k trace = (True, trace')" and tv: "snd (hd trace') \<noteq> []"
    and vs: "vs \<noteq> []" "sorted_wrt (<) (map fst vs)"
  shows "\<exists>gf' vs'. on_step_key gf ((k, vs) # rest) trace =
      Some (kept_vals (filter_of gf) (map fst (snd (hd trace'))) vs \<noteq> [], gf', (k, vs') # rest, trace') \<and>
    filter_of gf' = filter_of gf \<and> sorted_wrt (<) (map fst vs') \<and>
    (kept_vals (filter_of gf) (map fst (snd (hd trace'))) vs \<noteq> [] \<longrightarrow>
      current_vals gf' vs' = kept_vals (filter_of gf) (map fst (snd (hd trace'))) vs)"
proof -
  let ?tvs = "map fst (snd (hd trace'))"
  show ?thesis
  proof (cases gf)
    case (SimpleCursor f)
    then show ?thesis
      using found vs filter_skip_until [of f vs] skip_until_Nil_iff [of f vs]
      by (auto simp: on_step_key_def kept_vals_def keeps_def current_vals_def sorted_skip_until)
  next
    case (LastNCursor n f)
    let ?b = "drop (n - 1) (dropWhile f (rev ?tvs))"
    show ?thesis
    proof (cases ?b)
      case Nil
      then show ?thesis
        using LastNCursor found vs by (auto simp: on_step_key_def kept_vals_def keeps_def current_vals_def last_n_loop_drop neq_Nil_conv)
    next
      case (Cons b bs)
      let ?vs' = "filter (\<lambda>x. b \<le> fst x) vs"
      have all: "current_vals gf ?vs' = ?vs'" using LastNCursor by (cases ?vs') (auto simp: current_vals_def)
      have kept: "kept_vals (LastN n f) ?tvs vs = ?vs'" using Cons by (simp add: kept_vals_def keeps_def)
      have "on_step_key gf ((k, vs) # rest) trace = Some (?vs' \<noteq> [], gf, (k, ?vs') # rest, trace')"
        using LastNCursor found Cons skip_until_ge [OF vs(2), of b] by (simp add: on_step_key_def last_n_loop_drop Let_def)
      then show ?thesis
        using LastNCursor kept all vs(2) by (intro exI [of _ gf] exI [of _ ?vs']) (auto simp: sorted_wrt_filter [unfolded filter_map] sorted_wrt_map intro: sorted_wrt_filter)
    qed
  next
    case (TopNCursor n f m valid)
    obtain a b bound where w: "waterline_loop n f 0 0 (rev ?tvs) = (a, b, bound)" by (metis prod_cases3)
    have bound: "bound = nth_failing n f (rev ?tvs)" "0 < b + a"
      using waterline_loop_spec [OF w] tv by (auto simp: nth_failing_def)
    show ?thesis
    proof (cases bound)
      case None
      then show ?thesis
        using TopNCursor found vs w bound
        by (auto simp: on_step_key_def kept_vals_def keeps_def current_vals_def neq_Nil_conv)
    next
      case (Some m')
      then show ?thesis
        using TopNCursor found vs w bound filter_skip_until [of "\<lambda>x. f x \<or> m' \<le> x" vs] skip_until_Nil_iff [of "\<lambda>x. f x \<or> m' \<le> x" vs]
        by (auto simp: on_step_key_def kept_vals_def keeps_def current_vals_def sorted_skip_until)
    qed
  next
    case (BottomNCursor n f m valid)
    obtain a b bound where w: "waterline_loop n f 0 0 ?tvs = (a, b, bound)" by (metis prod_cases3)
    have bound: "bound = nth_failing n f ?tvs" "0 < b + a"
      using waterline_loop_spec [OF w] tv by (auto simp: nth_failing_def)
    then show ?thesis
      using BottomNCursor found vs w
      by (auto simp: on_step_key_def kept_vals_def keeps_def current_vals_def Let_def split: option.splits)
  qed
qed

lemma seek_key_exactD:
  assumes "seek_key_exact k trace = (found, trace')"
  shows "set trace' \<subseteq> set trace" and "found \<Longrightarrow> trace' \<noteq> []"
proof -
  have "trace' = dropWhile (\<lambda>x. fst x < k) trace" using assms by (simp add: seek_key_exact_def Let_def)
  then show "set trace' \<subseteq> set trace" by (auto dest: set_dropWhileD)
  show "found \<Longrightarrow> trace' \<noteq> []" using assms by (auto simp: seek_key_exact_def Let_def split: list.splits)
qed

lemma snapshot_skip_keys_spec:
  assumes "\<forall>x \<in> set (sc_cursor c). snd x \<noteq> [] \<and> sorted_wrt (<) (map fst (snd x))" and "\<forall>x \<in> set (sc_trace c). snd x \<noteq> []"
  shows "\<exists>c'. snapshot_skip_keys c = Some c' \<and> snapshot_ok c' \<and>
    snapshot_rows c' = group_rows (sc_key_filter c) (filter_of (sc_value_filter c)) (sc_trace c) (sc_cursor c)"
  using assms
proof (induction "length (sc_cursor c)" arbitrary: c)
  case 0
  then show ?case by (subst snapshot_skip_keys.simps) (auto simp: snapshot_ok_def snapshot_rows_def)
next
  case (Suc n)
  obtain k vs rest where r: "sc_cursor c = (k, vs) # rest" using Suc.hyps(2) by (cases "sc_cursor c") auto
  show ?case
  proof (cases "filter_include (sc_key_filter c) k")
    case False
    then show ?thesis
      using Suc.hyps(1) [of "c\<lparr>sc_cursor := rest\<rparr>"] Suc.hyps(2) Suc.prems r by (subst snapshot_skip_keys.simps) simp
  next
    case True
    obtain found trace' where sk: "seek_key_exact k (sc_trace c) = (found, trace')" by force
    have tr: "\<forall>x \<in> set trace'. snd x \<noteq> []" using seek_key_exactD(1) [OF sk] Suc.prems(2) by blast
    show ?thesis
    proof (cases found)
      case False
      then have "on_step_key (sc_value_filter c) (sc_cursor c) (sc_trace c) = Some (False, sc_value_filter c, sc_cursor c, trace')"
        using sk r by (simp add: on_step_key_def)
      then show ?thesis
        using Suc.hyps(1) [of "c\<lparr>sc_trace := trace', sc_cursor := rest\<rparr>"] Suc.hyps(2) Suc.prems r True False sk tr
        by (subst snapshot_skip_keys.simps) (simp add: Let_def)
    next
      case found: True
      let ?us = "kept_vals (filter_of (sc_value_filter c)) (map fst (snd (hd trace'))) vs"
      have tv: "snd (hd trace') \<noteq> []" using tr seek_key_exactD(2) [OF sk found] by simp
      have sk': "seek_key_exact k (sc_trace c) = (True, trace')" using sk found by simp
      obtain gf' vs' where o: "on_step_key (sc_value_filter c) (sc_cursor c) (sc_trace c) = Some (?us \<noteq> [], gf', (k, vs') # rest, trace')"
        "filter_of gf' = filter_of (sc_value_filter c)" "sorted_wrt (<) (map fst vs')" "?us \<noteq> [] \<longrightarrow> current_vals gf' vs' = ?us"
        using on_step_key_spec [OF sk' tv, of vs "sc_value_filter c" rest] Suc.prems(1) r by auto
      let ?c = "c\<lparr>sc_cursor := (k, vs') # rest, sc_trace := trace', sc_value_filter := gf'\<rparr>"
      show ?thesis
      proof (cases "?us = []")
        case empty: True
        then have "snapshot_skip_keys c = snapshot_skip_keys (?c\<lparr>sc_cursor := rest\<rparr>)"
          using True r o(1) by (subst snapshot_skip_keys.simps) (simp add: Let_def)
        then show ?thesis
          using Suc.hyps(1) [of "?c\<lparr>sc_cursor := rest\<rparr>"] Suc.hyps(2) Suc.prems(1) r True found sk tr o(2) empty
          by (auto simp: Let_def)
      next
        case False
        then have "snapshot_skip_keys c = Some ?c"
          using True r o(1) by (subst snapshot_skip_keys.simps) (simp add: Let_def)
        then show ?thesis
          using r True found sk tr o(2-4) False Suc.prems(1) by (auto simp: snapshot_ok_def snapshot_rows_def Let_def)
      qed
    qed
  qed
qed

lemma current_vals_Cons: "current_vals gf (x # vs) = x # filter (\<lambda>x. keeps_next gf (fst x)) vs"
  by (simp add: current_vals_def)

lemma current_vals_Nil_iff: "current_vals gf vs = [] \<longleftrightarrow> vs = []"
  by (cases vs) (simp_all add: current_vals_def)

interpretation group_cursor: merge_cursor snapshot_cursor_ops snapshot_rows snapshot_ok
proof
  fix c :: "('k::linorder, 'v::linorder, 't, 'r) snapshot_cursor" and k v tds vs rest
  assume o: "snapshot_ok c"
  show "mc_key_valid snapshot_cursor_ops c \<longleftrightarrow> snapshot_rows c \<noteq> []"
    by (auto simp: snapshot_cursor_ops_def rows_cursor_ops_def snapshot_rows_def split: list.splits)
  {
    assume r: "snapshot_rows c = (k, vs) # rest"
    then obtain us rest' where u: "sc_cursor c = (k, us) # rest'" "vs = current_vals (sc_value_filter c) us"
      "rest = group_rows (sc_key_filter c) (filter_of (sc_value_filter c)) (sc_trace c) rest'"
      by (auto simp: snapshot_rows_def split: list.splits prod.splits)
    show "mc_key snapshot_cursor_ops c = Some k" using u(1) by (simp add: snapshot_cursor_ops_def rows_cursor_ops_def)
    show "mc_val_valid snapshot_cursor_ops c \<longleftrightarrow> vs \<noteq> []"
      using u(1,2) current_vals_Nil_iff [of "sc_value_filter c" us]
      by (auto simp: snapshot_cursor_ops_def rows_cursor_ops_def split: list.splits)
    have "\<forall>x \<in> set rest'. snd x \<noteq> [] \<and> sorted_wrt (<) (map fst (snd x))" "\<forall>x \<in> set (sc_trace c). snd x \<noteq> []"
      using o u(1) by (auto simp: snapshot_ok_def)
    then show "\<exists>c'. mc_step_key snapshot_cursor_ops c = Some c' \<and> snapshot_ok c' \<and> snapshot_rows c' = rest"
      using snapshot_skip_keys_spec [of "c\<lparr>sc_cursor := rest'\<rparr>"] u
      by (simp add: snapshot_cursor_ops_def rows_cursor_ops_def)
  }
  {
    assume r: "snapshot_rows c = (k, (v, tds) # vs) # rest"
    then obtain us rest' where u: "sc_cursor c = (k, (v, tds) # us) # rest'" "vs = filter (\<lambda>x. keeps_next (sc_value_filter c) (fst x)) us"
      "rest = group_rows (sc_key_filter c) (filter_of (sc_value_filter c)) (sc_trace c) rest'"
      by (cases "snd (hd (sc_cursor c))") (auto simp: snapshot_rows_def current_vals_def split: list.splits prod.splits)
    show "mc_val snapshot_cursor_ops c = Some v" "mc_times snapshot_cursor_ops c = Some tds"
      using u(1) by (simp_all add: snapshot_cursor_ops_def rows_cursor_ops_def)
    obtain gf' us' where s: "on_step_val (sc_value_filter c) us = (gf', us')" by force
    have "sorted_wrt (<) (map fst us)" using o u(1) by (simp add: snapshot_ok_def)
    note spec = on_step_val_spec [OF s this]
    show "\<exists>c'. mc_step_val snapshot_cursor_ops c = Some c' \<and> snapshot_ok c' \<and> snapshot_rows c' = (k, vs) # rest"
      using u s spec o
      by (auto simp: snapshot_cursor_ops_def rows_cursor_ops_def snapshot_rows_def snapshot_ok_def)
  }
qed


section \<open>Weights after garbage collection\<close>















lemma group_merging: "key_sort (mf_sort mf) \<Longrightarrow> merging snapshot_cursor_ops snapshot_rows snapshot_ok mf"
  by (simp add: merging_def merging_axioms_def group_cursor.merge_cursor_axioms)

interpretation group_merge: merging snapshot_cursor_ops snapshot_rows snapshot_ok
  "\<lparr>mf_sort = sort_key fst, mf_timed = timed, mf_default_time = d\<rparr>" map_func for timed d map_func
  by (rule group_merging) (simp add: std.key_sort_axioms)


section \<open>Properties\<close>












end
