(* ===== verification/Spec2Isabelle.thy ===== *)
theory Spec2Isabelle
  imports Leaf_Layer Antichains Circuit_Cache Distinct_Operator Group_Filters
begin

text \<open>
  A verification library for the DBSP engine of Feldera (\<open>src/crates/\<close>).
\<close>

end
